(* ===== verification/Prelude.thy ===== *)
theory Prelude
  imports Complex_Main "HOL-Library.Word" "HOL-Library.Char_ord" "HOL-Library.List_Lexorder"
    "HOL-Library.Sublist" "HOL-Library.Multiset"
begin

text \<open>
  Shared vocabulary of the development: the types that stand for Go's strings, byte slices,
  times and durations; two's-complement arithmetic on \<open>int64\<close>; the ASCII case maps; the fact
  collections; and the lemmas on lists and maps that several components use.

  A Go string and a \<open>[]byte\<close> are both sequences of bytes, so both are \<open>char list\<close> here (a HOL
  \<open>char\<close> is eight bits). A Go \<open>int\<close> on the 64-bit targets of the program is a HOL \<open>int\<close>, with
  \<open>wrap64\<close> written out where a sum can leave the range.
\<close>

section \<open>Types and collections\<close>

type_synonym bytes = "char list"
type_synonym duration = int \<comment> \<open>\<open>time.Duration\<close>: nanoseconds\<close>
type_synonym instant = int \<comment> \<open>\<open>time.Time\<close>: nanoseconds since some fixed origin\<close>

named_theorems go_eval \<open>definitions unfolded when a model is run on a concrete input\<close>
declare Let_def [go_eval]

named_theorems reads \<open>how much of a connection's data a read takes\<close>
named_theorems hdr_inv \<open>operations that keep the header table well formed\<close>

abbreviation LF :: char where "LF \<equiv> CHR 0x0A"
abbreviation CR :: char where "CR \<equiv> CHR 0x0D"
abbreviation HT :: char where "HT \<equiv> CHR 0x09"
abbreviation CRLF :: bytes where "CRLF \<equiv> [CR, LF]"

definition Second :: duration where "Second = 1000000000"
definition Minute :: duration where "Minute = 60 * Second"
definition Millisecond :: duration where "Millisecond = 1000000"

section \<open>Two's-complement 64-bit integers\<close>

definition MaxInt64 :: int where "MaxInt64 = 2 ^ 63 - 1"
definition MinInt64 :: int where "MinInt64 = - (2 ^ 63)"
definition MaxUint64 :: int where "MaxUint64 = 2 ^ 64 - 1"

definition wrap64 :: "int \<Rightarrow> int" where
  "wrap64 i = (i + 2 ^ 63) mod 2 ^ 64 - 2 ^ 63"

lemmas int64_defs [go_eval] = MaxInt64_def MinInt64_def MaxUint64_def wrap64_def

lemma wrap64_id: "MinInt64 \<le> i \<Longrightarrow> i \<le> MaxInt64 \<Longrightarrow> wrap64 i = i"
  by (simp add: wrap64_def MinInt64_def MaxInt64_def)

lemma wrap64_range: "MinInt64 \<le> wrap64 i \<and> wrap64 i \<le> MaxInt64"
proof -
  have "0 \<le> (i + 2 ^ 63) mod 2 ^ 64" and "(i + 2 ^ 63) mod 2 ^ 64 < 2 ^ 64"
    by (rule pos_mod_sign pos_mod_bound; simp)+
  then show ?thesis by (simp add: wrap64_def MinInt64_def MaxInt64_def)
qed

lemma wrap64_word: "wrap64 i = sint (word_of_int i :: 64 word)"
proof -
  have "sint (word_of_int i :: 64 word) = signed_take_bit 63 i"
    by (simp add: sint_sbintrunc')
  also have "\<dots> = (i + 2 ^ 63) mod 2 ^ 64 - 2 ^ 63"
    by (simp add: signed_take_bit_eq_take_bit_shift take_bit_eq_mod)
  finally show ?thesis by (simp add: wrap64_def)
qed

text \<open>
  A positive sum that overflows wraps to a negative number: the shape of the defect in the
  chunked-body limit check.
\<close>

lemma wrap64_overflow_neg:
  assumes "MaxInt64 < i" and "i < 2 ^ 64"
  shows "wrap64 i < 0"
proof -
  have "(i + 2 ^ 63) mod 2 ^ 64 = i + 2 ^ 63 - 2 ^ 64"
  proof -
    have "(i + 2 ^ 63) mod 2 ^ 64 = (i + 2 ^ 63 - 2 ^ 64) mod 2 ^ 64"
      by (simp only: minus_mod_self2)
    also have "\<dots> = i + 2 ^ 63 - 2 ^ 64"
      using assms by (intro mod_pos_pos_trivial) (simp_all add: MaxInt64_def)
    finally show ?thesis .
  qed
  then show ?thesis using assms by (simp add: wrap64_def)
qed

section \<open>ASCII\<close>

definition is_ascii :: "char \<Rightarrow> bool" where "is_ascii c \<longleftrightarrow> of_char c < (128 :: nat)"
definition is_upper :: "char \<Rightarrow> bool" where
  "is_upper c \<longleftrightarrow> (65 :: nat) \<le> of_char c \<and> of_char c \<le> (90 :: nat)"
definition is_lower :: "char \<Rightarrow> bool" where
  "is_lower c \<longleftrightarrow> (97 :: nat) \<le> of_char c \<and> of_char c \<le> (122 :: nat)"
definition is_digit :: "char \<Rightarrow> bool" where
  "is_digit c \<longleftrightarrow> (48 :: nat) \<le> of_char c \<and> of_char c \<le> (57 :: nat)"

text \<open>Bit 5 of an ASCII letter is its case.\<close>

definition set_case_bit :: "bool \<Rightarrow> char \<Rightarrow> char" where
  "set_case_bit b c =
     (case c of Char b0 b1 b2 b3 b4 b5 b6 b7 \<Rightarrow> Char b0 b1 b2 b3 b4 b b6 b7)"

definition ascii_upper :: "char \<Rightarrow> char" where
  "ascii_upper c = (if is_lower c then set_case_bit False c else c)"
definition ascii_lower :: "char \<Rightarrow> char" where
  "ascii_lower c = (if is_upper c then set_case_bit True c else c)"

lemmas ascii_defs [go_eval] =
  is_ascii_def is_upper_def is_lower_def is_digit_def set_case_bit_def
  ascii_upper_def ascii_lower_def

lemma of_char_set_case_bit:
  "is_lower c \<Longrightarrow> of_char (set_case_bit False c) + (32 :: nat) = of_char c"
  "is_upper c \<Longrightarrow> of_char (set_case_bit True c) = of_char c + (32 :: nat)"
  by (cases c; auto simp: set_case_bit_def is_lower_def is_upper_def of_bool_def
        split: if_splits)+

lemma case_of_set_case_bit [simp]:
  "is_lower c \<Longrightarrow> is_upper (set_case_bit False c)"
  "is_upper c \<Longrightarrow> is_lower (set_case_bit True c)"
  using of_char_set_case_bit [of c] by (simp_all add: is_lower_def is_upper_def)

lemma upper_not_lower: "is_upper c \<Longrightarrow> \<not> is_lower c"
  by (simp add: is_lower_def is_upper_def)

lemma lower_not_upper: "is_lower c \<Longrightarrow> \<not> is_upper c"
  by (simp add: is_lower_def is_upper_def)

lemma set_case_bit_inv [simp]:
  "is_upper c \<Longrightarrow> set_case_bit False (set_case_bit True c) = c"
  "is_lower c \<Longrightarrow> set_case_bit True (set_case_bit False c) = c"
  by (cases c; auto simp: set_case_bit_def is_lower_def is_upper_def of_bool_def
        split: if_splits)+

lemma not_lower_upper [simp]: "\<not> is_lower (ascii_upper c)"
  by (auto simp: ascii_upper_def upper_not_lower)

lemma not_upper_lower [simp]: "\<not> is_upper (ascii_lower c)"
  by (auto simp: ascii_lower_def lower_not_upper)

lemma ascii_case_idem [simp]:
  "ascii_upper (ascii_upper c) = ascii_upper c" "ascii_lower (ascii_lower c) = ascii_lower c"
  by (auto simp: ascii_upper_def [of "ascii_upper c"] ascii_lower_def [of "ascii_lower c"])

lemma ascii_case_cancel [simp]:
  "ascii_upper (ascii_lower c) = ascii_upper c" "ascii_lower (ascii_upper c) = ascii_lower c"
  by (auto simp: ascii_upper_def ascii_lower_def upper_not_lower lower_not_upper)

section \<open>Lists and options\<close>

lemma takeWhile_neq_split:
  "x \<in> set xs \<Longrightarrow> \<exists>ys. xs = takeWhile (\<lambda>y. y \<noteq> x) xs @ x # ys"
  by (induction xs) auto

lemma takeWhile_take_eq: "takeWhile P (take n xs) = take n (takeWhile P xs)"
proof (induction xs arbitrary: n)
  case (Cons x xs)
  then show ?case by (cases n) auto
qed simp

lemma set_take_subset_le: "m \<le> n \<Longrightarrow> set (take m xs) \<subseteq> set (take n xs)"
  by (rule set_take_subset_set_take)

lemma find_Some_split:
  "find P xs = Some x \<Longrightarrow> \<exists>ys zs. xs = ys @ x # zs \<and> P x \<and> (\<forall>y \<in> set ys. \<not> P y)"
proof (induction xs)
  case (Cons a xs)
  show ?case
  proof (cases "P a")
    case True
    then show ?thesis using Cons.prems by (intro exI [of _ "[]"] exI [of _ xs]) simp
  next
    case False
    then obtain ys zs where "xs = ys @ x # zs" "P x" "\<forall>y \<in> set ys. \<not> P y"
      using Cons by auto
    then show ?thesis using False by (intro exI [of _ "a # ys"] exI [of _ zs]) simp
  qed
qed simp

lemma remove1_eq_filter:
  "distinct xs \<Longrightarrow> remove1 x xs = filter (\<lambda>y. y \<noteq> x) xs"
  by (auto simp: distinct_remove1_removeAll removeAll_filter_not_eq intro!: filter_cong)

lemma foldl_inv:
  assumes "P a" and "\<And>a x. P a \<Longrightarrow> x \<in> set xs \<Longrightarrow> P (f a x)"
  shows "P (foldl f a xs)"
  using assms by (induction xs arbitrary: a) auto

text \<open>Counting one more under a key of a map of counters.\<close>

lemma sum_bump:
  fixes m :: "'k \<rightharpoonup> 'v :: semiring_1"
  assumes "finite (dom m)"
  shows "(\<Sum>s \<in> insert k (dom m). the ((m(k \<mapsto> (case m k of None \<Rightarrow> 0 | Some n \<Rightarrow> n) + 1)) s))
    = (\<Sum>s \<in> dom m. the (m s)) + 1"
proof -
  let ?n = "case m k of None \<Rightarrow> 0 | Some n \<Rightarrow> n"
  have rest: "(\<Sum>s \<in> dom m - {k}. the ((m(k \<mapsto> ?n + 1)) s)) = (\<Sum>s \<in> dom m - {k}. the (m s))"
    by (intro sum.cong) auto
  have "(\<Sum>s \<in> insert k (dom m). the ((m(k \<mapsto> ?n + 1)) s)) = ?n + 1 + (\<Sum>s \<in> dom m - {k}. the (m s))"
    using assms rest by (simp add: sum.insert_remove)
  moreover have "(\<Sum>s \<in> dom m. the (m s)) = ?n + (\<Sum>s \<in> dom m - {k}. the (m s))"
  proof (cases "m k")
    case None
    then have "dom m - {k} = dom m" by auto
    with None show ?thesis by simp
  next
    case (Some n)
    then have "k \<in> dom m" by auto
    with Some assms show ?thesis by (simp add: sum.remove)
  qed
  ultimately show ?thesis by (simp add: ac_simps)
qed

text \<open>Replacing one element of a list of counters.\<close>

lemma sum_list_exchange:
  "i < length xs \<Longrightarrow> (\<Sum>x \<leftarrow> xs[i := y]. f x) = (\<Sum>x \<leftarrow> xs. f x) + f y - (f (xs ! i) :: int)"
  by (induction xs arbitrary: i) (auto split: nat.split)

end
