(* ===== verification/Go_Strings.thy ===== *)
theory Go_Strings
  imports Prelude
begin

text \<open>
  The functions of Go's \<open>strings\<close>, \<open>unicode\<close> and \<open>net\<close> packages that PulseHTTP calls, on byte
  strings. Where a library function is Unicode-aware the model is exact on the bytes: \<open>TrimSpace\<close>
  knows the UTF-8 encodings of every Unicode space, and the two case-insensitive comparisons with
  an ASCII literal (\<open>EqualFold\<close>, and \<open>ToLower\<close> followed by a \<open>switch\<close>) know the three non-ASCII
  runes that fold to an ASCII letter. \<open>ToUpper\<close> of a non-ASCII string needs the Unicode case table:
  it is the parameter \<open>uc\<close>.
\<close>

section \<open>Splitting and joining\<close>

fun Split :: "char \<Rightarrow> bytes \<Rightarrow> bytes list" where
  "Split c [] = [[]]"
| "Split c (x # xs) =
     (if x = c then [] # Split c xs
      else (case Split c xs of [] \<Rightarrow> [[x]] | p # ps \<Rightarrow> (x # p) # ps))"

fun Join :: "bytes list \<Rightarrow> bytes \<Rightarrow> bytes" where
  "Join [] sep = []"
| "Join [p] sep = p"
| "Join (p # q # ps) sep = p @ sep @ Join (q # ps) sep"

text \<open>\<open>Cut c s\<close> is Go's \<open>before, after, found := strings.Cut(s, c)\<close>.\<close>

fun Cut :: "char \<Rightarrow> bytes \<Rightarrow> bytes \<times> bytes \<times> bool" where
  "Cut c [] = ([], [], False)"
| "Cut c (x # xs) =
     (if x = c then ([], xs, True) else (case Cut c xs of (b, a, f) \<Rightarrow> (x # b, a, f)))"

fun SplitN :: "nat \<Rightarrow> char \<Rightarrow> bytes \<Rightarrow> bytes list" where
  "SplitN 0 c s = []"
| "SplitN (Suc 0) c s = [s]"
| "SplitN (Suc (Suc n)) c s =
     (case Cut c s of (b, a, f) \<Rightarrow> if f then b # SplitN (Suc n) c a else [b])"

lemma Split_nonempty [simp]: "Split c s \<noteq> []"
  by (cases s) (auto split: list.splits)

lemma Split_no_sep: "p \<in> set (Split c s) \<Longrightarrow> c \<notin> set p"
  by (induction s arbitrary: p) (auto split: if_splits list.splits)

lemma Split_fresh: "c \<notin> set s \<Longrightarrow> Split c s = [s]"
  by (induction s) auto

lemma Split_append: "c \<notin> set p \<Longrightarrow> Split c (p @ c # s) = p # Split c s"
  by (induction p) auto

lemma Join_Split: "Join (Split c s) [c] = s"
proof (induction s)
  case (Cons x xs)
  obtain p ps where *: "Split c xs = p # ps" by (meson Split_nonempty neq_Nil_conv)
  show ?case using Cons * by (cases ps) auto
qed simp

lemma Split_Join:
  "ps \<noteq> [] \<Longrightarrow> \<forall>p \<in> set ps. c \<notin> set p \<Longrightarrow> Split c (Join ps [c]) = ps"
  by (induction ps "[c]" rule: Join.induct) (auto simp: Split_fresh Split_append)

lemma Cut_found: "c \<notin> set b \<Longrightarrow> Cut c (b @ c # a) = (b, a, True)"
  by (induction b) auto

lemma Cut_missing: "c \<notin> set s \<Longrightarrow> Cut c s = (s, [], False)"
  by (induction s) auto

lemma Cut_cases:
  "Cut c s = (b, a, f) \<longleftrightarrow>
     (if c \<in> set s then f \<and> s = b @ c # a \<and> c \<notin> set b else \<not> f \<and> b = s \<and> a = [])"
proof (cases "c \<in> set s")
  case True
  then obtain b' a' where s: "s = b' @ c # a'" "c \<notin> set b'" by (meson split_list_first)
  then show ?thesis
    by (auto simp: Cut_found append_eq_append_conv2 append_eq_Cons_conv Cons_eq_append_conv)
next
  case False
  then show ?thesis by (auto simp: Cut_missing)
qed

section \<open>Prefixes, suffixes and trimming\<close>

definition HasPrefix :: "bytes \<Rightarrow> bytes \<Rightarrow> bool" where
  "HasPrefix s p \<longleftrightarrow> prefix p s"

definition CutPrefix :: "bytes \<Rightarrow> bytes \<Rightarrow> bytes \<times> bool" where
  "CutPrefix s p = (if prefix p s then (drop (length p) s, True) else (s, False))"

definition TrimSuffix1 :: "bytes \<Rightarrow> char \<Rightarrow> bytes" where
  "TrimSuffix1 s c = (if s \<noteq> [] \<and> last s = c then butlast s else s)"

definition TrimLeft :: "bytes \<Rightarrow> char list \<Rightarrow> bytes" where
  "TrimLeft s cutset = dropWhile (\<lambda>c. c \<in> set cutset) s"

definition TrimRight :: "bytes \<Rightarrow> char list \<Rightarrow> bytes" where
  "TrimRight s cutset = rev (dropWhile (\<lambda>c. c \<in> set cutset) (rev s))"

definition Trim :: "bytes \<Rightarrow> char list \<Rightarrow> bytes" where
  "Trim s cutset = TrimRight (TrimLeft s cutset) cutset"

fun Index :: "bytes \<Rightarrow> bytes \<Rightarrow> nat option" where
  "Index sub [] = (if sub = [] then Some 0 else None)"
| "Index sub (x # xs) =
     (if prefix sub (x # xs) then Some 0 else map_option Suc (Index sub xs))"

definition Contains :: "bytes \<Rightarrow> bytes \<Rightarrow> bool" where
  "Contains s sub \<longleftrightarrow> Index sub s \<noteq> None"

definition ContainsAny :: "bytes \<Rightarrow> char list \<Rightarrow> bool" where
  "ContainsAny s chars \<longleftrightarrow> list_ex (\<lambda>c. c \<in> set chars) s"

lemmas string_defs [go_eval] =
  HasPrefix_def CutPrefix_def TrimSuffix1_def TrimLeft_def TrimRight_def Trim_def
  Contains_def ContainsAny_def

lemma Index_Some: "Index sub s = Some n \<Longrightarrow> prefix sub (drop n s) \<and> n \<le> length s"
  by (induction s arbitrary: n) (auto split: if_splits)

lemma Index_split: "Index sub s = Some n \<Longrightarrow> s = take n s @ sub @ drop (n + length sub) s"
proof -
  assume "Index sub s = Some n"
  then obtain zs where "drop n s = sub @ zs" by (auto dest: Index_Some elim: prefixE)
  then show ?thesis by (metis add.commute append_eq_conv_conj append_take_drop_id drop_drop)
qed

lemma Contains_iff: "Contains s sub \<longleftrightarrow> sublist sub s"
proof
  assume "Contains s sub"
  then obtain n where "Index sub s = Some n" by (auto simp: Contains_def)
  then show "sublist sub s" by (metis Index_split sublist_def)
next
  assume "sublist sub s"
  then show "Contains s sub"
    unfolding Contains_def by (induction s) (auto simp: sublist_Cons_right)
qed

lemma set_TrimRight: "set (TrimRight s cs) \<subseteq> set s"
  by (auto simp: TrimRight_def dest: set_dropWhileD)

lemma set_Trim: "set (Trim s cs) \<subseteq> set s"
  using set_TrimRight by (auto simp: Trim_def TrimLeft_def dest!: set_dropWhileD subsetD)

lemma TrimRight_clean: "s = [] \<or> last s \<notin> set cs \<Longrightarrow> TrimRight s cs = s"
  by (cases s rule: rev_cases) (auto simp: TrimRight_def)

lemma TrimRight_snoc: "c \<in> set cs \<Longrightarrow> TrimRight (s @ [c]) cs = TrimRight s cs"
  by (simp add: TrimRight_def)

section \<open>Unicode white space\<close>

definition ascii_space :: "char \<Rightarrow> bool" where
  "ascii_space c \<longleftrightarrow> c \<in> {CHR 0x09, CHR 0x0A, CHR 0x0B, CHR 0x0C, CHR 0x0D, CHR 0x20}"

text \<open>The UTF-8 encodings of the non-ASCII runes with \<open>unicode.IsSpace\<close>.\<close>

definition wide_spaces :: "bytes list" where
  "wide_spaces =
     [[CHR 0xC2, CHR 0x85], [CHR 0xC2, CHR 0xA0], [CHR 0xE1, CHR 0x9A, CHR 0x80]]
     @ map (\<lambda>b. [CHR 0xE2, CHR 0x80, b])
         [CHR 0x80, CHR 0x81, CHR 0x82, CHR 0x83, CHR 0x84, CHR 0x85, CHR 0x86, CHR 0x87,
          CHR 0x88, CHR 0x89, CHR 0x8A, CHR 0xA8, CHR 0xA9, CHR 0xAF]
     @ [[CHR 0xE2, CHR 0x81, CHR 0x9F], [CHR 0xE3, CHR 0x80, CHR 0x80]]"

definition space_width :: "bytes list \<Rightarrow> bytes \<Rightarrow> nat" where
  "space_width wide s =
     (case s of [] \<Rightarrow> 0
      | c # _ \<Rightarrow> if ascii_space c then 1
               else (case find (\<lambda>e. prefix e s) wide of None \<Rightarrow> 0 | Some e \<Rightarrow> length e))"

function trim_spaces :: "bytes list \<Rightarrow> bytes \<Rightarrow> bytes" where
  "trim_spaces wide s =
     (if space_width wide s = 0 \<or> s = [] then s
      else trim_spaces wide (drop (space_width wide s) s))"
  by pat_completeness auto
termination
  by (relation "measure (\<lambda>(wide, s). length s)") auto

declare trim_spaces.simps [simp del]

definition TrimSpace :: "bytes \<Rightarrow> bytes" where
  "TrimSpace s = rev (trim_spaces (map rev wide_spaces) (rev (trim_spaces wide_spaces s)))"

lemma trim_spaces_eval:
  "trim_spaces wide [] = []"
  "trim_spaces wide (c # cs) =
     (if space_width wide (c # cs) = 0 then c # cs
      else trim_spaces wide (drop (space_width wide (c # cs)) (c # cs)))"
  by (subst trim_spaces.simps; simp)+

lemmas space_defs [go_eval] =
  TrimSpace_def ascii_space_def wide_spaces_def space_width_def trim_spaces_eval

lemma wide_not_ascii: "e \<in> set wide_spaces \<Longrightarrow> e \<noteq> [] \<and> \<not> is_ascii (hd e) \<and> \<not> is_ascii (last e)"
  by (auto simp: wide_spaces_def is_ascii_def)

lemma wide_stops_at_ascii:
  assumes "is_ascii c" and "\<And>e. e \<in> set wide \<Longrightarrow> e \<noteq> [] \<and> \<not> is_ascii (hd e)"
  shows "find (\<lambda>e. prefix e (c # s)) wide = None"
proof -
  have "\<not> prefix e (c # s)" if "e \<in> set wide" for e
    using assms that by (cases e) force+
  then show ?thesis by (simp add: find_None_iff)
qed

lemma space_width_graph:
  assumes "is_ascii c" and "\<not> ascii_space c"
    and "\<And>e. e \<in> set wide \<Longrightarrow> e \<noteq> [] \<and> \<not> is_ascii (hd e)"
  shows "space_width wide (c # s) = 0"
  using assms wide_stops_at_ascii by (auto simp: space_width_def)

text \<open>A string that starts and ends with a visible ASCII byte is left alone.\<close>

definition trimmed :: "bytes \<Rightarrow> bool" where
  "trimmed s \<longleftrightarrow> s = [] \<or>
     (is_ascii (hd s) \<and> \<not> ascii_space (hd s) \<and> is_ascii (last s) \<and> \<not> ascii_space (last s))"

lemma trim_spaces_stop:
  "s = [] \<or> (is_ascii (hd s) \<and> \<not> ascii_space (hd s)) \<Longrightarrow>
   (\<And>e. e \<in> set wide \<Longrightarrow> e \<noteq> [] \<and> \<not> is_ascii (hd e)) \<Longrightarrow> trim_spaces wide s = s"
  by (cases s) (auto simp: trim_spaces.simps [of wide] space_width_graph)

lemma rev_wide_not_ascii: "e \<in> set (map rev wide_spaces) \<Longrightarrow> e \<noteq> [] \<and> \<not> is_ascii (hd e)"
  using wide_not_ascii by (auto simp: hd_rev)

lemma TrimSpace_trimmed: "trimmed s \<Longrightarrow> TrimSpace s = s"
proof (cases "s = []")
  case False
  assume "trimmed s"
  then have l: "trim_spaces wide_spaces s = s"
    using wide_not_ascii by (intro trim_spaces_stop) (auto simp: trimmed_def)
  have "trim_spaces (map rev wide_spaces) (rev s) = rev s"
    using \<open>trimmed s\<close> rev_wide_not_ascii
    by (intro trim_spaces_stop) (auto simp: trimmed_def hd_rev)
  then show ?thesis by (simp add: TrimSpace_def l)
qed (simp add: TrimSpace_def trim_spaces.simps)

lemma TrimSpace_space: "ascii_space c \<Longrightarrow> TrimSpace (c # s) = TrimSpace s"
  by (simp add: TrimSpace_def trim_spaces.simps [of wide_spaces "c # s"] space_width_def)

lemma trim_spaces_suffix: "suffix (trim_spaces wide s) s"
proof (induction wide s rule: trim_spaces.induct)
  case (1 wide s)
  show ?case
  proof (cases "space_width wide s = 0 \<or> s = []")
    case True
    then show ?thesis by (auto simp: trim_spaces.simps [of wide s])
  next
    case False
    with 1 have "suffix (trim_spaces wide (drop (space_width wide s) s)) s"
      by (blast intro: suffix_order.trans suffix_drop)
    with False show ?thesis by (simp add: trim_spaces.simps [of wide s])
  qed
qed

lemma set_TrimSpace: "set (TrimSpace s) \<subseteq> set s"
proof -
  have "set (trim_spaces w t) \<subseteq> set t" for w t
    using trim_spaces_suffix set_mono_suffix by blast
  then have "set (TrimSpace s) \<subseteq> set (trim_spaces wide_spaces s)"
    unfolding TrimSpace_def by (metis set_rev)
  then show ?thesis using \<open>\<And>w t. set (trim_spaces w t) \<subseteq> set t\<close> by blast
qed

lemma TrimSpace_no_space: "s \<noteq> [] \<Longrightarrow> \<forall>c \<in> set s. is_ascii c \<and> \<not> ascii_space c \<Longrightarrow> TrimSpace s = s"
  by (intro TrimSpace_trimmed) (auto simp: trimmed_def)

text \<open>A string with no white space to trim at either end; \<open>TrimSpace\<close> always leaves one.\<close>

definition stripped :: "bytes \<Rightarrow> bool" where
  "stripped s \<longleftrightarrow> s = [] \<or> (space_width wide_spaces s = 0 \<and> space_width (map rev wide_spaces) (rev s) = 0)"

lemma TrimSpace_stripped: "stripped s \<Longrightarrow> TrimSpace s = s"
  using trim_spaces.simps [of wide_spaces s] trim_spaces.simps [of "map rev wide_spaces" "rev s"]
  by (auto simp: stripped_def TrimSpace_def)

lemma trim_spaces_result: "trim_spaces wide s = [] \<or> space_width wide (trim_spaces wide s) = 0"
proof (induction wide s rule: trim_spaces.induct)
  case (1 wide s)
  show ?case
  proof (cases "space_width wide s = 0 \<or> s = []")
    case True
    then show ?thesis by (auto simp: trim_spaces.simps [of wide s])
  next
    case False
    with 1 show ?thesis by (simp add: trim_spaces.simps [of wide s])
  qed
qed

lemma space_width_prefix:
  assumes "space_width wide t = 0" "prefix r t" "r \<noteq> []" "[] \<notin> set wide"
  shows "space_width wide r = 0"
proof -
  from assms(2,3) obtain c r' t' where rt: "r = c # r'" "t = c # t'" by (cases r) (auto simp: prefix_def)
  have "\<not> ascii_space c" using assms(1) rt by (auto simp: space_width_def)
  moreover have "find (\<lambda>e. prefix e t) wide = None"
  proof (cases "find (\<lambda>e. prefix e t) wide")
    case (Some e)
    then have "e \<in> set wide" by (metis find_Some_iff nth_mem)
    with Some assms(1,4) rt show ?thesis by (auto simp: space_width_def split: if_splits)
  qed
  ultimately have "find (\<lambda>e. prefix e r) wide = None"
    using assms(2) prefix_order.trans by (auto simp: find_None_iff)
  with \<open>\<not> ascii_space c\<close> rt show ?thesis by (simp add: space_width_def)
qed

lemma wide_nonempty [simp]: "[] \<notin> set wide_spaces" "[] \<notin> set (map rev wide_spaces)"
  using wide_not_ascii by auto

lemma stripped_TrimSpace [simp]: "stripped (TrimSpace s)"
proof -
  let ?t = "trim_spaces wide_spaces s"
  let ?r = "trim_spaces (map rev wide_spaces) (rev ?t)"
  have "prefix (rev ?r) ?t" using trim_spaces_suffix [of _ "rev ?t"] by (simp add: suffix_to_prefix)
  then show ?thesis
    using trim_spaces_result [of wide_spaces s] trim_spaces_result [of "map rev wide_spaces" "rev ?t"]
      space_width_prefix [of wide_spaces ?t "rev ?r"]
    by (auto simp: TrimSpace_def stripped_def)
qed

lemma trimmed_stripped: "trimmed s \<Longrightarrow> stripped s"
  by (metis TrimSpace_trimmed stripped_TrimSpace)

lemma stripped_ends: "stripped s \<Longrightarrow> s \<noteq> [] \<Longrightarrow> \<not> ascii_space (hd s) \<and> \<not> ascii_space (last s)"
proof -
  have "\<not> ascii_space (hd t)" if "space_width w t = 0" "t \<noteq> []" for w t
    using that by (cases t) (auto simp: space_width_def)
  then show "stripped s \<Longrightarrow> s \<noteq> [] \<Longrightarrow> ?thesis"
    unfolding stripped_def by (metis hd_rev rev_is_Nil_conv)
qed

section \<open>Case\<close>

text \<open>
  \<open>strings.ToUpper\<close>: byte-wise on ASCII strings, else by the Unicode case table \<open>uc\<close>.
\<close>

definition ToUpper :: "(bytes \<Rightarrow> bytes) \<Rightarrow> bytes \<Rightarrow> bytes" where
  "ToUpper uc s = (if list_all is_ascii s then map ascii_upper s else uc s)"

abbreviation kelvin_sign :: bytes where "kelvin_sign \<equiv> [CHR 0xE2, CHR 0x84, CHR 0xAA]"
abbreviation long_s :: bytes where "long_s \<equiv> [CHR 0xC5, CHR 0xBF]"
abbreviation dotted_I :: bytes where "dotted_I \<equiv> [CHR 0xC4, CHR 0xB0]"

text \<open>
  \<open>strings.EqualFold(s, t)\<close> for an ASCII \<open>t\<close>: beside the ASCII case pairs, the only runes whose
  simple fold is an ASCII letter are the Kelvin sign and the long s.
\<close>

fun EqualFold :: "bytes \<Rightarrow> bytes \<Rightarrow> bool" where
  "EqualFold [] t \<longleftrightarrow> t = []"
| "EqualFold (c # cs) [] \<longleftrightarrow> False"
| "EqualFold (c # cs) (t # ts) \<longleftrightarrow>
     (if is_ascii c then ascii_lower c = ascii_lower t \<and> EqualFold cs ts
      else if prefix kelvin_sign (c # cs)
        then ascii_lower t = CHR ''k'' \<and> EqualFold (drop 2 cs) ts
      else if prefix long_s (c # cs)
        then ascii_lower t = CHR ''s'' \<and> EqualFold (drop 1 cs) ts
      else False)"

text \<open>
  \<open>strings.ToLower(s) == t\<close> for an ASCII literal \<open>t\<close>: the runes with an ASCII lower case outside
  ASCII are the Kelvin sign and the dotted capital I.
\<close>

fun ToLower_is :: "bytes \<Rightarrow> bytes \<Rightarrow> bool" where
  "ToLower_is [] t \<longleftrightarrow> t = []"
| "ToLower_is (c # cs) [] \<longleftrightarrow> False"
| "ToLower_is (c # cs) (t # ts) \<longleftrightarrow>
     (if is_ascii c then ascii_lower c = t \<and> ToLower_is cs ts
      else if prefix kelvin_sign (c # cs) then t = CHR ''k'' \<and> ToLower_is (drop 2 cs) ts
      else if prefix dotted_I (c # cs) then t = CHR ''i'' \<and> ToLower_is (drop 1 cs) ts
      else False)"

lemma EqualFold_ascii:
  "list_all is_ascii s \<Longrightarrow> EqualFold s t \<longleftrightarrow> map ascii_lower s = map ascii_lower t"
proof (induction s arbitrary: t)
  case (Cons c s)
  then show ?case by (cases t) auto
qed auto

lemma ToLower_is_ascii: "list_all is_ascii s \<Longrightarrow> ToLower_is s t \<longleftrightarrow> map ascii_lower s = t"
proof (induction s arbitrary: t)
  case (Cons c s)
  then show ?case by (cases t) auto
qed auto

section \<open>net.SplitHostPort\<close>

definition last_index :: "char \<Rightarrow> bytes \<Rightarrow> nat option" where
  "last_index c s =
     (if c \<in> set s then Some (length s - 1 - length (takeWhile (\<lambda>x. x \<noteq> c) (rev s))) else None)"

definition first_index :: "char \<Rightarrow> bytes \<Rightarrow> nat option" where
  "first_index c s = (if c \<in> set s then Some (length (takeWhile (\<lambda>x. x \<noteq> c) s)) else None)"

text \<open>The host of \<open>net.SplitHostPort(hostport)\<close>; \<open>None\<close> is its error.\<close>

definition SplitHostPort :: "bytes \<Rightarrow> bytes option" where
  "SplitHostPort hostport =
     (case last_index (CHR '':'') hostport of
        None \<Rightarrow> None
      | Some i \<Rightarrow>
          if hostport ! 0 = CHR ''['' then
            (case first_index (CHR '']'') hostport of
               None \<Rightarrow> None
             | Some e \<Rightarrow>
                 if e + 1 = i \<and> CHR ''['' \<notin> set (drop 1 hostport)
                    \<and> CHR '']'' \<notin> set (drop (e + 1) hostport)
                 then Some (drop 1 (take e hostport)) else None)
          else if CHR '':'' \<in> set (take i hostport) \<or> CHR ''['' \<in> set hostport
                  \<or> CHR '']'' \<in> set hostport then None
          else Some (take i hostport))"

lemmas host_defs [go_eval] = last_index_def first_index_def SplitHostPort_def

lemma SplitHostPort_simple:
  assumes "CHR '':'' \<notin> set h" "CHR ''['' \<notin> set h" "CHR '']'' \<notin> set h" "h \<noteq> []"
    and "CHR '':'' \<notin> set p" "CHR ''['' \<notin> set p" "CHR '']'' \<notin> set p"
  shows "SplitHostPort (h @ CHR '':'' # p) = Some h"
proof -
  have "takeWhile (\<lambda>x. x \<noteq> CHR '':'') (rev (h @ CHR '':'' # p)) = rev p"
    using assms by (simp add: takeWhile_append)
  then have "last_index (CHR '':'') (h @ CHR '':'' # p) = Some (length h)"
    by (simp add: last_index_def)
  moreover have "(h @ CHR '':'' # p) ! 0 \<noteq> CHR ''[''"
    using assms by (cases h) auto
  ultimately show ?thesis using assms by (simp add: SplitHostPort_def)
qed

end
