(* ===== verification/Go_Strconv.thy ===== *)
theory Go_Strconv
  imports Go_Strings
begin

text \<open>
  Go's \<open>strconv\<close>: \<open>Itoa\<close>, \<open>ParseInt\<close> with an explicit base and 64 bits, and \<open>Atoi\<close>. As in Go, a
  failing parse still returns a value beside its error, and the proxy uses that value; so the
  model returns both. The round trips between formatting and parsing close the theory.
\<close>

section \<open>Formatting\<close>

definition digit_char :: "nat \<Rightarrow> char" where
  "digit_char d = ''0123456789abcdef'' ! (d mod 16)"

fun fmt_nat :: "nat \<Rightarrow> nat \<Rightarrow> bytes" where
  "fmt_nat b n =
     (if b < 2 \<or> n < b then [digit_char n] else fmt_nat b (n div b) @ [digit_char (n mod b)])"

declare fmt_nat.simps [simp del]

definition Itoa :: "int \<Rightarrow> bytes" where
  "Itoa i = (if i < 0 then CHR ''-'' # fmt_nat 10 (nat (- i)) else fmt_nat 10 (nat i))"

section \<open>Parsing\<close>

datatype num_error = ErrSyntax | ErrRange

definition digit_val :: "char \<Rightarrow> int option" where
  "digit_val c =
     (if is_digit c then Some (int (of_char c) - 48)
      else if is_lower c then Some (int (of_char c) - 97 + 10)
      else if is_upper c then Some (int (of_char c) - 65 + 10)
      else None)"

fun ParseUint_loop :: "int \<Rightarrow> int \<Rightarrow> bytes \<Rightarrow> int \<times> num_error option" where
  "ParseUint_loop b n [] = (n, None)"
| "ParseUint_loop b n (c # cs) =
     (case digit_val c of
        None \<Rightarrow> (0, Some ErrSyntax)
      | Some d \<Rightarrow>
          if d \<ge> b then (0, Some ErrSyntax)
          else if n * b + d > MaxUint64 then (MaxUint64, Some ErrRange)
          else ParseUint_loop b (n * b + d) cs)"

definition ParseUint :: "int \<Rightarrow> bytes \<Rightarrow> int \<times> num_error option" where
  "ParseUint b s = (if s = [] then (0, Some ErrSyntax) else ParseUint_loop b 0 s)"

definition ParseInt :: "int \<Rightarrow> bytes \<Rightarrow> int \<times> num_error option" where
  "ParseInt b s =
     (case s of
        [] \<Rightarrow> (0, Some ErrSyntax)
      | c # cs \<Rightarrow>
          let neg = (c = CHR ''-'');
              (un, err) = ParseUint b (if c = CHR ''+'' \<or> neg then cs else s)
          in if err = Some ErrSyntax then (0, err)
             else if \<not> neg \<and> un \<ge> 2 ^ 63 then (2 ^ 63 - 1, Some ErrRange)
             else if neg \<and> un > 2 ^ 63 then (- (2 ^ 63), Some ErrRange)
             else (if neg then - un else un, None))"

definition Atoi :: "bytes \<Rightarrow> int \<times> num_error option" where
  "Atoi s = ParseInt 10 s"

lemmas strconv_defs [go_eval] =
  digit_char_def Itoa_def digit_val_def ParseUint_def ParseInt_def Atoi_def fmt_nat.simps

section \<open>Round trips\<close>

lemma fmt_nat_nonempty [simp]: "fmt_nat b n \<noteq> []"
  by (subst fmt_nat.simps) simp

lemma digit_char_table:
  "list_all (\<lambda>d. digit_val (digit_char d) = Some (int d) \<and> is_ascii (digit_char d)
     \<and> \<not> ascii_space (digit_char d) \<and> digit_char d \<notin> set ''+-,;: /?%&='') [0..<16]"
  by code_simp

lemma digit_char_enum:
  "d < 16 \<Longrightarrow> digit_val (digit_char d) = Some (int d) \<and> is_ascii (digit_char d)
     \<and> \<not> ascii_space (digit_char d) \<and> digit_char d \<notin> set ''+-,;: /?%&=''"
  by (rule bspec [OF digit_char_table [unfolded list_all_iff]]) simp

lemma fmt_nat_chars: "c \<in> set (fmt_nat b n) \<Longrightarrow> \<exists>d < 16. c = digit_char d"
proof (induction b n rule: fmt_nat.induct)
  case (1 b n)
  have mod16: "\<exists>d < 16. digit_char k = digit_char d" for k
    by (intro exI [of _ "k mod 16"]) (simp add: digit_char_def)
  from 1 show ?case
    using mod16 by (auto simp: fmt_nat.simps [of b n] split: if_splits)
qed

lemma fmt_nat_clean:
  "c \<in> set (fmt_nat b n) \<Longrightarrow>
     is_ascii c \<and> \<not> ascii_space c \<and> c \<notin> set ''+-,;: /?%&='' \<and> c \<noteq> LF \<and> c \<noteq> CR"
  using fmt_nat_chars digit_char_enum by (fastforce simp: ascii_space_def)

lemma ParseUint_loop_append:
  "ParseUint_loop b n xs = (m, None) \<Longrightarrow> ParseUint_loop b n (xs @ ys) = ParseUint_loop b m ys"
  by (induction b n xs rule: ParseUint_loop.induct) (auto split: option.splits if_splits)

lemma ParseUint_fmt_nat:
  "2 \<le> b \<Longrightarrow> b \<le> 16 \<Longrightarrow> int n \<le> MaxUint64 \<Longrightarrow>
     ParseUint_loop (int b) 0 (fmt_nat b n) = (int n, None)"
proof (induction b n rule: fmt_nat.induct)
  case (1 b n)
  show ?case
  proof (cases "n < b")
    case True
    then show ?thesis using 1 digit_char_enum [of n] by (simp add: fmt_nat.simps [of b n])
  next
    case False
    have "int (n div b) \<le> int n" by (intro of_nat_mono div_le_dividend)
    then have "int (n div b) \<le> MaxUint64" using 1 by linarith
    then have "ParseUint_loop (int b) 0 (fmt_nat b (n div b)) = (int (n div b), None)"
      using 1 False by auto
    moreover have "int (n div b) * int b + int (n mod b) = int n"
      by (metis div_mult_mod_eq of_nat_add of_nat_mult)
    moreover have "\<not> b \<le> n mod b" using 1 by (simp add: not_le)
    moreover have "n mod b < 16" using 1 \<open>\<not> b \<le> n mod b\<close> by linarith
    ultimately show ?thesis
      using 1 False digit_char_enum [of "n mod b"]
      by (simp del: of_nat_mod add: fmt_nat.simps [of b n] ParseUint_loop_append)
  qed
qed

lemma ParseInt_fmt_nat:
  assumes "2 \<le> b" "b \<le> 16" "int n \<le> MaxInt64"
  shows "ParseInt (int b) (fmt_nat b n) = (int n, None)"
proof -
  obtain c cs where cs: "fmt_nat b n = c # cs" by (meson fmt_nat_nonempty neq_Nil_conv)
  then have "c \<notin> set ''+-''" using fmt_nat_clean [of c b n] by auto
  then show ?thesis
    using assms ParseUint_fmt_nat [of b n] cs
    by (simp add: ParseInt_def ParseUint_def MaxInt64_def MaxUint64_def)
qed

lemma ParseInt_range:
  assumes "ParseInt b s = (n, e)"
  shows "MinInt64 \<le> n \<and> n \<le> MaxInt64"
proof -
  have nn: "0 \<le> n' \<Longrightarrow> 0 < b' \<Longrightarrow> 0 \<le> fst (ParseUint_loop b' n' cs)" for b' n' cs
  proof (induction b' n' cs rule: ParseUint_loop.induct)
    case (2 b' n' c cs)
    then show ?case
      by (auto simp: MaxUint64_def digit_val_def is_digit_def is_lower_def is_upper_def
            split: option.splits if_splits)
  qed (simp add: MaxUint64_def)
  have neg: "\<not> 0 < b' \<Longrightarrow> fst (ParseUint_loop b' 0 cs) = 0" for b' cs
    by (cases cs) (auto simp: digit_val_def is_digit_def is_lower_def is_upper_def
        split: option.splits)
  have "0 \<le> fst (ParseUint b cs)" for cs
    using nn [of 0 b cs] neg [of b cs] by (cases "0 < b") (auto simp: ParseUint_def)
  then have "0 \<le> un" if "ParseUint b cs = (un, er)" for cs un er
    by (metis fst_conv that)
  then show ?thesis
    using assms
    by (fastforce simp: ParseInt_def Let_def MinInt64_def MaxInt64_def
        split: list.splits prod.splits if_splits)
qed

lemma Atoi_Itoa:
  assumes "MinInt64 \<le> i" "i \<le> MaxInt64"
  shows "Atoi (Itoa i) = (i, None)"
proof (cases "i < 0")
  case True
  have "ParseUint 10 (fmt_nat 10 (nat (- i))) = (- i, None)"
    using ParseUint_fmt_nat [of 10 "nat (- i)"] assms True
    by (simp add: ParseUint_def MinInt64_def MaxUint64_def)
  then show ?thesis
    using True assms by (simp add: Atoi_def Itoa_def ParseInt_def MinInt64_def)
next
  case False
  then show ?thesis
    using ParseInt_fmt_nat [of 10 "nat i"] assms by (simp add: Atoi_def Itoa_def)
qed

lemma Itoa_clean:
  "c \<in> set (Itoa i) \<Longrightarrow> is_ascii c \<and> \<not> ascii_space c \<and> c \<noteq> LF \<and> c \<noteq> CR \<and> c \<noteq> CHR '':''"
proof (cases "c = CHR ''-''")
  case False
  assume "c \<in> set (Itoa i)"
  with False obtain n where "c \<in> set (fmt_nat 10 n)" by (auto simp: Itoa_def split: if_splits)
  from fmt_nat_clean [OF this] show ?thesis by simp
qed (simp add: is_ascii_def ascii_space_def)

lemma Itoa_nonempty [simp]: "Itoa i \<noteq> []"
  by (simp add: Itoa_def)

lemma Itoa_trimmed: "trimmed (Itoa i)"
  using Itoa_clean [of "hd (Itoa i)" i] Itoa_clean [of "last (Itoa i)" i]
  by (simp add: trimmed_def)

end
