(* ===== verification/Go_Bufio.thy ===== *)
theory Go_Bufio
  imports Go_Strconv
begin

text \<open>
  What the parser sees of a connection: \<open>bufio.Reader\<close> over the bytes that arrive before the read
  deadline, followed by the error the next read would give (end of file, the deadline, or another
  network error). \<open>ReadSlice\<close> is modelled with the reader's buffer and its \<open>ErrBufferFull\<close>, so
  \<open>readBoundedLine\<close> keeps the accumulation loop it needs for lines longer than the buffer.
\<close>

section \<open>Readers\<close>

text \<open>
  The errors of the standard library and of the parser that the program distinguishes. \<open>NetTimeout\<close>
  is a \<open>net.Error\<close> with \<open>Timeout()\<close>; \<open>NetOther\<close> stands for every other failure of the connection.
\<close>

datatype go_error = EOF | ErrUnexpectedEOF | NetTimeout | NetOther | ErrLineTooLong

record Reader =
  rd_data :: bytes \<comment> \<open>bytes not yet consumed: buffered, or still to arrive in time\<close>
  rd_err :: go_error \<comment> \<open>what a read returns after them\<close>
  rd_size :: nat \<comment> \<open>the size given to \<open>NewReaderSize\<close>\<close>

text \<open>\<open>bufio.NewReaderSize\<close> never makes a buffer of fewer than 16 bytes.\<close>

definition buf_len :: "Reader \<Rightarrow> nat" where
  "buf_len r = max 16 (rd_size r)"

definition consume :: "nat \<Rightarrow> Reader \<Rightarrow> Reader" where
  "consume n r = r\<lparr>rd_data := drop n (rd_data r)\<rparr>"

datatype slice_status = SliceOk | SliceFull | SliceErr go_error

text \<open>
  \<open>ReadSlice('\n')\<close>: up to and including the first line feed if it is within the buffer; a full
  buffer with none in it; or what is left, with the reader's error.
\<close>

definition ReadSlice :: "Reader \<Rightarrow> bytes \<times> slice_status \<times> Reader" where
  "ReadSlice r =
     (let window = take (buf_len r) (rd_data r);
          n = length (takeWhile (\<lambda>c. c \<noteq> LF) window)
      in if n < length window then (take (n + 1) window, SliceOk, consume (n + 1) r)
         else if length window = buf_len r then (window, SliceFull, consume (buf_len r) r)
         else (window, SliceErr (rd_err r), consume (length window) r))"

text \<open>\<open>br.ReadString('\n')\<close> has no limit: it gathers slices until a line feed or an error.\<close>

definition ReadString :: "Reader \<Rightarrow> go_error + bytes \<times> Reader" where
  "ReadString r =
     (if LF \<in> set (rd_data r)
      then (let n = length (takeWhile (\<lambda>c. c \<noteq> LF) (rd_data r))
            in Inr (take (n + 1) (rd_data r), consume (n + 1) r))
      else Inl (rd_err r))"

text \<open>\<open>io.ReadFull\<close> of \<open>n\<close> bytes.\<close>

definition ReadFull :: "Reader \<Rightarrow> nat \<Rightarrow> go_error + bytes \<times> Reader" where
  "ReadFull r n =
     (if n \<le> length (rd_data r) then Inr (take n (rd_data r), consume n r)
      else if rd_data r \<noteq> [] \<and> rd_err r = EOF then Inl ErrUnexpectedEOF
      else Inl (rd_err r))"

lemmas bufio_defs [go_eval] =
  buf_len_def consume_def ReadSlice_def ReadString_def ReadFull_def

section \<open>How much a read takes\<close>

lemma consume_sel [simp]:
  "rd_data (consume n r) = drop n (rd_data r)" "rd_err (consume n r) = rd_err r"
  "rd_size (consume n r) = rd_size r"
  by (simp_all add: consume_def)

lemma consume_consume: "consume n (consume m r) = consume (m + n) r"
  by (simp add: consume_def add.commute)

lemma consume_0 [simp]: "consume 0 r = r"
  by (simp add: consume_def)

lemma buf_len_pos [simp]: "0 < buf_len r"
  by (simp add: buf_len_def)

lemma ReadSlice_full_shrinks:
  "ReadSlice r = (chunk, SliceFull, r') \<Longrightarrow> length (rd_data r') < length (rd_data r)"
  using buf_len_pos [of r]
  by (auto simp: ReadSlice_def Let_def min_def simp del: buf_len_pos split: if_splits)

lemma ReadFull_ok [reads]:
  "ReadFull r n = Inr (bs, r') \<longleftrightarrow>
     n \<le> length (rd_data r) \<and> bs = take n (rd_data r) \<and> r' = consume n r"
  by (auto simp: ReadFull_def)

text \<open>Appending bytes to what the connection delivers.\<close>

definition feed :: "Reader \<Rightarrow> bytes \<Rightarrow> Reader" where
  "feed r extra = r\<lparr>rd_data := rd_data r @ extra\<rparr>"

lemma feed_sel [simp]:
  "rd_data (feed r extra) = rd_data r @ extra" "rd_err (feed r extra) = rd_err r"
  "rd_size (feed r extra) = rd_size r"
  by (simp_all add: feed_def)

lemma consume_feed: "n \<le> length (rd_data r) \<Longrightarrow> consume n (feed r extra) = feed (consume n r) extra"
  by (simp add: consume_def feed_def)

lemma ReadFull_feed: "ReadFull r n = Inr (bs, r') \<Longrightarrow> ReadFull (feed r extra) n = Inr (bs, feed r' extra)"
  by (auto simp: reads consume_feed)

end
