(* ===== verification/Http_Lines.thy ===== *)
theory Http_Lines
  imports Go_Bufio
begin

text \<open>
  \<open>readBoundedLine\<close> of \<open>httpcore/request.go\<close>: the loop that every part of the parser reads lines
  with, and its equivalence with a specification that does not know about buffers.
\<close>

section \<open>The loop\<close>

function readBoundedLine_loop :: "Reader \<Rightarrow> int \<Rightarrow> bytes \<Rightarrow> go_error + bytes \<times> Reader" where
  "readBoundedLine_loop r mx buf =
     (case ReadSlice r of
        (chunk, st, r') \<Rightarrow>
          if int (length (buf @ chunk)) > mx then Inl ErrLineTooLong
          else (case st of
                  SliceOk \<Rightarrow> Inr (TrimSuffix1 (TrimSuffix1 (buf @ chunk) LF) CR, r')
                | SliceFull \<Rightarrow> readBoundedLine_loop r' mx (buf @ chunk)
                | SliceErr e \<Rightarrow> Inl e))"
  by pat_completeness auto
termination
  by (relation "measure (\<lambda>(r, mx, buf). length (rd_data r))") (auto dest: ReadSlice_full_shrinks [OF sym])

declare readBoundedLine_loop.simps [simp del]

definition readBoundedLine :: "Reader \<Rightarrow> int \<Rightarrow> go_error + bytes \<times> Reader" where
  "readBoundedLine r mx = readBoundedLine_loop r mx []"

section \<open>The specification\<close>

text \<open>
  The line is what precedes the first line feed, less one carriage return; it counts against the
  limit with its terminator, and so does an unterminated rest.
\<close>

definition line_end :: "bytes \<Rightarrow> nat" where
  "line_end d = length (takeWhile (\<lambda>c. c \<noteq> LF) d)"

definition line_spec :: "Reader \<Rightarrow> int \<Rightarrow> go_error + bytes \<times> Reader" where
  "line_spec r mx =
     (let d = rd_data r; n = line_end d
      in if LF \<in> set d then
           (if int (n + 1) > mx then Inl ErrLineTooLong
            else Inr (TrimSuffix1 (take n d) CR, consume (n + 1) r))
         else if int (length d) > mx then Inl ErrLineTooLong
         else Inl (rd_err r))"

lemmas line_defs [go_eval] = line_end_def line_spec_def

lemma line_end_less: "LF \<in> set d \<longleftrightarrow> line_end d < length d"
proof
  assume "LF \<in> set d"
  then obtain ys where "d = takeWhile (\<lambda>c. c \<noteq> LF) d @ LF # ys" using takeWhile_neq_split by metis
  from arg_cong [OF this, of length] show "line_end d < length d" by (simp add: line_end_def)
next
  assume "line_end d < length d"
  then have "takeWhile (\<lambda>c. c \<noteq> LF) d \<noteq> d" unfolding line_end_def by force
  then show "LF \<in> set d" unfolding takeWhile_eq_all_conv by blast
qed

lemma no_LF_before_line_end: "LF \<notin> set (take (line_end d) d)"
  using set_takeWhileD [of LF "\<lambda>c. c \<noteq> LF" d]
  by (auto simp: line_end_def simp flip: takeWhile_eq_take)

lemma line_end_nth: "line_end d < length d \<Longrightarrow> d ! line_end d = LF"
  using nth_length_takeWhile [of "\<lambda>c. c \<noteq> LF" d] by (simp add: line_end_def)

lemma take_line_end: "line_end d < length d \<Longrightarrow> take (Suc (line_end d)) d = take (line_end d) d @ [LF]"
  by (simp add: take_Suc_conv_app_nth line_end_nth)

lemma TrimSuffix1_snoc [simp]: "TrimSuffix1 (s @ [c]) c = s"
  by (simp add: TrimSuffix1_def)

lemma TrimSuffix1_app: "TrimSuffix1 (s @ t @ [c]) c = s @ t"
  using TrimSuffix1_snoc [of "s @ t" c] by simp

text \<open>One slice of the loop, in terms of the whole data.\<close>

lemma ReadSlice_eq:
  "ReadSlice r =
     (let d = rd_data r; b = buf_len r
      in if line_end d < length d \<and> line_end d < b
           then (take (line_end d + 1) d, SliceOk, consume (line_end d + 1) r)
         else if b \<le> length d then (take b d, SliceFull, consume b r)
         else (d, SliceErr (rd_err r), consume (length d) r))"
proof -
  let ?d = "rd_data r" and ?b = "buf_len r"
  have tw: "length (takeWhile (\<lambda>c. c \<noteq> LF) (take ?b ?d)) = min ?b (line_end ?d)"
    by (simp add: takeWhile_take_eq line_end_def min.commute)
  have le: "line_end ?d \<le> length ?d" by (simp add: line_end_def length_takeWhile_le)
  show ?thesis
    using le by (auto simp: ReadSlice_def Let_def tw min_def)
qed

lemma line_end_drop: "n \<le> line_end d \<Longrightarrow> line_end (drop n d) = line_end d - n"
proof (induction n arbitrary: d)
  case (Suc n)
  then show ?case by (cases d) (auto simp: line_end_def split: if_splits)
qed simp

text \<open>
  The loop with part of the line already gathered: what the specification gives on the whole. A slice
  that fills the buffer without ending the line does not change it, whatever the size of the buffer.
\<close>

definition gathered_spec :: "Reader \<Rightarrow> int \<Rightarrow> bytes \<Rightarrow> go_error + bytes \<times> Reader" where
  "gathered_spec r mx buf =
    (let d = rd_data r; n = line_end d
     in if n < length d then
          (if int (length buf + n + 1) > mx then Inl ErrLineTooLong
           else Inr (TrimSuffix1 (buf @ take n d) CR, consume (n + 1) r))
        else if int (length buf + length d) > mx then Inl ErrLineTooLong
        else Inl (rd_err r))"

lemma gathered_spec_slice:
  assumes "b \<le> line_end (rd_data r)"
  shows "gathered_spec (consume b r) mx (buf @ take b (rd_data r)) = gathered_spec r mx buf"
proof -
  let ?d = "rd_data r"
  have le: "line_end ?d \<le> length ?d" by (simp add: line_end_def length_takeWhile_le)
  have "take b ?d @ take (line_end ?d - b) (drop b ?d) = take (line_end ?d) ?d"
    using assms by (metis le_add_diff_inverse take_add)
  then show ?thesis
    using assms le by (auto simp: gathered_spec_def Let_def line_end_drop consume_consume min_def)
qed

lemma no_LF_in_slice: "b \<le> line_end d \<Longrightarrow> LF \<notin> set (take b d)"
  using set_take_subset_le [of b "line_end d" d] no_LF_before_line_end [of d] by blast

lemma readBoundedLine_loop_spec:
  assumes "LF \<notin> set buf"
  shows "readBoundedLine_loop r mx buf = gathered_spec r mx buf"
  using assms
proof (induction r mx buf rule: readBoundedLine_loop.induct)
  case (1 r mx buf)
  let ?d = "rd_data r" and ?b = "buf_len r"
  have le: "line_end ?d \<le> length ?d" by (simp add: line_end_def length_takeWhile_le)
  show ?case
  proof (cases "line_end ?d < ?b \<or> length ?d < ?b")
    case True
    then show ?thesis
      using le by (auto simp: gathered_spec_def readBoundedLine_loop.simps [of r] ReadSlice_eq Let_def
          take_line_end TrimSuffix1_app)
  next
    case False
    then have b: "?b \<le> line_end ?d" and slice: "ReadSlice r = (take ?b ?d, SliceFull, consume ?b r)"
      by (auto simp: ReadSlice_eq Let_def)
    show ?thesis
    proof (cases "int (length buf + ?b) > mx")
      case True
      then show ?thesis
        using False b by (auto simp: gathered_spec_def readBoundedLine_loop.simps [of r] slice Let_def)
    next
      case within: False
      have "readBoundedLine_loop r mx buf = readBoundedLine_loop (consume ?b r) mx (buf @ take ?b ?d)"
        using within False by (simp add: readBoundedLine_loop.simps [of r] slice)
      also have "\<dots> = gathered_spec (consume ?b r) mx (buf @ take ?b ?d)"
        using within False "1.prems" no_LF_in_slice [OF b]
        by (intro "1.IH" [OF slice [symmetric] refl]) auto
      finally show ?thesis using gathered_spec_slice [OF b] by simp
    qed
  qed
qed

lemma readBoundedLine_unfold [go_eval]: "readBoundedLine r mx = line_spec r mx"
  by (simp add: readBoundedLine_def readBoundedLine_loop_spec gathered_spec_def line_spec_def line_end_less Let_def)

text \<open>
  C38. Reading a line through the buffered reader is reading it off the data: for every buffer size
  and every limit, the loop of \<open>readBoundedLine\<close> returns the bytes before the first line feed
  without one trailing carriage return, fails with the too-long error exactly when the line (with
  its terminator, or the unterminated rest) exceeds the limit, and otherwise gives the
  connection's error.
\<close>

theorem readBoundedLine_eq_spec: "readBoundedLine r mx = line_spec r mx"
  by (rule readBoundedLine_unfold)

lemma readBoundedLine_ok [reads]:
  "readBoundedLine r mx = Inr (l, r') \<longleftrightarrow>
     LF \<in> set (rd_data r) \<and> int (line_end (rd_data r) + 1) \<le> mx
     \<and> l = TrimSuffix1 (take (line_end (rd_data r)) (rd_data r)) CR
     \<and> r' = consume (line_end (rd_data r) + 1) r"
  by (auto simp: readBoundedLine_unfold line_spec_def Let_def split: if_splits)

lemma readBoundedLine_shrinks:
  "readBoundedLine r mx = Inr (l, r') \<Longrightarrow> length (rd_data r') < length (rd_data r)"
  by (auto simp: reads line_end_less)

lemma readBoundedLine_length:
  assumes "readBoundedLine r mx = Inr (l, r')"
  shows "int (length l) < mx"
proof -
  have "length l \<le> line_end (rd_data r)"
    using assms by (auto simp: reads TrimSuffix1_def)
  then show ?thesis using assms by (simp add: reads)
qed

lemma readBoundedLine_noLF:
  assumes "readBoundedLine r mx = Inr (l, r')"
  shows "LF \<notin> set l"
proof -
  note no_LF_before_line_end [of "rd_data r"]
  moreover have "set l \<subseteq> set (take (line_end (rd_data r)) (rd_data r))"
    using assms by (auto simp: reads TrimSuffix1_def dest: in_set_butlastD)
  ultimately show ?thesis by blast
qed

text \<open>Bytes that arrive after the line do not change how it is read.\<close>

lemma line_end_append: "LF \<in> set d \<Longrightarrow> line_end (d @ e) = line_end d"
  by (simp add: line_end_def takeWhile_append1)

lemma readBoundedLine_feed:
  assumes "readBoundedLine r mx = Inr (l, r')"
  shows "readBoundedLine (feed r bs) mx = Inr (l, feed r' bs)"
proof -
  have "line_end (rd_data r) + 1 \<le> length (rd_data r)"
    using assms by (auto simp: reads line_end_less)
  then show ?thesis
    using assms by (auto simp: reads line_end_append consume_feed)
qed

text \<open>Reading a line that was written with a line ending.\<close>

lemma readBoundedLine_written:
  assumes "LF \<notin> set l" "int (length l + 2) \<le> mx" "rd_data r = l @ CRLF @ rest"
  shows "readBoundedLine r mx = Inr (l, r\<lparr>rd_data := rest\<rparr>)"
proof -
  have "takeWhile (\<lambda>c. c \<noteq> LF) (l @ CRLF @ rest) = l @ [CR]"
    using assms(1) by (subst takeWhile_append2) auto
  then have n: "line_end (l @ CRLF @ rest) = length l + 1"
    unfolding line_end_def by simp
  show ?thesis
    unfolding reads assms(3) n using assms(1,2) by (simp add: consume_def assms(3))
qed

end
