(* ===== verification/Http_Headers.thy ===== *)
theory Http_Headers
  imports Go_Strconv
begin

text \<open>
  \<open>httpcore/headers.go\<close>: the insertion-ordered, case-insensitive header table. The record keeps the
  two fields of the Go struct; \<open>hdr_wf\<close> is the invariant that ties them together, \<open>hdr_abs\<close> the
  ordered association list the table stands for, and \<open>keyed_table\<close> the interface (with its laws)
  that the response writer and the middlewares rely on.
\<close>

section \<open>Canonical keys\<close>

text \<open>\<open>textproto.CanonicalMIMEHeaderKey\<close>: a key with a byte that is no token byte is kept as it is.\<close>

definition validHeaderFieldByte :: "char \<Rightarrow> bool" where
  "validHeaderFieldByte c \<longleftrightarrow>
     is_digit c \<or> is_lower c \<or> is_upper c \<or> c \<in> set ''!#$%&*+-.^_|~'' \<or> c = CHR 0x27 \<or> c = CHR 0x60"

fun canon_case :: "bool \<Rightarrow> bytes \<Rightarrow> bytes" where
  "canon_case upper [] = []"
| "canon_case upper (c # cs) =
     (let c' = (if upper then ascii_upper c else ascii_lower c)
      in c' # canon_case (c' = CHR ''-'') cs)"

definition canonical :: "bytes \<Rightarrow> bytes" where
  "canonical key = (if list_all validHeaderFieldByte key then canon_case True key else key)"

lemmas canonical_defs [go_eval] = validHeaderFieldByte_def canonical_def

section \<open>The table and its operations\<close>

record Headers =
  keys :: "bytes list" \<comment> \<open>canonical form, insertion order\<close>
  vals :: "bytes \<rightharpoonup> bytes list" \<comment> \<open>canonical key to values\<close>

definition NewHeaders :: Headers where
  "NewHeaders = \<lparr>keys = [], vals = Map.empty\<rparr>"

text \<open>Reading a missing key of a Go map gives the nil slice.\<close>

definition map_slice :: "('k \<rightharpoonup> 'v list) \<Rightarrow> 'k \<Rightarrow> 'v list" where
  "map_slice m k = (case m k of None \<Rightarrow> [] | Some vs \<Rightarrow> vs)"

definition Headers_Set :: "Headers \<Rightarrow> bytes \<Rightarrow> bytes \<Rightarrow> Headers" where
  "Headers_Set h key value =
     (let ck = canonical key;
          h1 = (if vals h ck = None then h\<lparr>keys := keys h @ [ck]\<rparr> else h)
      in h1\<lparr>vals := (vals h1)(ck \<mapsto> [value])\<rparr>)"

definition Headers_Add :: "Headers \<Rightarrow> bytes \<Rightarrow> bytes \<Rightarrow> Headers" where
  "Headers_Add h key value =
     (let ck = canonical key;
          h1 = (if vals h ck = None then h\<lparr>keys := keys h @ [ck]\<rparr> else h)
      in h1\<lparr>vals := (vals h1)(ck \<mapsto> map_slice (vals h1) ck @ [value])\<rparr>)"

definition Headers_Get :: "Headers \<Rightarrow> bytes \<Rightarrow> bytes" where
  "Headers_Get h key = (case map_slice (vals h) (canonical key) of [] \<Rightarrow> [] | v # _ \<Rightarrow> v)"

definition Headers_Values :: "Headers \<Rightarrow> bytes \<Rightarrow> bytes list" where
  "Headers_Values h key = map_slice (vals h) (canonical key)"

definition Headers_Has :: "Headers \<Rightarrow> bytes \<Rightarrow> bool" where
  "Headers_Has h key \<longleftrightarrow> vals h (canonical key) \<noteq> None"

definition Headers_Del :: "Headers \<Rightarrow> bytes \<Rightarrow> Headers" where
  "Headers_Del h key =
     (let ck = canonical key
      in if vals h ck = None then h
         else h\<lparr>vals := (vals h)(ck := None), keys := remove1 ck (keys h)\<rparr>)"

text \<open>\<open>Range\<close>: the calls of its callback, in order.\<close>

definition Headers_Range :: "Headers \<Rightarrow> (bytes \<times> bytes) list" where
  "Headers_Range h = concat (map (\<lambda>k. map (Pair k) (map_slice (vals h) k)) (keys h))"

definition Headers_Len :: "Headers \<Rightarrow> int" where
  "Headers_Len h = int (length (keys h))"

definition header_line :: "bytes \<Rightarrow> bytes \<Rightarrow> bytes" where
  "header_line k v = k @ '': '' @ v @ CRLF"

definition Headers_WriteTo :: "Headers \<Rightarrow> bytes" where
  "Headers_WriteTo h = concat (map (\<lambda>(k, v). header_line k v) (Headers_Range h))"

definition Headers_ContainsToken :: "Headers \<Rightarrow> bytes \<Rightarrow> bytes \<Rightarrow> bool" where
  "Headers_ContainsToken h key token \<longleftrightarrow>
     list_ex (\<lambda>v. list_ex (\<lambda>part. EqualFold (TrimSpace part) token) (Split (CHR '','') v))
       (map_slice (vals h) (canonical key))"

lemmas headers_defs [go_eval] =
  NewHeaders_def map_slice_def Headers_Set_def Headers_Add_def Headers_Get_def Headers_Values_def
  Headers_Has_def Headers_Del_def Headers_Range_def Headers_Len_def header_line_def
  Headers_WriteTo_def Headers_ContainsToken_def

section \<open>Canonical keys are case-insensitive and stable\<close>

lemma not_dash_case [simp]:
  "ascii_upper c = CHR ''-'' \<longleftrightarrow> c = CHR ''-''" "ascii_lower c = CHR ''-'' \<longleftrightarrow> c = CHR ''-''"
proof -
  have dash: "\<not> is_upper (CHR ''-'')" "\<not> is_lower (CHR ''-'')"
    by (simp_all add: is_upper_def is_lower_def)
  show "ascii_upper c = CHR ''-'' \<longleftrightarrow> c = CHR ''-''"
    by (metis ascii_upper_def case_of_set_case_bit(1) dash)
  show "ascii_lower c = CHR ''-'' \<longleftrightarrow> c = CHR ''-''"
    by (metis ascii_lower_def case_of_set_case_bit(2) dash)
qed

lemma canon_case_idem: "canon_case u (canon_case u s) = canon_case u s"
  by (induction s arbitrary: u) (auto simp: Let_def)

lemma canon_case_lower: "map ascii_lower (canon_case u s) = map ascii_lower s"
  by (induction s arbitrary: u) (auto simp: Let_def)

lemma canon_case_map_lower: "canon_case u (map ascii_lower s) = canon_case u s"
  by (induction s arbitrary: u) (auto simp: Let_def)

lemma canon_case_eq_iff: "canon_case u s = canon_case u t \<longleftrightarrow> map ascii_lower s = map ascii_lower t"
  by (metis canon_case_lower canon_case_map_lower)

lemma valid_case [simp]:
  "validHeaderFieldByte (ascii_upper c) = validHeaderFieldByte c"
  "validHeaderFieldByte (ascii_lower c) = validHeaderFieldByte c"
  by (auto simp: validHeaderFieldByte_def ascii_upper_def ascii_lower_def)

lemma valid_canon_case [simp]:
  "list_all validHeaderFieldByte (canon_case u s) = list_all validHeaderFieldByte s"
  by (induction u s rule: canon_case.induct) (auto simp: Let_def)

lemma canonical_idem [simp]: "canonical (canonical k) = canonical k"
  by (simp add: canonical_def canon_case_idem)

lemma canonical_eq_iff:
  assumes "list_all validHeaderFieldByte k" "list_all validHeaderFieldByte k'"
  shows "canonical k = canonical k' \<longleftrightarrow> map ascii_lower k = map ascii_lower k'"
  using assms by (simp add: canonical_def canon_case_eq_iff)

lemma canon_case_chars:
  "c \<in> set (canon_case u s) \<Longrightarrow> \<exists>d \<in> set s. c = ascii_upper d \<or> c = ascii_lower d"
  by (induction u s rule: canon_case.induct) (auto simp: Let_def split: if_splits)

lemma canonical_not_valid:
  "c \<in> set (canonical k) \<Longrightarrow> \<not> validHeaderFieldByte c \<Longrightarrow> c \<in> set k"
  using canon_case_chars by (fastforce simp: canonical_def list_all_iff split: if_splits)

lemma canonical_nonempty [simp]: "canonical k = [] \<longleftrightarrow> k = []"
  by (cases k) (auto simp: canonical_def Let_def)

section \<open>The interface\<close>

text \<open>
  A table of value lists under normalised keys. \<open>lookup\<close> is the table's meaning; the laws say what
  each operation does to it.
\<close>

locale keyed_table =
  fixes norm :: "'k \<Rightarrow> 'k"
    and inv :: "'t \<Rightarrow> bool"
    and lookup :: "'t \<Rightarrow> 'k \<Rightarrow> 'v list option"
    and new :: 't
    and set :: "'t \<Rightarrow> 'k \<Rightarrow> 'v \<Rightarrow> 't"
    and add :: "'t \<Rightarrow> 'k \<Rightarrow> 'v \<Rightarrow> 't"
    and del :: "'t \<Rightarrow> 'k \<Rightarrow> 't"
  assumes norm_idem: "norm (norm k) = norm k"
    and inv_new: "inv new"
    and inv_set: "inv t \<Longrightarrow> inv (set t k v)"
    and inv_add: "inv t \<Longrightarrow> inv (add t k v)"
    and inv_del: "inv t \<Longrightarrow> inv (del t k)"
    and lookup_new: "lookup new = Map.empty"
    and lookup_set: "lookup (set t k v) = (lookup t)(norm k \<mapsto> [v])"
    and lookup_add: "lookup (add t k v) = (lookup t)(norm k \<mapsto> map_slice (lookup t) (norm k) @ [v])"
    and lookup_del: "lookup (del t k) = (lookup t)(norm k := None)"
begin

definition get :: "'t \<Rightarrow> 'k \<Rightarrow> 'v option" where
  "get t k = (case map_slice (lookup t) (norm k) of [] \<Rightarrow> None | v # _ \<Rightarrow> Some v)"

lemma get_set_same: "norm k = norm k' \<Longrightarrow> get (set t k v) k' = Some v"
  by (simp add: get_def lookup_set map_slice_def)

lemma get_set_other: "norm k \<noteq> norm k' \<Longrightarrow> get (set t k v) k' = get t k'"
  by (simp add: get_def lookup_set map_slice_def)

lemma get_add_first: "get t k = Some w \<Longrightarrow> get (add t k v) k = Some w"
  by (auto simp: get_def lookup_add map_slice_def split: list.splits option.splits)

lemma get_del: "get (del t k) k' = (if norm k = norm k' then None else get t k')"
  by (auto simp: get_def lookup_del map_slice_def)

lemma set_overrides: "lookup (set (add t k v) k w) = lookup (set t k w)"
  by (simp add: lookup_set lookup_add)

lemma sets_commute:
  "norm k \<noteq> norm k' \<Longrightarrow> lookup (set (set t k v) k' v') = lookup (set (set t k' v') k v)"
  by (simp add: lookup_set fun_upd_twist)

end

section \<open>The table keeps its invariant and implements the interface\<close>

definition hdr_wf :: "Headers \<Rightarrow> bool" where
  "hdr_wf h \<longleftrightarrow> distinct (keys h) \<and> List.set (keys h) = dom (vals h)
     \<and> (\<forall>k \<in> List.set (keys h). canonical k = k) \<and> (\<forall>k. vals h k \<noteq> Some [])"

lemma vals_Set: "vals (Headers_Set h k v) = (vals h)(canonical k \<mapsto> [v])"
  by (simp add: Headers_Set_def Let_def)

lemma vals_Add:
  "vals (Headers_Add h k v) = (vals h)(canonical k \<mapsto> map_slice (vals h) (canonical k) @ [v])"
  by (simp add: Headers_Add_def Let_def)

lemma vals_Del: "vals (Headers_Del h k) = (vals h)(canonical k := None)"
  by (auto simp: Headers_Del_def Let_def)

lemma keys_Set:
  "keys (Headers_Set h k v) = keys h @ (if vals h (canonical k) = None then [canonical k] else [])"
  by (simp add: Headers_Set_def Let_def)

lemma keys_Add:
  "keys (Headers_Add h k v) = keys h @ (if vals h (canonical k) = None then [canonical k] else [])"
  by (simp add: Headers_Add_def Let_def)

lemma keys_Del:
  assumes "hdr_wf h"
  shows "keys (Headers_Del h k) = filter (\<lambda>x. x \<noteq> canonical k) (keys h)"
proof (cases "vals h (canonical k)")
  case None
  then have "filter (\<lambda>x. x \<noteq> canonical k) (keys h) = keys h"
    using assms by (auto simp: hdr_wf_def filter_id_conv)
  with None show ?thesis by (simp add: Headers_Del_def)
next
  case (Some vs)
  then show ?thesis using assms by (simp add: Headers_Del_def Let_def hdr_wf_def remove1_eq_filter)
qed

lemma vals_New [simp]: "vals NewHeaders = Map.empty" "keys NewHeaders = []"
  by (simp_all add: NewHeaders_def)

lemmas hdr_ops = vals_Set vals_Add vals_Del keys_Set keys_Add keys_Del

lemma hdr_wf_new [hdr_inv]: "hdr_wf NewHeaders"
  by (simp add: hdr_wf_def)

lemma hdr_wf_Set [hdr_inv]: "hdr_wf h \<Longrightarrow> hdr_wf (Headers_Set h k v)"
  by (auto simp: hdr_wf_def hdr_ops)

lemma hdr_wf_Add [hdr_inv]: "hdr_wf h \<Longrightarrow> hdr_wf (Headers_Add h k v)"
  by (auto simp: hdr_wf_def hdr_ops)

lemma hdr_wf_Del [hdr_inv]: "hdr_wf h \<Longrightarrow> hdr_wf (Headers_Del h k)"
  unfolding hdr_wf_def [of "Headers_Del h k"] by (auto simp: hdr_ops hdr_wf_def)

interpretation hdr: keyed_table canonical hdr_wf vals NewHeaders Headers_Set Headers_Add Headers_Del
  by unfold_locales (simp_all add: hdr_inv hdr_ops)

lemma Headers_Get_eq: "Headers_Get h k = (case hdr.get h k of None \<Rightarrow> [] | Some v \<Rightarrow> v)"
  by (simp add: Headers_Get_def hdr.get_def split: list.splits)

lemma Headers_Get_Set:
  "Headers_Get (Headers_Set h k v) k' = (if canonical k = canonical k' then v else Headers_Get h k')"
  by (simp add: Headers_Get_eq hdr.get_set_same hdr.get_set_other)

lemma Headers_Has_Set:
  "Headers_Has (Headers_Set h k v) k' \<longleftrightarrow> canonical k = canonical k' \<or> Headers_Has h k'"
  by (auto simp: Headers_Has_def hdr_ops)

lemma Headers_Has_Del:
  "Headers_Has (Headers_Del h k) k' \<longleftrightarrow> canonical k \<noteq> canonical k' \<and> Headers_Has h k'"
  by (auto simp: Headers_Has_def hdr_ops)

lemma Headers_Len_Add: "Headers_Len (Headers_Add h k v) \<le> Headers_Len h + 1"
  by (simp add: Headers_Len_def keys_Add)

lemma Headers_Range_keys: "hdr_wf h \<Longrightarrow> (k, v) \<in> List.set (Headers_Range h) \<Longrightarrow> k \<in> List.set (keys h)"
  by (auto simp: Headers_Range_def)

section \<open>The ordered association list behind the table\<close>

definition hdr_abs :: "Headers \<Rightarrow> (bytes \<times> bytes list) list" where
  "hdr_abs h = map (\<lambda>k. (k, map_slice (vals h) k)) (keys h)"

text \<open>The abstract operations: update in place or append, and delete.\<close>

fun al_upd :: "'k \<Rightarrow> ('v list \<Rightarrow> 'v list) \<Rightarrow> ('k \<times> 'v list) list \<Rightarrow> ('k \<times> 'v list) list" where
  "al_upd k f [] = [(k, f [])]"
| "al_upd k f ((k', vs) # al) = (if k = k' then (k, f vs) # al else (k', vs) # al_upd k f al)"

definition al_del :: "'k \<Rightarrow> ('k \<times> 'v list) list \<Rightarrow> ('k \<times> 'v list) list" where
  "al_del k = filter (\<lambda>(k', _). k' \<noteq> k)"

lemma al_upd_map_absent:
  "k \<notin> List.set ks \<Longrightarrow> al_upd k f (map (\<lambda>k. (k, g k)) ks) = map (\<lambda>k. (k, g k)) ks @ [(k, f [])]"
  by (induction ks) auto

lemma al_upd_map_present:
  "distinct ks \<Longrightarrow> k \<in> List.set ks \<Longrightarrow>
     al_upd k f (map (\<lambda>k. (k, g k)) ks) = map (\<lambda>k'. (k', if k' = k then f (g k) else g k')) ks"
  by (induction ks) auto

lemma al_upd_refine:
  assumes "hdr_wf h" and k: "canonical k = k" and v: "vals h' = (vals h)(k \<mapsto> f (map_slice (vals h) k))"
    and ks: "keys h' = keys h @ (if vals h k = None then [k] else [])"
  shows "hdr_abs h' = al_upd k f (hdr_abs h)"
proof (cases "vals h k")
  case None
  then have "k \<notin> List.set (keys h)" using assms by (auto simp: hdr_wf_def)
  then show ?thesis
    using None v ks by (auto simp: hdr_abs_def al_upd_map_absent map_slice_def)
next
  case (Some vs)
  then have "k \<in> List.set (keys h)" "distinct (keys h)" using assms by (auto simp: hdr_wf_def)
  then show ?thesis
    using Some v ks by (auto simp: hdr_abs_def al_upd_map_present map_slice_def)
qed

text \<open>
  C10. The header table refines an insertion-ordered association list from canonical names to value
  lists: \<open>Set\<close> replaces the values in place or appends the key, \<open>Add\<close> extends them in place or
  appends the key, \<open>Del\<close> drops the key; \<open>Range\<close> enumerates the list, \<open>Get\<close> reads its first value,
  and every operation keeps the invariant.
\<close>

theorem Headers_refine_alist:
  assumes "hdr_wf h"
  shows "hdr_abs (Headers_Set h k v) = al_upd (canonical k) (\<lambda>_. [v]) (hdr_abs h)
    \<and> hdr_abs (Headers_Add h k v) = al_upd (canonical k) (\<lambda>vs. vs @ [v]) (hdr_abs h)
    \<and> hdr_abs (Headers_Del h k) = al_del (canonical k) (hdr_abs h)
    \<and> Headers_Range h = concat (map (\<lambda>(k, vs). map (Pair k) vs) (hdr_abs h))
    \<and> Headers_Get h k =
        (case map_of (hdr_abs h) (canonical k) of Some (v # _) \<Rightarrow> v | _ \<Rightarrow> [])
    \<and> hdr_wf (Headers_Set h k v) \<and> hdr_wf (Headers_Add h k v) \<and> hdr_wf (Headers_Del h k)"
proof (intro conjI)
  show "hdr_abs (Headers_Set h k v) = al_upd (canonical k) (\<lambda>_. [v]) (hdr_abs h)"
    using assms by (intro al_upd_refine) (simp_all add: hdr_ops)
  show "hdr_abs (Headers_Add h k v) = al_upd (canonical k) (\<lambda>vs. vs @ [v]) (hdr_abs h)"
    using assms by (intro al_upd_refine) (simp_all add: hdr_ops)
  show "hdr_abs (Headers_Del h k) = al_del (canonical k) (hdr_abs h)"
    using assms by (auto simp: hdr_abs_def al_del_def hdr_ops filter_map o_def map_slice_def)
  show "Headers_Range h = concat (map (\<lambda>(k, vs). map (Pair k) vs) (hdr_abs h))"
    by (simp add: Headers_Range_def hdr_abs_def o_def)
  have "map_of (hdr_abs h) ck = vals h ck" for ck
    using assms by (auto simp: hdr_abs_def map_of_map_restrict restrict_map_def map_slice_def
        hdr_wf_def split: option.splits)
  then show "Headers_Get h k =
      (case map_of (hdr_abs h) (canonical k) of Some (v # _) \<Rightarrow> v | _ \<Rightarrow> [])"
    by (simp add: Headers_Get_def map_slice_def split: option.splits)
qed (use assms in \<open>simp_all add: hdr_inv\<close>)

theorem Headers_refine_alist_witness:
  "hdr_abs (Headers_Add (Headers_Add NewHeaders ''accept'' ''a'') ''ACCEPT'' ''b'')
     = [(''Accept'', [''a'', ''b''])]"
proof -
  have wf: "hdr_wf (Headers_Add NewHeaders ''accept'' ''a'')" by (simp add: hdr_inv)
  have c: "canonical ''ACCEPT'' = ''Accept''" by code_simp
  have a: "hdr_abs (Headers_Add NewHeaders ''accept'' ''a'') = [(''Accept'', [''a''])]"
    by code_simp
  show ?thesis using Headers_refine_alist [OF wf, of "''ACCEPT''" "''b''"] by (simp add: c a)
qed

text \<open>
  Header names are case-insensitive: two token names reach the same entry exactly when they
  are equal up to ASCII case, and a value stored under one spelling is read back under any other.
\<close>

theorem Headers_case_insensitive:
  assumes "list_all validHeaderFieldByte k" "list_all validHeaderFieldByte k'"
  shows "(Headers_Has (Headers_Set NewHeaders k v) k' \<longleftrightarrow> map ascii_lower k = map ascii_lower k')
    \<and> (map ascii_lower k = map ascii_lower k' \<longrightarrow> Headers_Get (Headers_Set h k v) k' = v)
    \<and> (map ascii_lower k \<noteq> map ascii_lower k' \<longrightarrow>
         Headers_Get (Headers_Set h k v) k' = Headers_Get h k')"
  using canonical_eq_iff [OF assms]
  by (simp add: Headers_Has_Set Headers_Get_Set) (simp add: Headers_Has_def)

theorem Headers_case_insensitive_witness:
  "Headers_Get (Headers_Set NewHeaders ''content-LENGTH'' ''5'') ''Content-Length'' = ''5''"
proof -
  have v: "list_all validHeaderFieldByte ''content-LENGTH''"
      "list_all validHeaderFieldByte ''Content-Length''"
    and e: "map ascii_lower ''content-LENGTH'' = map ascii_lower ''Content-Length''"
    by code_simp+
  show ?thesis using Headers_case_insensitive [OF v] e by blast
qed

end
