(* ===== verification/Http_Status.thy ===== *)
theory Http_Status
  imports Go_Strconv
begin

text \<open>
  \<open>httpcore/status.go\<close>: the status codes the program can emit and their reason phrases.
\<close>

section \<open>Status codes\<close>

abbreviation StatusOK :: int where "StatusOK \<equiv> 200"
abbreviation StatusCreated :: int where "StatusCreated \<equiv> 201"
abbreviation StatusNoContent :: int where "StatusNoContent \<equiv> 204"
abbreviation StatusMovedPermanently :: int where "StatusMovedPermanently \<equiv> 301"
abbreviation StatusNotModified :: int where "StatusNotModified \<equiv> 304"
abbreviation StatusBadRequest :: int where "StatusBadRequest \<equiv> 400"
abbreviation StatusUnauthorized :: int where "StatusUnauthorized \<equiv> 401"
abbreviation StatusForbidden :: int where "StatusForbidden \<equiv> 403"
abbreviation StatusNotFound :: int where "StatusNotFound \<equiv> 404"
abbreviation StatusMethodNotAllowed :: int where "StatusMethodNotAllowed \<equiv> 405"
abbreviation StatusRequestTimeout :: int where "StatusRequestTimeout \<equiv> 408"
abbreviation StatusLengthRequired :: int where "StatusLengthRequired \<equiv> 411"
abbreviation StatusPayloadTooLarge :: int where "StatusPayloadTooLarge \<equiv> 413"
abbreviation StatusURITooLong :: int where "StatusURITooLong \<equiv> 414"
abbreviation StatusTooManyRequests :: int where "StatusTooManyRequests \<equiv> 429"
abbreviation StatusHeaderFieldsTooLarge :: int where "StatusHeaderFieldsTooLarge \<equiv> 431"
abbreviation StatusInternalServerError :: int where "StatusInternalServerError \<equiv> 500"
abbreviation StatusNotImplemented :: int where "StatusNotImplemented \<equiv> 501"
abbreviation StatusBadGateway :: int where "StatusBadGateway \<equiv> 502"
abbreviation StatusServiceUnavailable :: int where "StatusServiceUnavailable \<equiv> 503"
abbreviation StatusGatewayTimeout :: int where "StatusGatewayTimeout \<equiv> 504"
abbreviation StatusHTTPVersionNotSupported :: int where "StatusHTTPVersionNotSupported \<equiv> 505"

section \<open>Reason phrases\<close>

definition reasonPhrases :: "(int \<times> bytes) list" where
  "reasonPhrases =
    [(100, ''Continue''),
     (200, ''OK''),
     (201, ''Created''),
     (202, ''Accepted''),
     (204, ''No Content''),
     (301, ''Moved Permanently''),
     (302, ''Found''),
     (304, ''Not Modified''),
     (400, ''Bad Request''),
     (401, ''Unauthorized''),
     (403, ''Forbidden''),
     (404, ''Not Found''),
     (405, ''Method Not Allowed''),
     (408, ''Request Timeout''),
     (409, ''Conflict''),
     (411, ''Length Required''),
     (413, ''Payload Too Large''),
     (414, ''URI Too Long''),
     (415, ''Unsupported Media Type''),
     (429, ''Too Many Requests''),
     (431, ''Request Header Fields Too Large''),
     (500, ''Internal Server Error''),
     (501, ''Not Implemented''),
     (502, ''Bad Gateway''),
     (503, ''Service Unavailable''),
     (504, ''Gateway Timeout''),
     (505, ''HTTP Version Not Supported'')]"

definition ReasonPhrase :: "int \<Rightarrow> bytes" where
  "ReasonPhrase code = (case map_of reasonPhrases code of Some p \<Rightarrow> p | None \<Rightarrow> ''Status'')"

lemmas status_defs [go_eval] = reasonPhrases_def ReasonPhrase_def

lemma reasonPhrases_clean:
  "list_all (\<lambda>(_, p). p \<noteq> [] \<and> LF \<notin> set p \<and> CR \<notin> set p) reasonPhrases"
  by code_simp

lemma ReasonPhrase_clean: "ReasonPhrase c \<noteq> [] \<and> LF \<notin> set (ReasonPhrase c) \<and> CR \<notin> set (ReasonPhrase c)"
proof (cases "map_of reasonPhrases c")
  case (Some p)
  from bspec [OF reasonPhrases_clean [unfolded list_all_iff] map_of_SomeD [OF Some]] show ?thesis
    by (simp add: ReasonPhrase_def Some)
qed (simp add: ReasonPhrase_def)

end
