(* ===== verification/Go_Url.thy ===== *)
theory Go_Url
  imports Go_Strconv
begin

text \<open>
  Go's \<open>net/url\<close>: percent-decoding of a path and of a query, as \<open>ParseRequest\<close> uses them.
  \<open>None\<close> is the library's error. Recent Go releases also refuse a query with more than 10000
  parameters; the default limit on the request line (8192 bytes) cannot hold so many, and that cap
  is not modelled.
\<close>

definition ishex :: "char \<Rightarrow> bool" where
  "ishex c \<longleftrightarrow> (case digit_val c of None \<Rightarrow> False | Some d \<Rightarrow> d < 16)"

definition unhex :: "char \<Rightarrow> nat" where
  "unhex c = (case digit_val c of None \<Rightarrow> 0 | Some d \<Rightarrow> nat d)"

text \<open>\<open>q\<close> is set for query components, where \<open>+\<close> stands for a space.\<close>

fun unescape :: "bool \<Rightarrow> bytes \<Rightarrow> bytes option" where
  "unescape q [] = Some []"
| "unescape q (c # cs) =
     (if c = CHR ''%'' then
        (case cs of
           h # l # rest \<Rightarrow>
             if ishex h \<and> ishex l
             then map_option ((#) (char_of (unhex h * 16 + unhex l))) (unescape q rest)
             else None
         | _ \<Rightarrow> None)
      else map_option ((#) (if q \<and> c = CHR ''+'' then CHR '' '' else c)) (unescape q cs))"

definition PathUnescape :: "bytes \<Rightarrow> bytes option" where
  "PathUnescape s = unescape False s"

definition QueryUnescape :: "bytes \<Rightarrow> bytes option" where
  "QueryUnescape s = unescape True s"

type_synonym Values = "bytes \<rightharpoonup> bytes list"

text \<open>
  \<open>parseQuery\<close> goes on after a bad pair and reports the first error at the end: the flag is set
  when there was one.
\<close>

fun parseQuery :: "bytes list \<Rightarrow> Values \<Rightarrow> bool \<Rightarrow> Values \<times> bool" where
  "parseQuery [] m err = (m, err)"
| "parseQuery (p # ps) m err =
     (if CHR '';'' \<in> set p then parseQuery ps m True
      else if p = [] then parseQuery ps m err
      else (case Cut (CHR ''='') p of
              (k, v, _) \<Rightarrow>
                (case QueryUnescape k of
                   None \<Rightarrow> parseQuery ps m True
                 | Some k' \<Rightarrow>
                     (case QueryUnescape v of
                        None \<Rightarrow> parseQuery ps m True
                      | Some v' \<Rightarrow>
                          parseQuery ps
                            (m(k' \<mapsto> (case m k' of None \<Rightarrow> [] | Some vs \<Rightarrow> vs) @ [v'])) err))))"

definition ParseQuery :: "bytes \<Rightarrow> Values option" where
  "ParseQuery s =
     (case parseQuery (Split (CHR ''&'') s) Map.empty False of
        (m, err) \<Rightarrow> if err then None else Some m)"

definition Values_Get :: "Values \<Rightarrow> bytes \<Rightarrow> bytes" where
  "Values_Get q k = (case q k of Some (v # _) \<Rightarrow> v | _ \<Rightarrow> [])"

lemmas url_defs [go_eval] =
  ishex_def unhex_def PathUnescape_def QueryUnescape_def ParseQuery_def Values_Get_def

lemma PathUnescape_plain: "CHR ''%'' \<notin> set s \<Longrightarrow> PathUnescape s = Some s"
  unfolding PathUnescape_def by (induction s) auto

lemma ParseQuery_empty [simp]: "ParseQuery [] = Some Map.empty"
  by (simp add: ParseQuery_def)

lemma PathUnescape_slash:
  "PathUnescape (CHR ''/'' # s) = Some p \<Longrightarrow> \<exists>p'. p = CHR ''/'' # p'"
  by (auto simp: PathUnescape_def)

end
