(* ===== verification/Http_Request.thy ===== *)
theory Http_Request
  imports Http_Lines Http_Headers Http_Status Go_Url
begin

text \<open>
  \<open>httpcore/request.go\<close>: the bounded request parser. \<open>ParseRequest\<close> is split at the section comments
  of the Go function into the request line, the header loop, the body and the target; every
  \<open>return nil, ...\<close> of the source is a branch here. The free-text \<open>Reason\<close> of a \<open>ParseError\<close> (log text
  that \<open>writeError\<close> drops) is replaced by the name of the check that failed; the status and the
  cause, which the connection loop does look at, are kept.
\<close>

section \<open>Data\<close>

record Limits =
  MaxRequestLine :: int
  MaxHeaderLine :: int
  MaxHeaderBytes :: int
  MaxHeaderCount :: int
  MaxBodyBytes :: int

definition DefaultLimits :: Limits where
  "DefaultLimits =
     \<lparr>MaxRequestLine = 8192, MaxHeaderLine = 8192, MaxHeaderBytes = 65536,
      MaxHeaderCount = 100, MaxBodyBytes = 1048576\<rparr>"

datatype parse_reason =
    RequestLineTooLong | ReadingRequestLine | MalformedRequestLine
  | MalformedMethod | MethodNotImplemented | UnsupportedProtocol | TargetNotOriginForm
  | HeaderLineTooLong | ReadingHeaders | HeadersTooLarge | MalformedHeaderLine | TooManyHeaders
  | MissingHost | ReadingChunkedBody | TransferEncodingUnsupported
  | InvalidContentLength | DeclaredBodyTooLarge | ShortBodyRead
  | InvalidChunkSize | ChunkedBodyTooLarge | ChunkNotTerminated
  | UndecodablePath | UndecodableQuery

record ParseError =
  Status :: int
  Reason :: parse_reason
  cause :: "go_error option"

definition perr :: "int \<Rightarrow> parse_reason \<Rightarrow> ParseError" where
  "perr status reason = \<lparr>Status = status, Reason = reason, cause = None\<rparr>"

definition perrc :: "int \<Rightarrow> go_error \<Rightarrow> parse_reason \<Rightarrow> ParseError" where
  "perrc status c reason = \<lparr>Status = status, Reason = reason, cause = Some c\<rparr>"

text \<open>
  How \<open>ParseRequest\<close> can fail: \<open>errCleanClose\<close>, a \<open>ParseError\<close>, or a run-time panic, which leaves the
  function (nothing in the connection loop recovers it).
\<close>

datatype parse_failure = CleanClose | Failed ParseError | ParsePanic

text \<open>The values the program stores in \<open>Request.Meta\<close>: the request id and the caller's role.\<close>

datatype meta_value = MetaString bytes | MetaRole int

record Request =
  Method :: bytes
  RawTarget :: bytes
  Path :: bytes
  Proto :: bytes
  Query :: Values
  ReqHeaders :: Headers
  ReqBody :: bytes
  RemoteAddr :: bytes
  PathParams :: "bytes \<rightharpoonup> bytes"
  Meta :: "bytes \<rightharpoonup> meta_value"

definition wantClose :: "Request \<Rightarrow> bool" where
  "wantClose r \<longleftrightarrow>
     (if Headers_ContainsToken (ReqHeaders r) ''Connection'' ''close'' then True
      else if Proto r = ''HTTP/1.0''
              \<and> \<not> Headers_ContainsToken (ReqHeaders r) ''Connection'' ''keep-alive'' then True
      else False)"

definition knownMethods :: "bytes list" where
  "knownMethods = [''GET'', ''HEAD'', ''POST'', ''PUT'', ''DELETE'', ''PATCH'', ''OPTIONS'']"

section \<open>Chunked bodies\<close>

text \<open>
  \<open>make([]byte, n)\<close> panics when \<open>n\<close> is negative or beyond the largest allocation of a 64-bit
  target (2 to the 48 bytes). That a smaller request may still exhaust the machine's memory is not
  modelled.
\<close>

definition maxAlloc :: int where "maxAlloc = 2 ^ 48"

definition make_panics :: "int \<Rightarrow> bool" where
  "make_panics n \<longleftrightarrow> n < 0 \<or> n > maxAlloc"

text \<open>An error of \<open>readChunkedBody\<close>: its own \<open>ParseError\<close>, a wrapped read error, or the panic.\<close>

datatype chunk_failure = ChunkPerr ParseError | ChunkWrapped go_error | ChunkPanic

function read_trailers :: "Reader \<Rightarrow> Limits \<Rightarrow> go_error + Reader" where
  "read_trailers br lm =
     (case readBoundedLine br (MaxHeaderLine lm) of
        Inl e \<Rightarrow> Inl e
      | Inr (t, br') \<Rightarrow> if t = [] then Inr br' else read_trailers br' lm)"
  by pat_completeness auto
termination
  by (relation "measure (\<lambda>(br, lm). length (rd_data br))") (auto dest: readBoundedLine_shrinks)

declare read_trailers.simps [simp del]

text \<open>One chunk: its size line, the limit check on the wrapped 64-bit sum, its data and its CRLF.\<close>

datatype chunk_step = LastChunk Reader | Chunk bytes Reader

definition chunk_size :: "bytes \<Rightarrow> int \<times> num_error option" where
  "chunk_size sizeLine = ParseInt 16 (TrimSpace (fst (Cut (CHR '';'') sizeLine)))"

definition read_chunk :: "Reader \<Rightarrow> Limits \<Rightarrow> bytes \<Rightarrow> chunk_failure + chunk_step" where
  "read_chunk br lm body =
     (case readBoundedLine br (MaxHeaderLine lm) of
        Inl e \<Rightarrow> Inl (ChunkWrapped e)
      | Inr (sizeLine, br1) \<Rightarrow>
          (case chunk_size sizeLine of
             (sz, err) \<Rightarrow>
               if err \<noteq> None \<or> sz < 0 then Inl (ChunkPerr (perr StatusBadRequest InvalidChunkSize))
               else if sz = 0 then Inr (LastChunk br1)
               else if wrap64 (int (length body) + sz) > MaxBodyBytes lm
                 then Inl (ChunkPerr (perr StatusPayloadTooLarge ChunkedBodyTooLarge))
               else if make_panics sz then Inl ChunkPanic
               else (case ReadFull br1 (nat sz) of
                       Inl e \<Rightarrow> Inl (ChunkWrapped e)
                     | Inr (chunk, br2) \<Rightarrow>
                         (case ReadFull br2 2 of
                            Inl _ \<Rightarrow> Inl (ChunkPerr (perr StatusBadRequest ChunkNotTerminated))
                          | Inr (crlf, br3) \<Rightarrow>
                              if crlf \<noteq> CRLF
                              then Inl (ChunkPerr (perr StatusBadRequest ChunkNotTerminated))
                              else Inr (Chunk chunk br3)))))"

lemma read_chunk_shrinks:
  "read_chunk br lm body = Inr (Chunk c br') \<Longrightarrow> length (rd_data br') < length (rd_data br)"
  by (auto simp: read_chunk_def reads line_end_less split: sum.splits prod.splits if_splits)

function readChunkedBody_loop ::
    "Reader \<Rightarrow> Limits \<Rightarrow> bytes \<Rightarrow> chunk_failure + bytes \<times> Reader" where
  "readChunkedBody_loop br lm body =
     (case read_chunk br lm body of
        Inl e \<Rightarrow> Inl e
      | Inr (LastChunk br') \<Rightarrow>
          (case read_trailers br' lm of
             Inl e \<Rightarrow> Inl (ChunkWrapped e)
           | Inr br'' \<Rightarrow> Inr (body, br''))
      | Inr (Chunk c br') \<Rightarrow> readChunkedBody_loop br' lm (body @ c))"
  by pat_completeness auto
termination
  by (relation "measure (\<lambda>(br, lm, body). length (rd_data br))") (auto dest: read_chunk_shrinks)

declare readChunkedBody_loop.simps [simp del]

definition readChunkedBody :: "Reader \<Rightarrow> Limits \<Rightarrow> chunk_failure + bytes \<times> Reader" where
  "readChunkedBody br lm = readChunkedBody_loop br lm []"

section \<open>ParseRequest\<close>

definition parse_request_line ::
    "(bytes \<Rightarrow> bytes) \<Rightarrow> Reader \<Rightarrow> Limits \<Rightarrow> parse_failure + (bytes \<times> bytes \<times> bytes) \<times> Reader" where
  "parse_request_line uc br lm =
     (case readBoundedLine br (MaxRequestLine lm) of
        Inl e \<Rightarrow>
          if e = ErrLineTooLong then Inl (Failed (perr StatusURITooLong RequestLineTooLong))
          else if e = EOF then Inl CleanClose \<comment> \<open>\<open>line\<close> is always empty beside an error\<close>
          else Inl (Failed (perrc StatusBadRequest e ReadingRequestLine))
      | Inr (line, br1) \<Rightarrow>
          (case Split (CHR '' '') line of
             [method, target, proto] \<Rightarrow>
               if method \<notin> set knownMethods then
                 (if method \<noteq> ToUpper uc method \<or> method = []
                  then Inl (Failed (perr StatusBadRequest MalformedMethod))
                  else Inl (Failed (perr StatusNotImplemented MethodNotImplemented)))
               else if proto \<noteq> ''HTTP/1.1'' \<and> proto \<noteq> ''HTTP/1.0''
                 then Inl (Failed (perr StatusHTTPVersionNotSupported UnsupportedProtocol))
               else if \<not> HasPrefix target ''/''
                 then Inl (Failed (perr StatusBadRequest TargetNotOriginForm))
               else Inr ((method, target, proto), br1)
           | _ \<Rightarrow> Inl (Failed (perr StatusBadRequest MalformedRequestLine))))"

function parse_headers ::
    "Reader \<Rightarrow> Limits \<Rightarrow> Headers \<Rightarrow> int \<Rightarrow> parse_failure + Headers \<times> Reader" where
  "parse_headers br lm headers totalHeaderBytes =
     (case readBoundedLine br (MaxHeaderLine lm) of
        Inl e \<Rightarrow>
          if e = ErrLineTooLong then Inl (Failed (perr StatusHeaderFieldsTooLarge HeaderLineTooLong))
          else Inl (Failed (perrc StatusBadRequest e ReadingHeaders))
      | Inr (hline, br') \<Rightarrow>
          if hline = [] then Inr (headers, br')
          else if totalHeaderBytes + int (length hline) > MaxHeaderBytes lm
            then Inl (Failed (perr StatusHeaderFieldsTooLarge HeadersTooLarge))
          else
            (case Cut (CHR '':'') hline of
               (name, value, found) \<Rightarrow>
                 if \<not> found \<or> name = [] \<or> ContainsAny name [CHR '' '', HT]
                 then Inl (Failed (perr StatusBadRequest MalformedHeaderLine))
                 else
                   (let headers' = Headers_Add headers name (TrimSpace value)
                    in if Headers_Len headers' > MaxHeaderCount lm
                       then Inl (Failed (perr StatusHeaderFieldsTooLarge TooManyHeaders))
                       else parse_headers br' lm headers' (totalHeaderBytes + int (length hline)))))"
  by pat_completeness auto
termination
  by (relation "measure (\<lambda>(br, lm, h, t). length (rd_data br))")
     (auto dest: readBoundedLine_shrinks)

declare parse_headers.simps [simp del]

definition parse_body :: "Reader \<Rightarrow> Limits \<Rightarrow> Headers \<Rightarrow> parse_failure + bytes \<times> Reader" where
  "parse_body br lm headers =
     (if Headers_ContainsToken headers ''Transfer-Encoding'' ''chunked'' then
        (case readChunkedBody br lm of
           Inl (ChunkPerr pe) \<Rightarrow> Inl (Failed pe)
         | Inl (ChunkWrapped e) \<Rightarrow> Inl (Failed (perrc StatusBadRequest e ReadingChunkedBody))
         | Inl ChunkPanic \<Rightarrow> Inl ParsePanic
         | Inr (body, br') \<Rightarrow> Inr (body, br'))
      else if Headers_Has headers ''Transfer-Encoding'' then
        Inl (Failed (perr StatusNotImplemented TransferEncodingUnsupported))
      else if Headers_Has headers ''Content-Length'' then
        (case ParseInt 10 (Headers_Get headers ''Content-Length'') of
           (n, convErr) \<Rightarrow>
             if convErr \<noteq> None \<or> n < 0
               then Inl (Failed (perr StatusBadRequest InvalidContentLength))
             else if n > MaxBodyBytes lm
               then Inl (Failed (perr StatusPayloadTooLarge DeclaredBodyTooLarge))
             else if make_panics n then Inl ParsePanic
             else (case ReadFull br (nat n) of
                     Inl e \<Rightarrow> Inl (Failed (perrc StatusBadRequest e ShortBodyRead))
                   | Inr (body, br') \<Rightarrow> Inr (body, br')))
      else Inr ([], br))"

definition ParseRequest ::
    "(bytes \<Rightarrow> bytes) \<Rightarrow> Reader \<Rightarrow> Limits \<Rightarrow> bytes \<Rightarrow> parse_failure + Request \<times> Reader" where
  "ParseRequest uc br lm remoteAddr =
     (case parse_request_line uc br lm of
        Inl e \<Rightarrow> Inl e
      | Inr ((method, target, proto), br1) \<Rightarrow>
          (case parse_headers br1 lm NewHeaders 0 of
             Inl e \<Rightarrow> Inl e
           | Inr (headers, br2) \<Rightarrow>
               if proto = ''HTTP/1.1'' \<and> \<not> Headers_Has headers ''Host''
               then Inl (Failed (perr StatusBadRequest MissingHost))
               else
                 (case parse_body br2 lm headers of
                    Inl e \<Rightarrow> Inl e
                  | Inr (body, br3) \<Rightarrow>
                      (case Cut (CHR ''?'') target of
                         (rawPath, rawQuery, _) \<Rightarrow>
                           (case PathUnescape rawPath of
                              None \<Rightarrow> Inl (Failed (perr StatusBadRequest UndecodablePath))
                            | Some path \<Rightarrow>
                                (case ParseQuery rawQuery of
                                   None \<Rightarrow> Inl (Failed (perr StatusBadRequest UndecodableQuery))
                                 | Some query \<Rightarrow>
                                     Inr (\<lparr>Method = method, RawTarget = target, Path = path,
                                           Proto = proto, Query = query, ReqHeaders = headers,
                                           ReqBody = body, RemoteAddr = remoteAddr,
                                           PathParams = Map.empty, Meta = Map.empty\<rparr>, br3)))))))"

lemmas request_defs [go_eval] =
  DefaultLimits_def perr_def perrc_def wantClose_def knownMethods_def maxAlloc_def make_panics_def
  chunk_size_def read_chunk_def readChunkedBody_def parse_request_line_def parse_body_def
  ParseRequest_def read_trailers.simps readChunkedBody_loop.simps parse_headers.simps

end
