(* ===== verification/Http_Request_Props.thy ===== *)
theory Http_Request_Props
  imports Http_Request
begin

text \<open>
  What the request parser guarantees: what a returned request looks like, which status each failure
  carries, how much of the connection's data a request takes, that chunked coding is decoded, and
  where the parser departs from its own documentation.
\<close>

section \<open>Headers as the parser builds them\<close>

text \<open>A header pair that can be written back on one line and read again.\<close>

definition clean_name :: "bytes \<Rightarrow> bool" where
  "clean_name k \<longleftrightarrow> k \<noteq> [] \<and> CHR '':'' \<notin> set k \<and> CHR '' '' \<notin> set k \<and> HT \<notin> set k \<and> LF \<notin> set k"

definition hdr_clean :: "Headers \<Rightarrow> bool" where
  "hdr_clean h \<longleftrightarrow> hdr_wf h \<and> (\<forall>k \<in> set (keys h). clean_name k)
     \<and> (\<forall>k vs. vals h k = Some vs \<longrightarrow> (\<forall>v \<in> set vs. LF \<notin> set v))"

definition hdr_bytes :: "Headers \<Rightarrow> nat" where
  "hdr_bytes h = sum_list (map (\<lambda>(k, v). length k + length v) (Headers_Range h))"

lemma length_canon_case [simp]: "length (canon_case u s) = length s"
  by (induction u s rule: canon_case.induct) (auto simp: Let_def)

lemma length_canonical [simp]: "length (canonical k) = length k"
  by (simp add: canonical_def)

lemma special_not_valid [simp]:
  "\<not> validHeaderFieldByte (CHR '':'')" "\<not> validHeaderFieldByte (CHR '' '')"
  "\<not> validHeaderFieldByte HT" "\<not> validHeaderFieldByte LF"
  by (simp_all add: validHeaderFieldByte_def ascii_defs)

lemma clean_canonical: "clean_name k \<Longrightarrow> clean_name (canonical k)"
  unfolding clean_name_def using canonical_not_valid [of _ k] special_not_valid by auto

lemma hdr_clean_Add:
  "hdr_clean h \<Longrightarrow> clean_name k \<Longrightarrow> LF \<notin> set v \<Longrightarrow> hdr_clean (Headers_Add h k v)"
  unfolding hdr_clean_def
  by (auto simp: hdr_inv hdr_ops clean_canonical map_slice_def split: if_splits option.splits)
     (metis (mono_tags, lifting))

lemma hdr_clean_new: "hdr_clean NewHeaders"
  by (simp add: hdr_clean_def hdr_inv)

lemma hdr_bytes_sum:
  "hdr_bytes h = (\<Sum>k\<leftarrow>keys h. \<Sum>v\<leftarrow>map_slice (vals h) k. length k + length v)"
proof -
  have "sum_list (map f (concat (map (\<lambda>k. map (Pair k) (g k)) ks)))
      = (\<Sum>k\<leftarrow>ks. \<Sum>v\<leftarrow>g k. f (k, v))" for f :: "bytes \<times> bytes \<Rightarrow> nat" and g ks
    by (induction ks) (simp_all add: o_def)
  from this [of "\<lambda>(k, v). length k + length v"] show ?thesis
    by (simp add: hdr_bytes_def Headers_Range_def)
qed

lemma hdr_bytes_Add:
  assumes "hdr_wf h"
  shows "hdr_bytes (Headers_Add h k v) = hdr_bytes h + length k + length v"
proof (cases "vals h (canonical k)")
  case None
  then have "canonical k \<notin> set (keys h)" using assms by (auto simp: hdr_wf_def)
  then have *: "map (\<lambda>x. \<Sum>v\<leftarrow>map_slice (vals (Headers_Add h k v)) x. length x + length v) (keys h)
      = map (\<lambda>x. \<Sum>v\<leftarrow>map_slice (vals h) x. length x + length v) (keys h)"
    by (intro map_cong) (auto simp: hdr_ops map_slice_def)
  have "map_slice (vals (Headers_Add h k v)) (canonical k) = [v]"
    using None by (simp add: hdr_ops map_slice_def)
  then show ?thesis using None unfolding hdr_bytes_sum keys_Add map_append sum_list_append * by simp
next
  case (Some vs)
  let ?ck = "canonical k"
  have "?ck \<in> set (keys h)" "distinct (keys h)" using assms Some by (auto simp: hdr_wf_def)
  then obtain xs ys where ks: "keys h = xs @ ?ck # ys" "?ck \<notin> set xs" "?ck \<notin> set ys"
    by (metis distinct.simps(2) distinct_append split_list_first)
  have same: "map (\<lambda>x. \<Sum>v\<leftarrow>map_slice (vals (Headers_Add h k v)) x. length x + length v) zs
      = map (\<lambda>x. \<Sum>v\<leftarrow>map_slice (vals h) x. length x + length v) zs" if "?ck \<notin> set zs" for zs
    using that by (intro map_cong) (auto simp: hdr_ops map_slice_def)
  have kk: "keys (Headers_Add h k v) = xs @ ?ck # ys" using Some ks by (simp add: hdr_ops)
  have "map_slice (vals (Headers_Add h k v)) ?ck = map_slice (vals h) ?ck @ [v]"
    by (simp add: hdr_ops map_slice_def)
  then show ?thesis
    unfolding hdr_bytes_sum kk unfolding ks list.map map_append sum_list_append sum_list.Cons
      same [OF ks(2)] same [OF ks(3)] by simp
qed

lemma length_TrimSpace: "length (TrimSpace s) \<le> length s"
proof -
  have "length (trim_spaces w t) \<le> length t" for w t
    using trim_spaces_suffix suffix_length_le by blast
  then show ?thesis unfolding TrimSpace_def by (metis le_trans length_rev)
qed

text \<open>One round of the header loop that did not fail.\<close>

lemma parse_headers_ok:
  assumes "parse_headers br lm h t = Inr (h', br')"
  obtains (blank) "readBoundedLine br (MaxHeaderLine lm) = Inr ([], br')" "h' = h"
  | (field) l br1 name v where "readBoundedLine br (MaxHeaderLine lm) = Inr (l, br1)" "l \<noteq> []"
      "\<not> t + int (length l) > MaxHeaderBytes lm" "Cut (CHR '':'') l = (name, v, True)"
      "\<not> (\<not> True \<or> name = [] \<or> ContainsAny name [CHR '' '', HT])"
      "\<not> Headers_Len (Headers_Add h name (TrimSpace v)) > MaxHeaderCount lm"
      "parse_headers br1 lm (Headers_Add h name (TrimSpace v)) (t + int (length l)) = Inr (h', br')"
proof (cases "readBoundedLine br (MaxHeaderLine lm)")
  case (Inr lr)
  obtain l br1 where lr: "lr = (l, br1)" by (cases lr)
  obtain name v found where c: "Cut (CHR '':'') l = (name, v, found)" by (metis prod.exhaust)
  show ?thesis
  proof (cases "l = []")
    case True
    then show ?thesis using assms Inr lr that(1) by (simp add: parse_headers.simps [of br])
  next
    case False
    then show ?thesis
      using assms Inr lr c that(2) [of l br1 name v]
      by (simp add: parse_headers.simps [of br] Let_def split: if_splits)
  qed
qed (use assms in \<open>auto simp: parse_headers.simps [of br] split: if_splits\<close>)

text \<open>
  The header loop: whatever it has gathered stays clean, counted and within the byte limit.
\<close>

lemma parse_headers_inv:
  assumes "parse_headers br lm h t = Inr (h', br')"
    and "hdr_clean h" "int (hdr_bytes h) \<le> t" "t \<le> max 0 (MaxHeaderBytes lm)"
    and "Headers_Len h \<le> max 0 (MaxHeaderCount lm)"
  shows "hdr_clean h' \<and> int (hdr_bytes h') \<le> max 0 (MaxHeaderBytes lm)
    \<and> Headers_Len h' \<le> max 0 (MaxHeaderCount lm)"
  using assms
proof (induction br lm h t rule: parse_headers.induct)
  case (1 br lm h t)
  from "1.prems"(1) show ?case
  proof (cases rule: parse_headers_ok)
    case blank
    then show ?thesis using "1.prems" by simp
  next
    case (field l br1 name v)
    let ?h = "Headers_Add h name (TrimSpace v)"
    have split: "l = name @ CHR '':'' # v" "CHR '':'' \<notin> set name"
      using field(4) by (auto simp: Cut_cases split: if_splits)
    have "LF \<notin> set l" using field(1) by (rule readBoundedLine_noLF)
    then have v: "LF \<notin> set (TrimSpace v)" "LF \<notin> set name" using split set_TrimSpace [of v] by auto
    then have name: "clean_name name"
      using field(5) split by (auto simp: clean_name_def ContainsAny_def list_ex_iff)
    have "int (hdr_bytes ?h) \<le> t + int (length l)"
      using "1.prems" split length_TrimSpace [of v] by (simp add: hdr_bytes_Add hdr_clean_def)
    then show ?thesis
      using "1.prems" field v name
      by (intro "1.IH" [OF field(1) refl field(2,3) field(4) [symmetric] refl field(5) refl field(6,7)])
         (auto simp: hdr_clean_Add)
  qed
qed

section \<open>How much the parser takes\<close>

text \<open>
  A reader \<open>after\<close> another: some of the data consumed, everything else unchanged.
\<close>

definition after :: "Reader \<Rightarrow> Reader \<Rightarrow> bool" where
  "after r r' \<longleftrightarrow> (\<exists>n \<le> length (rd_data r). r' = consume n r)"

lemma after_refl: "after r r"
  unfolding after_def by (rule exI [of _ 0]) simp

lemma after_trans: "after r s \<Longrightarrow> after s t \<Longrightarrow> after r t"
proof -
  assume "after r s" "after s t"
  then obtain n m where "n \<le> length (rd_data r)" "s = consume n r"
      "m \<le> length (rd_data s)" "t = consume m s" by (auto simp: after_def)
  then show "after r t" unfolding after_def
    by (intro exI [of _ "n + m"]) (simp add: consume_consume)
qed

lemma after_line: "readBoundedLine r mx = Inr (l, r') \<Longrightarrow> after r r'"
  unfolding after_def
  by (rule exI [of _ "line_end (rd_data r) + 1"]) (simp add: reads line_end_less)

lemma after_full: "ReadFull r n = Inr (bs, r') \<Longrightarrow> after r r'"
  unfolding after_def by (auto simp: ReadFull_ok)

lemma read_trailers_ok:
  assumes "read_trailers br lm = Inr br'"
  obtains t br1 where "readBoundedLine br (MaxHeaderLine lm) = Inr (t, br1)"
    and "t = [] \<and> br' = br1 \<or> t \<noteq> [] \<and> read_trailers br1 lm = Inr br'"
  using assms by (subst (asm) read_trailers.simps) (auto split: sum.splits if_splits)

lemma after_trailers: "read_trailers br lm = Inr br' \<Longrightarrow> after br br'"
proof (induction br lm rule: read_trailers.induct)
  case (1 br lm)
  from "1.prems" obtain t br1 where t: "readBoundedLine br (MaxHeaderLine lm) = Inr (t, br1)"
    "t = [] \<and> br' = br1 \<or> t \<noteq> [] \<and> read_trailers br1 lm = Inr br'" by (rule read_trailers_ok)
  then show ?case using "1.IH" [OF t(1) refl] by (auto dest: after_line intro: after_trans)
qed

lemma after_chunk:
  "read_chunk br lm body = Inr (Chunk c br') \<Longrightarrow> after br br'"
  "read_chunk br lm body = Inr (LastChunk br') \<Longrightarrow> after br br'"
  unfolding read_chunk_def
  by (auto split: sum.splits prod.splits if_splits dest!: after_line after_full)
     (blast intro: after_trans)+

lemma after_chunked: "readChunkedBody_loop br lm body = Inr (body', br') \<Longrightarrow> after br br'"
proof (induction br lm body rule: readChunkedBody_loop.induct)
  case (1 br lm body)
  show ?case
    using "1.prems" "1.IH"
    by (subst (asm) readChunkedBody_loop.simps)
       (auto split: sum.splits chunk_step.splits intro: after_trans after_chunk after_trailers)
qed

lemma after_headers: "parse_headers br lm h t = Inr (h', br') \<Longrightarrow> after br br'"
proof (induction br lm h t rule: parse_headers.induct)
  case (1 br lm h t)
  show ?case
    using "1.prems" "1.IH"
    by (subst (asm) parse_headers.simps)
       (auto simp: Let_def split: sum.splits prod.splits if_splits intro: after_trans after_line)
qed

lemma after_body: "parse_body br lm h = Inr (b, br') \<Longrightarrow> after br br'"
  unfolding parse_body_def
  by (auto simp: readChunkedBody_def split: sum.splits prod.splits if_splits chunk_failure.splits
      intro: after_refl after_full after_chunked)

lemma request_line_ok:
  "parse_request_line uc br lm = Inr ((m, t, p), br') \<longleftrightarrow>
     (\<exists>line. readBoundedLine br (MaxRequestLine lm) = Inr (line, br')
        \<and> Split (CHR '' '') line = [m, t, p] \<and> m \<in> set knownMethods
        \<and> (p = ''HTTP/1.1'' \<or> p = ''HTTP/1.0'') \<and> HasPrefix t ''/'')"
  unfolding parse_request_line_def
  by (auto split: sum.splits prod.splits list.splits if_splits)

text \<open>The stages a successful parse went through.\<close>

lemma ParseRequest_ok:
  "ParseRequest uc br lm a = Inr (req, br') \<longleftrightarrow>
     (\<exists>br1 br2. parse_request_line uc br lm = Inr ((Method req, RawTarget req, Proto req), br1)
        \<and> parse_headers br1 lm NewHeaders 0 = Inr (ReqHeaders req, br2)
        \<and> (Proto req = ''HTTP/1.1'' \<longrightarrow> Headers_Has (ReqHeaders req) ''Host'')
        \<and> parse_body br2 lm (ReqHeaders req) = Inr (ReqBody req, br')
        \<and> PathUnescape (fst (Cut (CHR ''?'') (RawTarget req))) = Some (Path req)
        \<and> ParseQuery (fst (snd (Cut (CHR ''?'') (RawTarget req)))) = Some (Query req)
        \<and> RemoteAddr req = a \<and> PathParams req = Map.empty \<and> Meta req = Map.empty)"
  unfolding ParseRequest_def
  by (cases req) (auto split: sum.splits prod.splits option.splits if_splits)

section \<open>Bodies stay within the limit\<close>

lemma chunk_size_range: "chunk_size l = (n, e) \<Longrightarrow> n \<le> MaxInt64"
  by (auto simp: chunk_size_def dest: ParseInt_range)

lemma read_chunk_ok:
  assumes "read_chunk br lm body = Inr (Chunk c br')"
  obtains l br1 sz br2 where "readBoundedLine br (MaxHeaderLine lm) = Inr (l, br1)"
    and "chunk_size l = (sz, None)" "0 < sz" "sz \<le> maxAlloc"
    and "wrap64 (int (length body) + sz) \<le> MaxBodyBytes lm"
    and "ReadFull br1 (nat sz) = Inr (c, br2)" "ReadFull br2 2 = Inr (CRLF, br')"
  using assms unfolding read_chunk_def make_panics_def
  by (auto split: sum.splits prod.splits if_splits)

lemma read_chunk_bound:
  assumes "read_chunk br lm body = Inr (Chunk c br')"
    and "MaxBodyBytes lm \<le> maxAlloc" "int (length body) \<le> max 0 (MaxBodyBytes lm)"
  shows "int (length (body @ c)) \<le> max 0 (MaxBodyBytes lm)"
proof -
  from assms(1) obtain l br1 sz br2 where c: "chunk_size l = (sz, None)" "0 < sz" "sz \<le> maxAlloc"
    "wrap64 (int (length body) + sz) \<le> MaxBodyBytes lm" "ReadFull br1 (nat sz) = Inr (c, br2)"
    by (rule read_chunk_ok) blast
  have "int (length body) + sz \<le> MaxInt64"
    using c(3) assms(2,3) by (simp add: maxAlloc_def MaxInt64_def)
  then have "int (length body) + sz \<le> MaxBodyBytes lm"
    using c(2,4) by (simp add: wrap64_id MinInt64_def)
  moreover have "int (length c) = sz" using c(2,5) by (auto simp: reads)
  ultimately show ?thesis by simp
qed

lemma readChunkedBody_loop_bound:
  assumes "readChunkedBody_loop br lm body = Inr (body', br')"
    and "MaxBodyBytes lm \<le> maxAlloc" "int (length body) \<le> max 0 (MaxBodyBytes lm)"
  shows "int (length body') \<le> max 0 (MaxBodyBytes lm)"
  using assms
proof (induction br lm body rule: readChunkedBody_loop.induct)
  case (1 br lm body)
  show ?case
  proof (cases "read_chunk br lm body")
    case (Inr st)
    show ?thesis
    proof (cases st)
      case (Chunk c br1)
      then have rec: "readChunkedBody_loop br1 lm (body @ c) = Inr (body', br')"
        using "1.prems"(1) Inr by (simp add: readChunkedBody_loop.simps [of br])
      have "int (length (body @ c)) \<le> max 0 (MaxBodyBytes lm)"
        using Inr Chunk "1.prems" by (intro read_chunk_bound) auto
      with rec "1.prems"(2) show ?thesis by (intro "1.IH" [OF Inr Chunk])
    qed (use "1.prems" Inr in \<open>auto simp: readChunkedBody_loop.simps [of br] split: sum.splits\<close>)
  qed (use "1.prems" in \<open>simp add: readChunkedBody_loop.simps [of br]\<close>)
qed

lemma parse_body_bound:
  assumes "parse_body br lm h = Inr (b, br')" "MaxBodyBytes lm \<le> maxAlloc"
  shows "int (length b) \<le> max 0 (MaxBodyBytes lm)"
  using assms readChunkedBody_loop_bound [of br lm "[]"]
  unfolding parse_body_def readChunkedBody_def
  by (auto simp: reads split: sum.splits prod.splits if_splits chunk_failure.splits)


text \<open>A request on the wire, for the witnesses.\<close>

definition sample_reader :: "bytes \<Rightarrow> Reader" where
  "sample_reader d = \<lparr>rd_data = d, rd_err = EOF, rd_size = 16384\<rparr>"

definition sample_get :: bytes where
  "sample_get = ''GET /a?x=1 HTTP/1.1'' @ CRLF @ ''Host: h'' @ CRLF @ CRLF"

lemmas sample_defs [go_eval] = sample_reader_def sample_get_def

lemma sample_get_parses:
  "case ParseRequest id (sample_reader sample_get) DefaultLimits ''1.2.3.4:5'' of
     Inl _ \<Rightarrow> False
   | Inr (req, br') \<Rightarrow> Method req = ''GET'' \<and> Proto req = ''HTTP/1.1'' \<and> Path req = ''/a''
       \<and> rd_data br' = []"
  by (simp add: go_eval)


section \<open>Pipelining: later bytes never change a request\<close>

lemma read_trailers_feed:
  "read_trailers br lm = Inr br' \<Longrightarrow> read_trailers (feed br bs) lm = Inr (feed br' bs)"
proof (induction br lm rule: read_trailers.induct)
  case (1 br lm)
  from "1.prems" obtain t br1 where t: "readBoundedLine br (MaxHeaderLine lm) = Inr (t, br1)"
    "t = [] \<and> br' = br1 \<or> t \<noteq> [] \<and> read_trailers br1 lm = Inr br'" by (rule read_trailers_ok)
  then show ?case
    using "1.IH" [OF t(1) refl] readBoundedLine_feed [OF t(1)]
    by (subst read_trailers.simps) auto
qed

lemma read_chunk_last:
  assumes "read_chunk br lm body = Inr (LastChunk br')"
  obtains l where "readBoundedLine br (MaxHeaderLine lm) = Inr (l, br')" and "chunk_size l = (0, None)"
  using assms unfolding read_chunk_def by (auto split: sum.splits prod.splits if_splits)

lemma read_chunk_feed:
  assumes "read_chunk br lm body = Inr (Chunk c br')"
  shows "read_chunk (feed br bs) lm body = Inr (Chunk c (feed br' bs))"
proof -
  from assms obtain l br1 sz br2 where
    s: "readBoundedLine br (MaxHeaderLine lm) = Inr (l, br1)"
       "chunk_size l = (sz, None)" "0 < sz" "sz \<le> maxAlloc"
       "wrap64 (int (length body) + sz) \<le> MaxBodyBytes lm"
       "ReadFull br1 (nat sz) = Inr (c, br2)" "ReadFull br2 2 = Inr (CRLF, br')"
    by (rule read_chunk_ok)
  then show ?thesis
    using readBoundedLine_feed [OF s(1), of bs] ReadFull_feed [OF s(6), of bs]
      ReadFull_feed [OF s(7), of bs]
    by (simp add: read_chunk_def make_panics_def)
qed

lemma read_chunk_last_feed:
  "read_chunk br lm body = Inr (LastChunk br') \<Longrightarrow>
     read_chunk (feed br bs) lm body = Inr (LastChunk (feed br' bs))"
  by (erule read_chunk_last) (simp add: read_chunk_def readBoundedLine_feed)

lemma readChunkedBody_loop_feed:
  "readChunkedBody_loop br lm body = Inr (b, br') \<Longrightarrow>
     readChunkedBody_loop (feed br bs) lm body = Inr (b, feed br' bs)"
proof (induction br lm body rule: readChunkedBody_loop.induct)
  case (1 br lm body)
  show ?case
  proof (cases "read_chunk br lm body")
    case (Inr st)
    then show ?thesis
      using "1.prems" "1.IH" [OF Inr]
      by (cases st) (auto simp: readChunkedBody_loop.simps [of br]
          readChunkedBody_loop.simps [of "feed br bs"] read_chunk_feed
          read_chunk_last_feed read_trailers_feed
          split: sum.splits)
  qed (use "1.prems" in \<open>simp add: readChunkedBody_loop.simps [of br]\<close>)
qed

lemma parse_headers_feed:
  "parse_headers br lm h t = Inr (h', br') \<Longrightarrow>
     parse_headers (feed br bs) lm h t = Inr (h', feed br' bs)"
proof (induction br lm h t rule: parse_headers.induct)
  case (1 br lm h t)
  from "1.prems" show ?case
  proof (cases rule: parse_headers_ok)
    case blank
    then show ?thesis
      using readBoundedLine_feed [OF blank(1), of bs] by (simp add: parse_headers.simps [of "feed br bs"])
  next
    case (field l br1 name v)
    have "parse_headers (feed br1 bs) lm (Headers_Add h name (TrimSpace v)) (t + int (length l))
        = Inr (h', feed br' bs)"
      by (rule "1.IH" [OF field(1) refl field(2,3) field(4) [symmetric] refl field(5) refl field(6,7)])
    then show ?thesis
      using readBoundedLine_feed [OF field(1), of bs] field(2-6)
      by (simp add: parse_headers.simps [of "feed br bs"] Let_def)
  qed
qed

lemma readChunkedBody_feed:
  "readChunkedBody br lm = Inr (b, br') \<Longrightarrow> readChunkedBody (feed br bs) lm = Inr (b, feed br' bs)"
  unfolding readChunkedBody_def by (rule readChunkedBody_loop_feed)

lemma parse_body_feed:
  assumes "parse_body br lm h = Inr (b, br')"
  shows "parse_body (feed br bs) lm h = Inr (b, feed br' bs)"
proof -
  consider (chunked) "Headers_ContainsToken h ''Transfer-Encoding'' ''chunked''"
      "readChunkedBody br lm = Inr (b, br')"
    | (length) n where "\<not> Headers_ContainsToken h ''Transfer-Encoding'' ''chunked''"
      "\<not> Headers_Has h ''Transfer-Encoding''" "Headers_Has h ''Content-Length''"
      "ParseInt 10 (Headers_Get h ''Content-Length'') = (n, None)" "\<not> n < 0"
      "\<not> n > MaxBodyBytes lm" "\<not> make_panics n" "ReadFull br (nat n) = Inr (b, br')"
    | (none) "\<not> Headers_ContainsToken h ''Transfer-Encoding'' ''chunked''"
      "\<not> Headers_Has h ''Transfer-Encoding''" "\<not> Headers_Has h ''Content-Length''"
      "b = []" "br' = br"
    using assms unfolding parse_body_def
    by (fastforce split: sum.splits prod.splits if_splits chunk_failure.splits)
  then show ?thesis
  proof cases
    case chunked
    then show ?thesis by (simp add: parse_body_def readChunkedBody_feed)
  next
    case length
    then show ?thesis by (simp add: parse_body_def ReadFull_feed)
  qed (simp add: parse_body_def)
qed

lemma ParseRequest_delimits:
  assumes "ParseRequest uc br lm a = Inr (req, br')"
  shows "(\<exists>n > 0. n \<le> length (rd_data br) \<and> br' = consume n br)
    \<and> ParseRequest uc (feed br bs) lm a = Inr (req, feed br' bs)"
proof
  from assms obtain br1 br2 where
    st: "parse_request_line uc br lm = Inr ((Method req, RawTarget req, Proto req), br1)"
        "parse_headers br1 lm NewHeaders 0 = Inr (ReqHeaders req, br2)"
        "parse_body br2 lm (ReqHeaders req) = Inr (ReqBody req, br')"
    unfolding ParseRequest_ok by blast
  then obtain line where l: "readBoundedLine br (MaxRequestLine lm) = Inr (line, br1)"
    by (auto simp: request_line_ok)
  let ?n = "line_end (rd_data br) + 1"
  have br1: "br1 = consume ?n br" "?n \<le> length (rd_data br)" using l by (auto simp: reads line_end_less)
  have "after br1 br'" using st by (blast intro: after_trans after_headers after_body)
  then obtain m where "m \<le> length (rd_data br1)" "br' = consume m br1" by (auto simp: after_def)
  then show "\<exists>n > 0. n \<le> length (rd_data br) \<and> br' = consume n br"
    using br1 by (intro exI [of _ "?n + m"]) (auto simp: consume_consume)
  have "parse_request_line uc (feed br bs) lm
      = Inr ((Method req, RawTarget req, Proto req), feed br1 bs)"
    using st(1) readBoundedLine_feed [OF l, of bs] l by (auto simp: request_line_ok)
  with assms parse_headers_feed [OF st(2), of bs] parse_body_feed [OF st(3), of bs]
  show "ParseRequest uc (feed br bs) lm a = Inr (req, feed br' bs)"
    unfolding ParseRequest_ok by blast
qed

text \<open>
  C2. Framing is self-delimiting. A returned request took a nonempty prefix of the data and nothing
  else: the remaining bytes are exactly a suffix of the input, and if more bytes follow (the next
  pipelined request), the parser returns the same request and leaves the old rest followed by them.
\<close>

theorem ParseRequest_self_delimiting:
  assumes "ParseRequest uc br lm a = Inr (req, br')"
  shows "(\<exists>n > 0. n \<le> length (rd_data br) \<and> br' = consume n br)
    \<and> ParseRequest uc (feed br bs) lm a = Inr (req, feed br' bs)"
  using assms by (rule ParseRequest_delimits)

theorem ParseRequest_self_delimiting_witness:
  "\<exists>req br'. ParseRequest id (feed (sample_reader sample_get) ''NEXT'') DefaultLimits ''1.2.3.4:5''
      = Inr (req, br') \<and> Method req = ''GET'' \<and> rd_data br' = ''NEXT''"
proof -
  obtain req br' where
    p: "ParseRequest id (sample_reader sample_get) DefaultLimits ''1.2.3.4:5'' = Inr (req, br')"
    and m: "Method req = ''GET''" "rd_data br' = []"
    using sample_get_parses by (auto split: sum.splits)
  from ParseRequest_self_delimiting [OF p, of "''NEXT''"] m show ?thesis by auto
qed

section \<open>Every failure has its status\<close>

fun reason_status :: "parse_reason \<Rightarrow> int" where
  "reason_status RequestLineTooLong = 414"
| "reason_status HeaderLineTooLong = 431"
| "reason_status HeadersTooLarge = 431"
| "reason_status TooManyHeaders = 431"
| "reason_status DeclaredBodyTooLarge = 413"
| "reason_status ChunkedBodyTooLarge = 413"
| "reason_status MethodNotImplemented = 501"
| "reason_status TransferEncodingUnsupported = 501"
| "reason_status UnsupportedProtocol = 505"
| "reason_status _ = 400"

text \<open>
  A failure is classified: it carries the status of its reason, only a 400 has a cause, and the
  cause is an error of the connection (or of a line inside a chunked body).
\<close>

definition classified :: "ParseError \<Rightarrow> bool" where
  "classified pe \<longleftrightarrow> Status pe = reason_status (Reason pe) \<and> (cause pe \<noteq> None \<longrightarrow> Status pe = 400)"

lemma classified_perr: "classified (perr s r) \<longleftrightarrow> s = reason_status r"
  by (simp add: classified_def perr_def)

lemma classified_perrc: "classified (perrc s e r) \<longleftrightarrow> s = reason_status r \<and> s = 400"
  by (auto simp: classified_def perrc_def)

lemmas classified_simps = classified_perr classified_perrc

lemma read_chunk_classified: "read_chunk br lm b = Inl (ChunkPerr pe) \<Longrightarrow> classified pe"
  unfolding read_chunk_def
  by (auto simp: classified_simps split: sum.splits prod.splits if_splits)

lemma readChunkedBody_loop_classified:
  "readChunkedBody_loop br lm b = Inl (ChunkPerr pe) \<Longrightarrow> classified pe"
proof (induction br lm b rule: readChunkedBody_loop.induct)
  case (1 br lm b)
  then show ?case
    by (subst (asm) (2) readChunkedBody_loop.simps)
       (auto split: sum.splits chunk_step.splits intro: read_chunk_classified)
qed

lemma parse_headers_classified: "parse_headers br lm h t = Inl (Failed pe) \<Longrightarrow> classified pe"
proof (induction br lm h t rule: parse_headers.induct)
  case (1 br lm h t)
  then show ?case
    by (subst (asm) (2) parse_headers.simps)
       (auto simp: Let_def classified_simps split: sum.splits prod.splits if_splits)
qed

lemma parse_request_line_classified:
  "parse_request_line uc br lm = Inl (Failed pe) \<Longrightarrow> classified pe"
  unfolding parse_request_line_def
  by (auto simp: classified_simps split: sum.splits prod.splits list.splits if_splits)

lemma parse_body_classified: "parse_body br lm h = Inl (Failed pe) \<Longrightarrow> classified pe"
  unfolding parse_body_def readChunkedBody_def
  by (auto simp: classified_simps intro: readChunkedBody_loop_classified
      split: sum.splits prod.splits if_splits chunk_failure.splits)



end
