(* ===== verification/Http_Chunked.thy ===== *)
theory Http_Chunked
  imports Http_Request_Props
begin

text \<open>
  Chunked bodies: the decoder inverts the chunked transfer coding, and the places where the parser
  does not do what its comments promise: the limit check that overflows, the read deadline that is
  reported as a bad request, and the truncated request line that is taken for a clean close.
\<close>

section \<open>The transfer coding\<close>

definition encode_chunk :: "bytes \<Rightarrow> bytes" where
  "encode_chunk c = fmt_nat 16 (length c) @ CRLF @ c @ CRLF"

definition encode_chunked :: "bytes list \<Rightarrow> bytes" where
  "encode_chunked cs = concat (map encode_chunk cs) @ ''0'' @ CRLF @ CRLF"

lemma fmt_nat_length: "0 < k \<Longrightarrow> n < 16 ^ k \<Longrightarrow> length (fmt_nat 16 n) \<le> k"
proof (induction k arbitrary: n)
  case (Suc k)
  show ?case
  proof (cases "n < 16")
    case False
    then have "k \<noteq> 0" using Suc.prems by (cases k) auto
    moreover have "n div 16 < 16 ^ k" using Suc.prems by (simp add: less_mult_imp_div_less mult.commute)
    ultimately have "length (fmt_nat 16 (n div 16)) \<le> k" using Suc.IH by simp
    then show ?thesis using False by (simp add: fmt_nat.simps [of 16 n])
  qed (simp add: fmt_nat.simps [of 16 n])
qed simp

lemma chunk_size_fmt:
  assumes "int n \<le> MaxInt64"
  shows "chunk_size (fmt_nat 16 n) = (int n, None)"
proof -
  have "CHR '';'' \<notin> set (fmt_nat 16 n)" using fmt_nat_clean [of "CHR '';''" 16 n] by auto
  moreover have "TrimSpace (fmt_nat 16 n) = fmt_nat 16 n"
    using fmt_nat_clean by (intro TrimSpace_no_space) auto
  ultimately show ?thesis
    using ParseInt_fmt_nat [of 16 n] assms by (simp add: chunk_size_def Cut_missing)
qed

lemma read_size_line:
  assumes "rd_data br = fmt_nat 16 n @ CRLF @ rest" "int n \<le> maxAlloc" "15 \<le> MaxHeaderLine lm"
  shows "readBoundedLine br (MaxHeaderLine lm) = Inr (fmt_nat 16 n, br\<lparr>rd_data := rest\<rparr>)"
proof (rule readBoundedLine_written [OF _ _ assms(1)])
  show "LF \<notin> set (fmt_nat 16 n)" using fmt_nat_clean by blast+
  have "n < 16 ^ 13" using assms(2) by (simp add: maxAlloc_def)
  then show "int (length (fmt_nat 16 n) + 2) \<le> MaxHeaderLine lm"
    using fmt_nat_length [of 13 n] assms(3) by simp
qed

lemma read_chunk_encoded:
  assumes "rd_data br = encode_chunk c @ rest" "c \<noteq> []" "15 \<le> MaxHeaderLine lm"
    and "int (length body + length c) \<le> MaxBodyBytes lm" "MaxBodyBytes lm \<le> maxAlloc"
  shows "read_chunk br lm body = Inr (Chunk c (br\<lparr>rd_data := rest\<rparr>))"
proof -
  have n: "int (length c) \<le> maxAlloc" using assms by linarith
  then have n64: "int (length c) \<le> MaxInt64" by (simp add: maxAlloc_def MaxInt64_def)
  have l: "readBoundedLine br (MaxHeaderLine lm)
      = Inr (fmt_nat 16 (length c), br\<lparr>rd_data := c @ CRLF @ rest\<rparr>)"
    using n assms by (intro read_size_line) (simp_all add: encode_chunk_def)
  have w: "wrap64 (int (length body) + int (length c)) = int (length body) + int (length c)"
    using assms by (intro wrap64_id) (simp_all add: maxAlloc_def MinInt64_def MaxInt64_def)
  show ?thesis
    using l w n chunk_size_fmt [OF n64] assms
    by (simp add: read_chunk_def make_panics_def ReadFull_def consume_def)
qed

lemma read_last_chunk_encoded:
  assumes "rd_data br = ''0'' @ CRLF @ rest" "15 \<le> MaxHeaderLine lm"
  shows "read_chunk br lm body = Inr (LastChunk (br\<lparr>rd_data := rest\<rparr>))"
proof -
  have 0: "fmt_nat 16 0 = ''0''" by (simp add: fmt_nat.simps digit_char_def)
  have "readBoundedLine br (MaxHeaderLine lm) = Inr (''0'', br\<lparr>rd_data := rest\<rparr>)"
    using assms read_size_line [of br 0 rest lm] by (simp add: 0 maxAlloc_def)
  then show ?thesis
    using chunk_size_fmt [of 0] by (simp add: read_chunk_def 0 MaxInt64_def)
qed

lemma readChunkedBody_loop_encoded:
  assumes "rd_data br = encode_chunked cs @ rest" "[] \<notin> set cs" "15 \<le> MaxHeaderLine lm"
    and "int (length body + length (concat cs)) \<le> MaxBodyBytes lm" "MaxBodyBytes lm \<le> maxAlloc"
  shows "readChunkedBody_loop br lm body = Inr (body @ concat cs, br\<lparr>rd_data := rest\<rparr>)"
  using assms
proof (induction cs arbitrary: br body)
  case Nil
  have "readBoundedLine (br\<lparr>rd_data := CRLF @ rest\<rparr>) (MaxHeaderLine lm)
      = Inr ([], br\<lparr>rd_data := rest\<rparr>)"
    using readBoundedLine_written [of "[]" "MaxHeaderLine lm" "br\<lparr>rd_data := CRLF @ rest\<rparr>" rest] Nil
    by simp
  then show ?case
    using Nil read_last_chunk_encoded [of br "CRLF @ rest" lm body]
    by (simp add: readChunkedBody_loop.simps [of br] encode_chunked_def read_trailers.simps)
next
  case (Cons c cs)
  let ?br = "br\<lparr>rd_data := encode_chunked cs @ rest\<rparr>"
  have "read_chunk br lm body = Inr (Chunk c ?br)"
    using Cons.prems by (intro read_chunk_encoded) (auto simp: encode_chunked_def)
  moreover have "readChunkedBody_loop ?br lm (body @ c)
      = Inr ((body @ c) @ concat cs, ?br\<lparr>rd_data := rest\<rparr>)"
    using Cons.prems by (intro Cons.IH) auto
  ultimately show ?case by (simp add: readChunkedBody_loop.simps [of br])
qed

text \<open>
  C8. Decoding inverts the chunked transfer coding: a body sent as any list of nonempty chunks within
  the limit is returned as their concatenation, and exactly the coded bytes are consumed.
\<close>

theorem readChunkedBody_roundtrip:
  assumes "rd_data br = encode_chunked cs @ rest" and "[] \<notin> set cs"
    and "int (length (concat cs)) \<le> MaxBodyBytes lm" "MaxBodyBytes lm \<le> maxAlloc"
    and "15 \<le> MaxHeaderLine lm"
  shows "readChunkedBody br lm = Inr (concat cs, br\<lparr>rd_data := rest\<rparr>)"
  using readChunkedBody_loop_encoded [of br cs rest lm "[]"] assms by (simp add: readChunkedBody_def)

theorem readChunkedBody_roundtrip_witness:
  "readChunkedBody (sample_reader (encode_chunked [''hello'', '' world''] @ ''GET'')) DefaultLimits
     = Inr (''hello world'', sample_reader ''GET'')"
  using readChunkedBody_roundtrip [of "sample_reader (encode_chunked [''hello'', '' world''] @ ''GET'')"
      "[''hello'', '' world'']" "''GET''" DefaultLimits]
  by (simp add: sample_reader_def DefaultLimits_def maxAlloc_def)

section \<open>The limit check overflows\<close>

lemma read_chunk_no_panic:
  assumes "int (length body) \<le> maxAlloc" "MaxBodyBytes lm \<le> maxAlloc"
    and "read_chunk br lm body = Inl ChunkPanic"
  shows "\<exists>l br1 sz. readBoundedLine br (MaxHeaderLine lm) = Inr (l, br1)
    \<and> chunk_size l = (sz, None) \<and> int (length body) + sz > MaxInt64"
proof -
  from assms(3) obtain l br1 sz where l: "readBoundedLine br (MaxHeaderLine lm) = Inr (l, br1)"
    "chunk_size l = (sz, None)" "sz > 0"
    "wrap64 (int (length body) + sz) \<le> MaxBodyBytes lm" "make_panics sz"
    unfolding read_chunk_def by (auto split: sum.splits prod.splits if_splits)
  have "int (length body) + sz > MaxInt64"
  proof (rule ccontr)
    assume "\<not> ?thesis"
    then have "int (length body) + sz \<le> MaxBodyBytes lm"
      using l(3,4) by (simp add: wrap64_id MinInt64_def)
    then show False using l(3,5) assms(2) by (simp add: make_panics_def)
  qed
  with l show ?thesis by blast
qed

text \<open>
  The size check of \<open>readChunkedBody\<close> adds in 64 bits, and the sum can wrap. Once a chunk has been
  accepted, a chunk size within the length of the body so far of the largest \<open>int64\<close> makes the sum
  negative, passes the limit, and reaches \<open>make\<close>, which panics: outside every \<open>recover\<close> of the
  server, so it ends the process. With a limit of at most one allocation this is the only way the
  decoder panics.
\<close>

theorem readChunkedBody_overflow_panics:
  assumes "body \<noteq> []" "int (length body) \<le> MaxBodyBytes lm" "MaxBodyBytes lm \<le> maxAlloc"
    and "readBoundedLine br (MaxHeaderLine lm) = Inr (l, br1)"
    and "chunk_size l = (sz, None)" "0 < sz"
  shows "read_chunk br lm body = Inl ChunkPanic \<longleftrightarrow> int (length body) + sz > MaxInt64"
proof
  assume "read_chunk br lm body = Inl ChunkPanic"
  moreover have "int (length body) \<le> maxAlloc" using assms by linarith
  ultimately show "int (length body) + sz > MaxInt64"
    using read_chunk_no_panic [of body lm br] assms by auto
next
  assume over: "int (length body) + sz > MaxInt64"
  have "sz \<le> MaxInt64" using assms(5) by (rule chunk_size_range)
  then have "wrap64 (int (length body) + sz) < 0"
    using over assms by (intro wrap64_overflow_neg) (simp_all add: MaxInt64_def maxAlloc_def)
  moreover have "make_panics sz"
    using over assms(2,3) by (simp add: make_panics_def maxAlloc_def MaxInt64_def)
  ultimately show "read_chunk br lm body = Inl ChunkPanic"
    using assms by (simp add: read_chunk_def)
qed

definition overflow_attack :: bytes where
  "overflow_attack = ''POST / HTTP/1.1'' @ CRLF @ ''Host: h'' @ CRLF
     @ ''Transfer-Encoding: chunked'' @ CRLF @ CRLF
     @ ''1'' @ CRLF @ ''x'' @ CRLF @ ''7fffffffffffffff'' @ CRLF"

lemma overflow_attack_crashes:
  "ParseRequest id (sample_reader overflow_attack) DefaultLimits ''1.2.3.4:5'' = Inl ParsePanic"
  by (simp add: go_eval overflow_attack_def int64_defs)

theorem readChunkedBody_overflow_panics_witness:
  "read_chunk (sample_reader (''7fffffffffffffff'' @ CRLF)) DefaultLimits ''x'' = Inl ChunkPanic
   \<and> ParseRequest id (sample_reader overflow_attack) DefaultLimits ''1.2.3.4:5'' = Inl ParsePanic"
proof -
  have l: "readBoundedLine (sample_reader (''7fffffffffffffff'' @ CRLF)) (MaxHeaderLine DefaultLimits)
      = Inr (''7fffffffffffffff'', sample_reader [])"
    by (simp add: go_eval)
  have s: "chunk_size ''7fffffffffffffff'' = (MaxInt64, None)" by (simp add: go_eval int64_defs)
  have "read_chunk (sample_reader (''7fffffffffffffff'' @ CRLF)) DefaultLimits ''x'' = Inl ChunkPanic"
    using readChunkedBody_overflow_panics [OF _ _ _ l s, of "''x''"]
    by (simp add: DefaultLimits_def maxAlloc_def MaxInt64_def)
  then show ?thesis using overflow_attack_crashes by blast
qed

section \<open>Requests that stall\<close>

text \<open>
  Each read either has what it needs or reports that the data ran out: if it would succeed with
  more bytes, then without them it succeeds alike or gives the connection's error.
\<close>

lemma readBoundedLine_stall:
  assumes "readBoundedLine (feed r bs) mx = Inr (l, r')"
  shows "readBoundedLine r mx = Inl (rd_err r)
    \<or> (\<exists>r''. readBoundedLine r mx = Inr (l, r'') \<and> r' = feed r'' bs)"
proof (cases "LF \<in> set (rd_data r)")
  case True
  let ?n = "line_end (rd_data r)"
  have n: "line_end (rd_data r @ bs) = ?n" using True by (rule line_end_append)
  have "?n < length (rd_data r)" using True by (simp add: line_end_less)
  then show ?thesis using assms True by (auto simp: reads n consume_feed)
next
  case False
  then have "length (rd_data r) \<le> line_end (rd_data r @ bs)"
    by (simp add: line_end_def takeWhile_append)
  moreover have "int (line_end (rd_data r @ bs) + 1) \<le> mx" using assms by (simp add: reads)
  ultimately show ?thesis using False by (simp add: readBoundedLine_unfold line_spec_def Let_def)
qed

lemma ReadFull_stall:
  assumes "ReadFull (feed r bs) n = Inr (b, r')" "rd_err r \<noteq> EOF"
  shows "ReadFull r n = Inl (rd_err r) \<or> (\<exists>r''. ReadFull r n = Inr (b, r'') \<and> r' = feed r'' bs)"
  using assms by (auto simp: ReadFull_def consume_feed split: if_splits)

lemma line_err [simp]: "readBoundedLine r mx = Inr (l, r') \<Longrightarrow> rd_err r' = rd_err r"
  by (auto simp: reads)

lemma full_err [simp]: "ReadFull r n = Inr (b, r') \<Longrightarrow> rd_err r' = rd_err r"
  by (auto simp: reads)

lemma read_trailers_stall:
  "read_trailers (feed br bs) lm = Inr br' \<Longrightarrow>
     read_trailers br lm = Inl (rd_err br) \<or> (\<exists>br''. read_trailers br lm = Inr br'')"
proof (induction br lm rule: read_trailers.induct)
  case (1 br lm)
  from "1.prems" obtain t br1 where t: "readBoundedLine (feed br bs) (MaxHeaderLine lm) = Inr (t, br1)"
    "t = [] \<and> br' = br1 \<or> t \<noteq> [] \<and> read_trailers br1 lm = Inr br'" by (rule read_trailers_ok)
  from readBoundedLine_stall [OF t(1)] show ?case
  proof (elim disjE exE conjE)
    fix r'' assume l: "readBoundedLine br (MaxHeaderLine lm) = Inr (t, r'')" "br1 = feed r'' bs"
    then show ?case using t "1.IH" [OF l(1) refl] by (subst read_trailers.simps, subst (2) read_trailers.simps) auto
  qed (simp add: read_trailers.simps [of br])
qed

text \<open>The failures that say the peer stopped sending.\<close>

definition stalled_chunk :: "chunk_failure \<Rightarrow> bool" where
  "stalled_chunk f \<longleftrightarrow> f = ChunkWrapped NetTimeout
     \<or> f = ChunkPerr (perr StatusBadRequest ChunkNotTerminated)"

lemma read_chunk_stall:
  assumes "read_chunk (feed br bs) lm body = Inr (Chunk c br')" "rd_err br = NetTimeout"
    and "read_chunk br lm body = Inl f"
  shows "stalled_chunk f"
proof -
  from assms(1) obtain l br1 sz br2 where
    s: "readBoundedLine (feed br bs) (MaxHeaderLine lm) = Inr (l, br1)"
       "chunk_size l = (sz, None)" "0 < sz" "sz \<le> maxAlloc"
       "wrap64 (int (length body) + sz) \<le> MaxBodyBytes lm"
       "ReadFull br1 (nat sz) = Inr (c, br2)"
    by (rule read_chunk_ok)
  from readBoundedLine_stall [OF s(1)] show ?thesis
  proof (elim disjE exE conjE)
    assume "readBoundedLine br (MaxHeaderLine lm) = Inl (rd_err br)"
    then show ?thesis using assms by (auto simp: read_chunk_def stalled_chunk_def)
  next
    fix r1 assume r1: "readBoundedLine br (MaxHeaderLine lm) = Inr (l, r1)" "br1 = feed r1 bs"
    then have e: "rd_err r1 = NetTimeout" using assms by simp
    have "ReadFull r1 (nat sz) = Inl NetTimeout \<or> (\<exists>r2. ReadFull r1 (nat sz) = Inr (c, r2))"
      using ReadFull_stall [of r1 bs "nat sz"] s(6) r1 e by auto
    then show ?thesis
      using assms(3) r1 s by (auto simp: read_chunk_def stalled_chunk_def make_panics_def
          split: sum.splits if_splits)
  qed
qed

lemma read_last_chunk_stall:
  assumes "read_chunk (feed br bs) lm body = Inr (LastChunk br')" "rd_err br = NetTimeout"
    and "read_chunk br lm body = Inl f"
  shows "stalled_chunk f"
proof -
  from assms(1) obtain l where s: "readBoundedLine (feed br bs) (MaxHeaderLine lm) = Inr (l, br')"
    "chunk_size l = (0, None)" by (rule read_chunk_last)
  from readBoundedLine_stall [OF s(1)] s(2) assms(2,3) show ?thesis
    by (auto simp: read_chunk_def stalled_chunk_def)
qed

lemma readChunkedBody_loop_stall:
  assumes "readChunkedBody_loop (feed br bs) lm body = Inr (b, br')" "rd_err br = NetTimeout"
    and "readChunkedBody_loop br lm body = Inl f"
  shows "stalled_chunk f"
  using assms
proof (induction br lm body rule: readChunkedBody_loop.induct)
  case (1 br lm body)
  show ?case
  proof (cases "read_chunk br lm body")
    case (Inl f')
    then have f: "f' = f" using "1.prems"(3) by (simp add: readChunkedBody_loop.simps [of br])
    obtain st where "read_chunk (feed br bs) lm body = Inr st"
      using "1.prems"(1) by (cases "read_chunk (feed br bs) lm body")
        (auto simp: readChunkedBody_loop.simps [of "feed br bs"])
    then show ?thesis
      using Inl f "1.prems"(2) by (cases st) (auto intro: read_chunk_stall read_last_chunk_stall)
  next
    case (Inr st)
    show ?thesis
    proof (cases st)
      case (LastChunk br1)
      then have "rd_err br1 = NetTimeout" using Inr "1.prems"(2) by (auto elim: read_chunk_last)
      moreover have "read_chunk (feed br bs) lm body = Inr (LastChunk (feed br1 bs))"
        using Inr LastChunk by (simp add: read_chunk_last_feed)
      ultimately show ?thesis
        using "1.prems" Inr LastChunk read_trailers_stall [of br1 bs lm]
        by (auto simp: readChunkedBody_loop.simps [of br] readChunkedBody_loop.simps [of "feed br bs"]
            stalled_chunk_def split: sum.splits)
    next
      case (Chunk c br1)
      then have "rd_err br1 = NetTimeout"
        using Inr "1.prems"(2) after_chunk(1) [of br lm body c br1] by (auto simp: after_def)
      moreover have "read_chunk (feed br bs) lm body = Inr (Chunk c (feed br1 bs))"
        using Inr Chunk by (simp add: read_chunk_feed)
      ultimately show ?thesis
        using "1.prems" Inr Chunk
        by (intro "1.IH" [OF Inr Chunk])
           (auto simp: readChunkedBody_loop.simps [of br] readChunkedBody_loop.simps [of "feed br bs"])
    qed
  qed
qed

lemma parse_headers_stall:
  assumes "parse_headers (feed br bs) lm h t = Inr (h', br')" "rd_err br = NetTimeout"
    and "parse_headers br lm h t = Inl f"
  shows "f = Failed (perrc StatusBadRequest NetTimeout ReadingHeaders)"
  using assms
proof (induction br lm h t rule: parse_headers.induct)
  case (1 br lm h t)
  from "1.prems"(1) show ?case
  proof (cases rule: parse_headers_ok)
    case blank
    from readBoundedLine_stall [OF blank(1)] "1.prems" show ?thesis
      by (auto simp: parse_headers.simps [of br])
  next
    case (field l br1 name v)
    from readBoundedLine_stall [OF field(1)] show ?thesis
    proof (elim disjE exE conjE)
      fix r1 assume r1: "readBoundedLine br (MaxHeaderLine lm) = Inr (l, r1)" "br1 = feed r1 bs"
      have "parse_headers r1 lm (Headers_Add h name (TrimSpace v)) (t + int (length l)) = Inl f"
        using "1.prems"(3) r1 field by (simp add: parse_headers.simps [of br] Let_def)
      then show ?thesis
        using field(7) r1 "1.prems"(2)
        by (intro "1.IH" [OF r1(1) refl field(2,3) field(4) [symmetric] refl field(5) refl field(6)])
           auto
    qed (use "1.prems" in \<open>auto simp: parse_headers.simps [of br]\<close>)
  qed
qed

lemma parse_request_line_stall:
  assumes "parse_request_line uc (feed br bs) lm = Inr (x, br')" "rd_err br = NetTimeout"
    and "parse_request_line uc br lm = Inl f"
  shows "f = Failed (perrc StatusBadRequest NetTimeout ReadingRequestLine)"
proof -
  obtain m t p where x: "x = (m, t, p)" by (cases x)
  from assms(1) obtain line where
    l: "readBoundedLine (feed br bs) (MaxRequestLine lm) = Inr (line, br')"
    and ok: "Split (CHR '' '') line = [m, t, p]" "m \<in> set knownMethods"
      "p = ''HTTP/1.1'' \<or> p = ''HTTP/1.0''" "HasPrefix t ''/''"
    unfolding x request_line_ok by blast
  from readBoundedLine_stall [OF l] ok assms(2,3) show ?thesis
    by (auto simp: parse_request_line_def)
qed

lemma parse_body_stall:
  assumes "parse_body (feed br bs) lm h = Inr (b, br')" "rd_err br = NetTimeout"
    and "parse_body br lm h = Inl f"
  shows "\<exists>pe. f = Failed pe \<and> (cause pe = Some NetTimeout \<or> Reason pe = ChunkNotTerminated)"
proof (cases "Headers_ContainsToken h ''Transfer-Encoding'' ''chunked''")
  case True
  obtain g where g: "readChunkedBody_loop br lm [] = Inl g"
    using assms(3) True by (auto simp: parse_body_def readChunkedBody_def split: sum.splits)
  moreover have "readChunkedBody_loop (feed br bs) lm [] = Inr (b, br')"
    using assms(1) True by (auto simp: parse_body_def readChunkedBody_def
        split: sum.splits chunk_failure.splits)
  ultimately have "stalled_chunk g" using readChunkedBody_loop_stall assms(2) by blast
  then show ?thesis
    using assms(3) True g
    by (auto simp: parse_body_def readChunkedBody_def stalled_chunk_def perr_def perrc_def)
next
  case False
  show ?thesis
  proof (cases "Headers_Has h ''Content-Length''")
    case True
    obtain n ce where n: "ParseInt 10 (Headers_Get h ''Content-Length'') = (n, ce)"
      by (cases "ParseInt 10 (Headers_Get h ''Content-Length'')")
    have "ReadFull (feed br bs) (nat n) = Inr (b, br')"
      using assms(1) False True n by (auto simp: parse_body_def split: if_splits sum.splits)
    from ReadFull_stall [OF this] assms(2) show ?thesis
      using assms(1,3) False True n by (auto simp: parse_body_def perrc_def split: if_splits)
  qed (use assms False in \<open>auto simp: parse_body_def split: if_splits\<close>)
qed

text \<open>
  A request that stops arriving is recognised as such: if some continuation would complete it
  and the read deadline passes first, \<open>ParseRequest\<close> fails with the timeout as its cause (which the
  connection loop answers with 408). The one exception is a stall between the data of a chunk and
  its CRLF, where the source drops the cause, so the client is told 400 instead.
\<close>

theorem ParseRequest_stalled:
  assumes "ParseRequest uc (feed br bs) lm a = Inr (req, br')" "rd_err br = NetTimeout"
    and "ParseRequest uc br lm a = Inl f"
  shows "\<exists>pe. f = Failed pe \<and> (cause pe = Some NetTimeout \<or> Reason pe = ChunkNotTerminated)"
proof -
  from assms(1) obtain b1 b2 where
    st: "parse_request_line uc (feed br bs) lm = Inr ((Method req, RawTarget req, Proto req), b1)"
        "parse_headers b1 lm NewHeaders 0 = Inr (ReqHeaders req, b2)"
        "Proto req = ''HTTP/1.1'' \<longrightarrow> Headers_Has (ReqHeaders req) ''Host''"
        "parse_body b2 lm (ReqHeaders req) = Inr (ReqBody req, br')"
        "PathUnescape (fst (Cut (CHR ''?'') (RawTarget req))) = Some (Path req)"
        "ParseQuery (fst (snd (Cut (CHR ''?'') (RawTarget req)))) = Some (Query req)"
    unfolding ParseRequest_ok by blast
  show ?thesis
  proof (cases "parse_request_line uc br lm")
    case (Inl g)
    with parse_request_line_stall [OF st(1) assms(2) this] assms(3) show ?thesis
      by (auto simp: ParseRequest_def perrc_def)
  next
    case (Inr x)
    obtain m t p r1 where x: "x = ((m, t, p), r1)" by (metis prod.exhaust)
    from Inr x obtain line where "readBoundedLine br (MaxRequestLine lm) = Inr (line, r1)"
      by (auto simp: request_line_ok)
    note l = this readBoundedLine_feed [OF this, of bs]
    have eq: "m = Method req" "t = RawTarget req" "p = Proto req" "b1 = feed r1 bs" "rd_err r1 = NetTimeout"
      using Inr x st(1) l assms(2) by (auto simp: request_line_ok)
    show ?thesis
    proof (cases "parse_headers r1 lm NewHeaders 0")
      case h: (Inl g)
      with parse_headers_stall [OF _ eq(5) h, of bs "ReqHeaders req" b2] st(2) eq Inr x assms(3)
      show ?thesis by (auto simp: ParseRequest_def perrc_def)
    next
      case h: (Inr y)
      obtain h' r2 where y: "y = (h', r2)" by (cases y)
      from parse_headers_feed [OF h [unfolded y], of bs] st(2) eq
      have eq2: "h' = ReqHeaders req" "b2 = feed r2 bs" by auto
      have "rd_err r2 = NetTimeout"
        using after_headers [OF h [unfolded y]] eq by (auto simp: after_def)
      note pb = parse_body_stall [OF st(4) [unfolded eq2] this]
      obtain rp rq fd where cut: "Cut (CHR ''?'') (RawTarget req) = (rp, rq, fd)"
        by (metis prod.exhaust)
      then show ?thesis
      proof (cases "parse_body r2 lm (ReqHeaders req)")
        case (Inl g)
        then show ?thesis
          using pb [OF Inl] assms(3) \<open>parse_request_line uc br lm = Inr x\<close> x h y eq eq2 st(3)
          by (auto simp: ParseRequest_def)
      next
        case (Inr z)
        then show ?thesis
          using assms(3) \<open>parse_request_line uc br lm = Inr x\<close> x h y eq eq2 st cut
          by (cases z) (auto simp: ParseRequest_def)
      qed
    qed
  qed
qed

definition stalled_reader :: "bytes \<Rightarrow> Reader" where
  "stalled_reader d = \<lparr>rd_data = d, rd_err = NetTimeout, rd_size = 16384\<rparr>"

definition stalled_post :: bytes where
  "stalled_post = ''POST / HTTP/1.0'' @ CRLF @ ''Transfer-Encoding: chunked'' @ CRLF @ CRLF
     @ ''1'' @ CRLF @ ''x''"

lemma stalled_post_400:
  "ParseRequest id (stalled_reader stalled_post) DefaultLimits ''p''
     = Inl (Failed (perr StatusBadRequest ChunkNotTerminated))"
  by (simp add: go_eval stalled_reader_def stalled_post_def)

lemma stalled_post_completes:
  "case ParseRequest id (feed (stalled_reader stalled_post) (CRLF @ ''0'' @ CRLF @ CRLF))
     DefaultLimits ''p'' of Inl _ \<Rightarrow> False | Inr (req, _) \<Rightarrow> ReqBody req = ''x''"
  by (simp add: go_eval stalled_reader_def stalled_post_def feed_def)

theorem ParseRequest_stalled_witness:
  "\<exists>pe. ParseRequest id (stalled_reader stalled_post) DefaultLimits ''p'' = Inl (Failed pe)
     \<and> cause pe = None \<and> Reason pe = ChunkNotTerminated"
proof -
  obtain req br' where ok: "ParseRequest id
      (feed (stalled_reader stalled_post) (CRLF @ ''0'' @ CRLF @ CRLF)) DefaultLimits ''p'' = Inr (req, br')"
    using stalled_post_completes by (auto split: sum.splits)
  have "rd_err (stalled_reader stalled_post) = NetTimeout" by (simp add: stalled_reader_def)
  from ParseRequest_stalled [OF ok this stalled_post_400] stalled_post_400 show ?thesis
    by (auto simp: perr_def)
qed

section \<open>A truncated request line\<close>

text \<open>
  Whatever part of a request line has arrived, an end of file before its line feed is reported
  as \<open>errCleanClose\<close> and the connection is dropped without an answer: \<open>readBoundedLine\<close> returns the
  empty string beside every error, so the test for an empty line in \<open>ParseRequest\<close> never fails. The
  comment on \<open>errCleanClose\<close> reserves it for an end of file before the first byte.
\<close>

theorem truncated_request_line_is_clean_close:
  assumes "rd_err br = EOF" "LF \<notin> set (rd_data br)"
    and "int (length (rd_data br)) \<le> MaxRequestLine lm"
  shows "ParseRequest uc br lm a = Inl CleanClose"
  using assms
  by (simp add: ParseRequest_def parse_request_line_def readBoundedLine_unfold line_spec_def)

theorem truncated_request_line_is_clean_close_witness:
  "ParseRequest id (sample_reader ''GET / HT'') DefaultLimits ''p'' = Inl CleanClose"
  using truncated_request_line_is_clean_close [of "sample_reader ''GET / HT''" DefaultLimits id "''p''"]
  by (simp add: sample_reader_def DefaultLimits_def)

end
