(* ===== verification/Go_Time.thy ===== *)
theory Go_Time
  imports Go_Strconv
begin

text \<open>
  The two uses the program makes of \<open>time.Time.Format\<close>: the \<open>Date\<close> header of a response and the
  RFC 3339 time stamp of an access-log line. An instant is the number of nanoseconds since the
  Unix epoch, in UTC; the calendar is the proleptic Gregorian one, computed on 400-year eras of
  146097 days as the usual integer algorithm does.
\<close>

section \<open>Calendar fields\<close>

definition unix_days :: "instant \<Rightarrow> int" where
  "unix_days t = t div (86400 * Second)"

definition day_seconds :: "instant \<Rightarrow> int" where
  "day_seconds t = (t div Second) mod 86400"

definition month_day :: "int \<Rightarrow> int \<Rightarrow> int \<Rightarrow> int \<times> int \<times> int" where
  "month_day y doy mp =
     (if mp < 10 then (y, mp + 3, doy - (153 * mp + 2) div 5 + 1)
      else (y + 1, mp - 9, doy - (153 * mp + 2) div 5 + 1))"

definition year_day :: "int \<Rightarrow> int \<Rightarrow> int \<times> int \<times> int" where
  "year_day y doy = month_day y doy ((5 * doy + 2) div 153)"

definition era_year :: "int \<Rightarrow> int \<Rightarrow> int \<Rightarrow> int \<times> int \<times> int" where
  "era_year era doe yoe =
     year_day (yoe + era * 400) (doe - (365 * yoe + yoe div 4 - yoe div 100))"

definition era_day :: "int \<Rightarrow> int \<Rightarrow> int \<times> int \<times> int" where
  "era_day era doe =
     era_year era doe ((doe - doe div 1460 + doe div 36524 - doe div 146096) div 365)"

definition civil :: "int \<Rightarrow> int \<times> int \<times> int" where
  "civil days = era_day ((days + 719468) div 146097) ((days + 719468) mod 146097)"

definition day_names :: "bytes list" where
  "day_names = [''Thu'', ''Fri'', ''Sat'', ''Sun'', ''Mon'', ''Tue'', ''Wed'']"

definition month_names :: "bytes list" where
  "month_names = [''Jan'', ''Feb'', ''Mar'', ''Apr'', ''May'', ''Jun'',
                  ''Jul'', ''Aug'', ''Sep'', ''Oct'', ''Nov'', ''Dec'']"

text \<open>A number padded with zeros to a width, as the layout elements 02, 2006 and 15 print it.\<close>

definition pad0 :: "nat \<Rightarrow> int \<Rightarrow> bytes" where
  "pad0 w i =
     (let ds = fmt_nat 10 (nat \<bar>i\<bar>)
      in (if i < 0 then ''-'' else []) @ replicate (w - length ds) (CHR ''0'') @ ds)"

definition clock_text :: "int \<Rightarrow> bytes" where
  "clock_text s =
     pad0 2 (s div 3600) @ '':'' @ pad0 2 (s div 60 mod 60) @ '':'' @ pad0 2 (s mod 60)"

section \<open>The two layouts\<close>

text \<open>\<open>t.UTC().Format("Mon, 02 Jan 2006 15:04:05 GMT")\<close>\<close>

fun rfc1123_layout :: "int \<Rightarrow> int \<times> int \<times> int \<Rightarrow> int \<Rightarrow> bytes" where
  "rfc1123_layout days (y, m, d) s =
     day_names ! nat (days mod 7) @ '', '' @ pad0 2 d @ '' '' @ month_names ! nat ((m - 1) mod 12)
     @ '' '' @ pad0 4 y @ '' '' @ clock_text s @ '' GMT''"

definition http_date :: "instant \<Rightarrow> bytes" where
  "http_date t = rfc1123_layout (unix_days t) (civil (unix_days t)) (day_seconds t)"

text \<open>
  \<open>t.UTC().Format(time.RFC3339Nano)\<close>: the fraction loses its trailing zeros, and goes away when
  nothing is left.
\<close>

definition nano_fraction :: "bytes \<Rightarrow> bytes" where
  "nano_fraction ds =
     (if list_all (\<lambda>c. c = CHR ''0'') ds then []
      else CHR ''.'' # rev (dropWhile (\<lambda>c. c = CHR ''0'') (rev ds)))"

fun rfc3339_layout :: "int \<times> int \<times> int \<Rightarrow> int \<Rightarrow> int \<Rightarrow> bytes" where
  "rfc3339_layout (y, m, d) s ns =
     pad0 4 y @ ''-'' @ pad0 2 m @ ''-'' @ pad0 2 d @ ''T'' @ clock_text s
     @ nano_fraction (pad0 9 ns) @ ''Z''"

definition rfc3339_nano :: "instant \<Rightarrow> bytes" where
  "rfc3339_nano t = rfc3339_layout (civil (unix_days t)) (day_seconds t) (t mod Second)"

section \<open>Durations\<close>

text \<open>\<open>t.Sub(u)\<close> saturates; \<open>d.Microseconds()\<close> truncates towards zero.\<close>

definition time_Sub :: "instant \<Rightarrow> instant \<Rightarrow> duration" where
  "time_Sub t u = max MinInt64 (min MaxInt64 (t - u))"

definition go_div :: "int \<Rightarrow> int \<Rightarrow> int" where
  "go_div a b = sgn a * sgn b * (\<bar>a\<bar> div \<bar>b\<bar>)"

definition Microseconds :: "duration \<Rightarrow> int" where
  "Microseconds d = go_div d 1000"

text \<open>\<open>d.Seconds()\<close>: whole seconds plus the rest, each converted, divided and added in \<open>float64\<close>.\<close>

definition Seconds :: "(real \<Rightarrow> real) \<Rightarrow> duration \<Rightarrow> real" where
  "Seconds rnd d =
     rnd (rnd (of_int (go_div d Second)) + rnd (of_int (d - go_div d Second * Second) / of_int Second))"

lemma Microseconds_nonneg: "0 \<le> d \<Longrightarrow> Microseconds d = d div 1000"
  by (cases "d = 0") (simp_all add: Microseconds_def go_div_def)

lemma time_Sub_id: "u \<le> t \<Longrightarrow> t - u \<le> MaxInt64 \<Longrightarrow> time_Sub t u = t - u"
  by (simp add: time_Sub_def MinInt64_def)

lemmas time_defs [go_eval] =
  unix_days_def day_seconds_def month_day_def year_day_def era_year_def era_day_def
  civil_def day_names_def month_names_def pad0_def clock_text_def
  http_date_def nano_fraction_def rfc3339_nano_def time_Sub_def go_div_def
  Microseconds_def Seconds_def Second_def Minute_def Millisecond_def

section \<open>A date is fit for a header\<close>

lemma pad0_clean [simp]: "LF \<notin> set (pad0 w i)" "CR \<notin> set (pad0 w i)"
proof -
  have "LF \<notin> set (fmt_nat 10 n)" "CR \<notin> set (fmt_nat 10 n)" for n
    using fmt_nat_clean by blast+
  then show "LF \<notin> set (pad0 w i)" "CR \<notin> set (pad0 w i)" by (simp_all add: pad0_def Let_def)
qed

lemma clock_text_clean [simp]: "LF \<notin> set (clock_text s)" "CR \<notin> set (clock_text s)"
  by (simp_all add: clock_text_def)

lemma http_date_shape:
  "\<exists>c body. http_date t = c # body @ ''T'' \<and> c \<in> set ''TFSMW''
     \<and> LF \<notin> set body \<and> CR \<notin> set body"
proof -
  obtain y m d where c: "civil (unix_days t) = (y, m, d)" by (metis prod_cases3)
  let ?w = "nat (unix_days t mod 7)" and ?m = "nat ((m - 1) mod 12)"
  have w: "?w < 7" and m: "?m < 12" by (simp_all add: nat_less_iff)
  have "day_names ! ?w \<in> set day_names" using w by (intro nth_mem) (simp add: day_names_def)
  then obtain a b where dn: "day_names ! ?w = a # b" "a \<in> set ''TFSMW''" "LF \<notin> set b" "CR \<notin> set b"
    by (auto simp: day_names_def)
  have "month_names ! ?m \<in> set month_names" using m by (intro nth_mem) (simp add: month_names_def)
  then have mn: "LF \<notin> set (month_names ! ?m)" "CR \<notin> set (month_names ! ?m)"
    by (auto simp: month_names_def)
  show ?thesis
    by (rule exI [of _ a], rule exI [of _ "b @ '', '' @ pad0 2 d @ '' '' @ month_names ! ?m @ '' ''
          @ pad0 4 y @ '' '' @ clock_text (day_seconds t) @ '' GM''"])
       (use dn mn in \<open>simp add: http_date_def c\<close>)
qed

lemma http_date_clean: "LF \<notin> set (http_date t) \<and> CR \<notin> set (http_date t)"
  using http_date_shape [of t] by auto

end
