(* ===== verification/Http_Response.thy ===== *)
theory Http_Response
  imports Http_Headers Http_Status Go_Time
begin

text \<open>
  \<open>httpcore/response.go\<close>: the buffered response. A response writer is the Go struct as a record;
  the methods return the updated record. \<open>serialize\<close> gives the bytes it hands to the connection's
  writer together with the writer it leaves behind (it also edits the headers).
\<close>

section \<open>The response writer\<close>

record ResponseWriter =
  w_status :: int
  w_headers :: Headers
  w_body :: bytes
  isHead :: bool
  hijacked :: bool

definition NewResponseWriter :: ResponseWriter where
  "NewResponseWriter =
     \<lparr>w_status = StatusOK, w_headers = NewHeaders, w_body = [], isHead = False, hijacked = False\<rparr>"

definition w_WriteHeader :: "ResponseWriter \<Rightarrow> int \<Rightarrow> ResponseWriter" where
  "w_WriteHeader w s = (if hijacked w then w else w\<lparr>w_status := s\<rparr>)"

definition w_Write :: "ResponseWriter \<Rightarrow> bytes \<Rightarrow> ResponseWriter" where
  "w_Write w p = (if hijacked w then w else w\<lparr>w_body := w_body w @ p\<rparr>)"

definition w_WriteString :: "ResponseWriter \<Rightarrow> bytes \<Rightarrow> ResponseWriter" where
  "w_WriteString w s = w_Write w s"

text \<open>\<open>w.Header().Set(k, v)\<close>: the header table is reached through the writer and never frozen.\<close>

definition w_SetHeader :: "ResponseWriter \<Rightarrow> bytes \<Rightarrow> bytes \<Rightarrow> ResponseWriter" where
  "w_SetHeader w k v = w\<lparr>w_headers := Headers_Set (w_headers w) k v\<rparr>"

definition w_JSON :: "ResponseWriter \<Rightarrow> int \<Rightarrow> bytes \<Rightarrow> ResponseWriter" where
  "w_JSON w s payload =
     w_Write (w_SetHeader (w_WriteHeader w s) ''Content-Type'' ''application/json'') payload"

definition w_Error :: "ResponseWriter \<Rightarrow> int \<Rightarrow> bytes \<Rightarrow> ResponseWriter" where
  "w_Error w s msg =
     (if hijacked w then w
      else w_SetHeader (w\<lparr>w_status := s\<rparr>) ''Content-Type'' ''text/plain; charset=utf-8''
             \<lparr>w_body := Itoa s @ '' '' @ (if msg = [] then ReasonPhrase s else msg) @ [LF]\<rparr>)"

definition w_Hijack :: "ResponseWriter \<Rightarrow> ResponseWriter" where
  "w_Hijack w = w\<lparr>hijacked := True\<rparr>"

definition BodyLen :: "ResponseWriter \<Rightarrow> int" where
  "BodyLen w = int (length (w_body w))"

definition w_SetBody :: "ResponseWriter \<Rightarrow> bytes \<Rightarrow> ResponseWriter" where
  "w_SetBody w b = w\<lparr>w_body := b\<rparr>"

definition bodyless :: "int \<Rightarrow> bool" where
  "bodyless s \<longleftrightarrow> s = StatusNoContent \<or> s = StatusNotModified \<or> (s \<ge> 100 \<and> s < 200)"

section \<open>Serialisation\<close>

text \<open>The header edits of \<open>serialize\<close>, in the order the source makes them.\<close>

definition final_headers :: "instant \<Rightarrow> ResponseWriter \<Rightarrow> bool \<Rightarrow> Headers" where
  "final_headers now w keepAlive =
     (let h = w_headers w;
          h = (if Headers_Has h ''Date'' then h else Headers_Set h ''Date'' (http_date now));
          h = (if Headers_Has h ''Server'' then h else Headers_Set h ''Server'' ''PulseHTTP/1.0'');
          h = (if bodyless (w_status w) then Headers_Del h ''Content-Length''
               else Headers_Set h ''Content-Length'' (Itoa (int (length (w_body w)))))
      in Headers_Set h ''Connection'' (if keepAlive then ''keep-alive'' else ''close''))"

definition status_line :: "bytes \<Rightarrow> int \<Rightarrow> bytes" where
  "status_line proto s = proto @ '' '' @ Itoa s @ '' '' @ ReasonPhrase s @ CRLF"

definition wire_body :: "ResponseWriter \<Rightarrow> bytes" where
  "wire_body w = (if \<not> isHead w \<and> \<not> bodyless (w_status w) then w_body w else [])"

definition serialize :: "instant \<Rightarrow> ResponseWriter \<Rightarrow> bytes \<Rightarrow> bool \<Rightarrow> bytes \<times> ResponseWriter" where
  "serialize now w proto keepAlive =
     (let h = final_headers now w keepAlive
      in (status_line proto (w_status w) @ Headers_WriteTo h @ CRLF @ wire_body w,
          w\<lparr>w_headers := h\<rparr>))"

lemmas writer_defs [go_eval] =
  NewResponseWriter_def w_WriteHeader_def w_Write_def w_WriteString_def w_SetHeader_def w_JSON_def
  w_Error_def w_Hijack_def BodyLen_def w_SetBody_def bodyless_def

lemmas serialize_defs [go_eval] =
  final_headers_def status_line_def wire_body_def serialize_def

section \<open>Names the program uses\<close>

text \<open>The fixed header names of the program are canonical already (all but \<open>X-Request-ID\<close>).\<close>

lemma canonical_names [simp]:
  "canonical ''Date'' = ''Date''" "canonical ''Server'' = ''Server''"
  "canonical ''Content-Length'' = ''Content-Length''" "canonical ''Connection'' = ''Connection''"
  "canonical ''Content-Type'' = ''Content-Type''" "canonical ''Retry-After'' = ''Retry-After''"
  "canonical ''Allow'' = ''Allow''" "canonical ''X-Request-ID'' = ''X-Request-Id''"
  by code_simp+

section \<open>Well-formed writers\<close>

definition w_wf :: "ResponseWriter \<Rightarrow> bool" where
  "w_wf w \<longleftrightarrow> hdr_wf (w_headers w)"

named_theorems writer_inv \<open>operations that keep a response writer well formed\<close>

lemma w_wf_New [writer_inv]: "w_wf NewResponseWriter"
  by (simp add: w_wf_def NewResponseWriter_def hdr_inv)

lemma w_wf_ops [writer_inv]:
  assumes "w_wf w"
  shows "w_wf (w_WriteHeader w s)" "w_wf (w_Write w p)" "w_wf (w_SetHeader w k v)"
    "w_wf (w_JSON w s p)" "w_wf (w_Error w s p)" "w_wf (w_Hijack w)" "w_wf (w_SetBody w p)"
  using assms by (simp_all add: w_wf_def writer_defs hdr_inv)

lemma Values_Set:
  "Headers_Values (Headers_Set h k v) k' = (if canonical k = canonical k' then [v] else Headers_Values h k')"
  by (auto simp: Headers_Values_def hdr_ops map_slice_def)

lemma Values_Del:
  "Headers_Values (Headers_Del h k) k' = (if canonical k = canonical k' then [] else Headers_Values h k')"
  by (auto simp: Headers_Values_def hdr_ops map_slice_def)

lemma final_headers_wf [hdr_inv]: "w_wf w \<Longrightarrow> hdr_wf (final_headers now w ka)"
  by (auto simp: final_headers_def Let_def w_wf_def intro!: hdr_inv)



datatype writer_op = OpWriteHeader int | OpWrite bytes | OpJSON int bytes | OpError int bytes | OpSetHeader bytes bytes

fun apply_op :: "ResponseWriter \<Rightarrow> writer_op \<Rightarrow> ResponseWriter" where
  "apply_op w (OpWriteHeader s) = w_WriteHeader w s"
| "apply_op w (OpWrite p) = w_Write w p"
| "apply_op w (OpJSON s p) = w_JSON w s p"
| "apply_op w (OpError s m) = w_Error w s m"
| "apply_op w (OpSetHeader k v) = w_SetHeader w k v"

lemma frozen_op:
  "hijacked w \<Longrightarrow> hijacked (apply_op w x) \<and> w_status (apply_op w x) = w_status w
     \<and> w_body (apply_op w x) = w_body w \<and> isHead (apply_op w x) = isHead w"
  by (cases x) (simp_all add: writer_defs)

text \<open>
  Hijacking freezes a response: after \<open>Hijack\<close> no sequence of writes, status changes, JSON
  payloads or errors alters the status or the body that goes out.
\<close>

theorem Hijack_freezes:
  "w_status (foldl apply_op (w_Hijack w) ops) = w_status w
     \<and> w_body (foldl apply_op (w_Hijack w) ops) = w_body w
     \<and> wire_body (foldl apply_op (w_Hijack w) ops) = wire_body w"
proof -
  let ?P = "\<lambda>v. hijacked v \<and> w_status v = w_status w \<and> w_body v = w_body w \<and> isHead v = isHead w"
  have "?P (w_Hijack w)" by (simp add: w_Hijack_def)
  then have "?P (foldl apply_op (w_Hijack w) ops)"
  proof (induction ops rule: rev_induct)
    case (snoc x xs)
    then show ?case using frozen_op [of "foldl apply_op (w_Hijack w) xs" x] by simp
  qed simp
  then show ?thesis by (simp add: wire_body_def)
qed

end
