(* ===== verification/Go_Json.thy ===== *)
theory Go_Json
  imports Go_Strconv
begin

text \<open>
  What the program uses of \<open>encoding/json\<close>: \<open>json.Marshal\<close> of strings, integers, booleans, lists and
  objects whose member order is given. Strings are written as the default encoder does: quotes,
  backslashes and control bytes are escaped, and so are the three HTML-sensitive characters and
  the two Unicode line separators; a byte that starts no UTF-8 sequence becomes the replacement
  character.
\<close>

section \<open>Strings\<close>

definition cont_byte :: "nat \<Rightarrow> nat \<Rightarrow> char \<Rightarrow> bool" where
  "cont_byte lo hi c \<longleftrightarrow> lo \<le> of_char c \<and> of_char c \<le> hi"

text \<open>The length of the UTF-8 sequence at the head of a string; 0 when there is none.\<close>

definition lead_size :: "nat \<Rightarrow> nat" where
  "lead_size n =
     (if n < 128 then 1 else if n < 194 then 0 else if n < 224 then 2
      else if n < 240 then 3 else if n < 245 then 4 else 0)"

definition second_byte :: "nat \<Rightarrow> char \<Rightarrow> bool" where
  "second_byte n =
     cont_byte (if n = 224 then 160 else if n = 240 then 144 else 128)
               (if n = 237 then 159 else if n = 244 then 143 else 191)"

fun utf8_size :: "bytes \<Rightarrow> nat" where
  "utf8_size [] = 0"
| "utf8_size [a] = (if lead_size (of_char a) = 1 then 1 else 0)"
| "utf8_size (a # b # cs) =
     (if lead_size (of_char a) \<le> 1 then lead_size (of_char a)
      else if length cs < lead_size (of_char a) - 2 then 0
      else if second_byte (of_char a) b
                \<and> list_all (cont_byte 128 191) (take (lead_size (of_char a) - 2) cs)
        then lead_size (of_char a) else 0)"

definition hex2 :: "nat \<Rightarrow> bytes" where
  "hex2 n = [digit_char (n div 16), digit_char (n mod 16)]"

definition json_escape :: "char \<Rightarrow> bytes" where
  "json_escape c =
     (if c = CHR 0x22 \<or> c = CHR 0x5C then [CHR 0x5C, c]
      else if c = LF then [CHR 0x5C, CHR ''n'']
      else if c = CR then [CHR 0x5C, CHR ''r'']
      else if c = HT then [CHR 0x5C, CHR ''t'']
      else if c = CHR 0x08 then [CHR 0x5C, CHR ''b'']
      else if c = CHR 0x0C then [CHR 0x5C, CHR ''f'']
      else if of_char c < (32 :: nat) \<or> c \<in> set ''<>&''
        then CHR 0x5C # ''u00'' @ hex2 (of_char c)
      else [c])"

definition line_separator :: "bytes \<Rightarrow> bool" where
  "line_separator s \<longleftrightarrow> s = [CHR 0xE2, CHR 0x80, CHR 0xA8] \<or> s = [CHR 0xE2, CHR 0x80, CHR 0xA9]"

function json_chars :: "bytes \<Rightarrow> bytes" where
  "json_chars [] = []"
| "json_chars (c # cs) =
     (let n = utf8_size (c # cs); seq = take n (c # cs)
      in if is_ascii c then json_escape c @ json_chars cs
         else if n = 0 then CHR 0x5C # ''ufffd'' @ json_chars cs
         else if line_separator seq
           then CHR 0x5C # ''u202'' @ [digit_char (of_char (last seq) mod 16)] @ json_chars (drop (n - 1) cs)
         else seq @ json_chars (drop (n - 1) cs))"
  by pat_completeness auto

termination
  by (relation "measure length") auto

definition json_string :: "bytes \<Rightarrow> bytes" where
  "json_string s = CHR 0x22 # json_chars s @ [CHR 0x22]"

section \<open>Values\<close>

datatype json =
    JString bytes
  | JInt int
  | JBool bool
  | JArr "json list"
  | JObj "(bytes \<times> json) list"

fun json_Marshal :: "json \<Rightarrow> bytes" where
  "json_Marshal (JString s) = json_string s"
| "json_Marshal (JInt i) = Itoa i"
| "json_Marshal (JBool b) = (if b then ''true'' else ''false'')"
| "json_Marshal (JArr vs) = CHR ''['' # Join (map json_Marshal vs) '','' @ '']''"
| "json_Marshal (JObj ms) =
     CHR ''{'' # Join (map (\<lambda>(k, v). json_string k @ '':'' @ json_Marshal v) ms) '','' @ ''}''"

lemmas json_defs [go_eval] =
  cont_byte_def lead_size_def second_byte_def hex2_def json_escape_def line_separator_def json_string_def

section \<open>Marshalled text holds no control byte\<close>

definition printable :: "char \<Rightarrow> bool" where
  "printable c \<longleftrightarrow> \<not> of_char c < (32 :: nat)"

lemma printable_not_break: "printable c \<Longrightarrow> c \<noteq> LF \<and> c \<noteq> CR"
  by (auto simp: printable_def)

lemma printable_digit [simp]: "printable (digit_char d)"
proof -
  have "list_all (\<lambda>d. printable (digit_char d)) [0..<16]" by code_simp
  then have "printable (digit_char (d mod 16))" by (simp add: list_all_iff)
  then show ?thesis by (simp add: digit_char_def)
qed

lemma printable_lits [simp]:
  "printable (CHR 0x5C)" "printable (CHR 0x22)" "list_all printable ''nrtbf''"
  "list_all printable ''ufffd''" "list_all printable ''u202''" "list_all printable ''[]{},:''"
  by (simp_all add: printable_def)

lemma printable_escape: "list_all printable (json_escape c)"
  using printable_lits by (simp add: json_escape_def hex2_def) (simp add: printable_def)

lemma printable_wide: "\<not> is_ascii c \<Longrightarrow> printable c"
  by (simp add: is_ascii_def printable_def)

lemma printable_cont: "cont_byte 128 191 c \<Longrightarrow> printable c" "second_byte n c \<Longrightarrow> printable c"
  by (auto simp: second_byte_def cont_byte_def printable_def split: if_splits)

lemma utf8_wide:
  assumes "\<not> is_ascii c" shows "list_all printable (take (utf8_size (c # cs)) (c # cs))"
proof (cases cs)
  case Nil
  then show ?thesis using assms by (simp add: printable_wide)
next
  case (Cons d ds)
  show ?thesis
  proof (cases "utf8_size (c # cs) \<le> 1")
    case True
    then show ?thesis using assms by (simp add: take_Cons' printable_wide)
  next
    case False
    then obtain k where k: "utf8_size (c # cs) = Suc (Suc k)"
      by (metis One_nat_def not0_implies_Suc not_less_eq_eq zero_le zero_less_one_class.zero_le_one)
    with False Cons have "second_byte (of_char c) d" "list_all (cont_byte 128 191) (take k ds)"
      by (simp_all split: if_splits)
    with assms k Cons show ?thesis
      by (auto simp: printable_wide printable_cont list_all_iff)
  qed
qed

lemma printable_json_chars: "list_all printable (json_chars s)"
proof (induction s rule: json_chars.induct)
  case (2 c cs)
  from 2 utf8_wide [of c cs] printable_escape [of c] printable_lits show ?case
    by (simp add: Let_def del: utf8_size.simps)
qed simp

lemma printable_Join:
  "list_all printable sep \<Longrightarrow> \<forall>s \<in> set ss. list_all printable s \<Longrightarrow> list_all printable (Join ss sep)"
  by (induction ss sep rule: Join.induct) auto

lemma printable_Itoa: "list_all printable (Itoa i)"
  using fmt_nat_chars printable_digit
  by (fastforce simp: Itoa_def list_all_iff printable_def)

lemma printable_json: "list_all printable (json_Marshal j)"
proof (induction j)
  case (JObj ms)
  then show ?case
    by (auto simp: json_string_def printable_json_chars intro!: printable_Join) (auto simp: printable_def)
qed (auto simp: json_string_def printable_json_chars printable_Itoa intro!: printable_Join,
     auto simp: printable_def)

end
