(* ===== verification/Http_Middleware.thy ===== *)
theory Http_Middleware
  imports Http_Request Http_Response Go_Json
begin

text \<open>
  \<open>httpcore.Handler\<close> and \<open>middleware/middleware.go\<close>: what a handler is, how middlewares compose
  (\<open>Chain\<close>), and the three that keep no state of their own: \<open>Recover\<close>, \<open>RequestID\<close> and \<open>Logging\<close>.

  A handler maps a request, a response writer and the world to an outcome and the three after it;
  a panic is the outcome \<open>Panicked\<close>, with whatever had been written by then. The world holds what
  the process reaches through pointers and the operating system: the clock and the source of
  randomness (functions of how often they have been read), the standard output, and one slot for
  the state of each stateful component. The type of a slot is a parameter, so each component's
  theory fixes its own and leaves the others open.
\<close>

section \<open>Handlers and the world\<close>

datatype outcome = Returned | Panicked

type_synonym 'g result = "outcome \<times> Request \<times> ResponseWriter \<times> 'g"
type_synonym 'g handler = "Request \<Rightarrow> ResponseWriter \<Rightarrow> 'g \<Rightarrow> 'g result"

record ('m, 'r, 'c, 'p) world =
  clock :: "nat \<Rightarrow> instant"
  ticks :: nat
  entropy :: "nat \<Rightarrow> bytes"
  draws :: nat
  stdout :: bytes
  registry :: 'm
  limiter :: 'r
  store :: 'c
  pool :: 'p

definition time_Now :: "('m, 'r, 'c, 'p) world \<Rightarrow> instant \<times> ('m, 'r, 'c, 'p) world" where
  "time_Now g = (clock g (ticks g), g\<lparr>ticks := Suc (ticks g)\<rparr>)"

text \<open>\<open>rand.Read\<close> into a six-byte array.\<close>

definition rand_Read :: "nat \<Rightarrow> ('m, 'r, 'c, 'p) world \<Rightarrow> bytes \<times> ('m, 'r, 'c, 'p) world" where
  "rand_Read n g = (take n (entropy g (draws g)), g\<lparr>draws := Suc (draws g)\<rparr>)"

text \<open>What runs after a call of \<open>next\<close> runs only when the call returns: a panic unwinds past it.\<close>

fun and_then :: "'g result \<Rightarrow> 'g handler \<Rightarrow> 'g result" where
  "and_then (Returned, req, w, g) k = k req w g"
| "and_then (Panicked, req, w, g) k = (Panicked, req, w, g)"

section \<open>Chain, Recover, RequestID, Logging\<close>

definition Chain :: "'g handler \<Rightarrow> ('g handler \<Rightarrow> 'g handler) list \<Rightarrow> 'g handler" where
  "Chain h mws = foldl (\<lambda>h mw. mw h) h (rev mws)"

fun recovered :: "'g result \<Rightarrow> 'g result" where
  "recovered (Panicked, req, w, g) =
     (Returned, req, w_Error w StatusInternalServerError ''internal error'', g)"
| "recovered r = r"

definition Recover :: "'g handler \<Rightarrow> 'g handler" where
  "Recover next req w g = recovered (next req w g)"

definition hex_EncodeToString :: "bytes \<Rightarrow> bytes" where
  "hex_EncodeToString bs = concat (map (\<lambda>c. hex2 (of_char c)) bs)"

definition stamp_id :: "('m, 'r, 'c, 'p) world handler \<Rightarrow> bytes \<Rightarrow> ('m, 'r, 'c, 'p) world handler" where
  "stamp_id next i req w =
     next (req\<lparr>Meta := (Meta req)(''request_id'' \<mapsto> MetaString i)\<rparr>) (w_SetHeader w ''X-Request-ID'' i)"

definition RequestID :: "('m, 'r, 'c, 'p) world handler \<Rightarrow> ('m, 'r, 'c, 'p) world handler" where
  "RequestID next req w g =
     (let i = Headers_Get (ReqHeaders req) ''X-Request-ID''
      in if i = [] then (case rand_Read 6 g of (b, g) \<Rightarrow> stamp_id next (hex_EncodeToString b) req w g)
         else stamp_id next i req w g)"

record accessRecord =
  lg_Time :: bytes
  lg_RequestID :: bytes
  lg_Remote :: bytes
  lg_Method :: bytes
  lg_Target :: bytes
  lg_Status :: int
  lg_Bytes :: int
  lg_DurMicros :: int
  lg_UserAgent :: bytes

text \<open>The JSON shape the struct tags give; \<open>omitempty\<close> drops an empty id and user agent.\<close>

definition access_json :: "accessRecord \<Rightarrow> json" where
  "access_json r = JObj
     ([(''ts'', JString (lg_Time r))]
      @ (if lg_RequestID r = [] then [] else [(''request_id'', JString (lg_RequestID r))])
      @ [(''remote'', JString (lg_Remote r)), (''method'', JString (lg_Method r)),
         (''target'', JString (lg_Target r)), (''status'', JInt (lg_Status r)),
         (''bytes'', JInt (lg_Bytes r)), (''dur_us'', JInt (lg_DurMicros r))]
      @ (if lg_UserAgent r = [] then [] else [(''ua'', JString (lg_UserAgent r))]))"

definition meta_string :: "meta_value option \<Rightarrow> bytes" where
  "meta_string v = (case v of Some (MetaString s) \<Rightarrow> s | _ \<Rightarrow> [])"

definition access_record :: "instant \<Rightarrow> instant \<Rightarrow> Request \<Rightarrow> ResponseWriter \<Rightarrow> accessRecord" where
  "access_record start fin req w =
     \<lparr>lg_Time = rfc3339_nano start, lg_RequestID = meta_string (Meta req ''request_id''),
      lg_Remote = RemoteAddr req, lg_Method = Method req, lg_Target = RawTarget req,
      lg_Status = w_status w, lg_Bytes = BodyLen w,
      lg_DurMicros = Microseconds (time_Sub fin start),
      lg_UserAgent = Headers_Get (ReqHeaders req) ''User-Agent''\<rparr>"

definition write_log :: "instant \<Rightarrow> ('m, 'r, 'c, 'p) world handler" where
  "write_log start req w g =
     (case time_Now g of (fin, g) \<Rightarrow>
        (Returned, req, w,
         g\<lparr>stdout := stdout g @ json_Marshal (access_json (access_record start fin req w)) @ [LF]\<rparr>))"

definition Logging :: "('m, 'r, 'c, 'p) world handler \<Rightarrow> ('m, 'r, 'c, 'p) world handler" where
  "Logging next req w g =
     (case time_Now g of (start, g) \<Rightarrow> and_then (next req w g) (write_log start))"

lemmas middleware_defs [go_eval] =
  time_Now_def rand_Read_def Chain_def Recover_def hex_EncodeToString_def stamp_id_def RequestID_def
  access_json_def meta_string_def access_record_def write_log_def Logging_def

section \<open>The contract every handler keeps\<close>

text \<open>
  A handler is well behaved when it leaves alone what the server reads after it: the
  head and body of the request, the HEAD flag of the writer, and the shape of the header table.
\<close>

definition same_head :: "Request \<Rightarrow> Request \<Rightarrow> bool" where
  "same_head a b \<longleftrightarrow> Method a = Method b \<and> RawTarget a = RawTarget b \<and> Path a = Path b
     \<and> Proto a = Proto b \<and> Query a = Query b \<and> ReqHeaders a = ReqHeaders b \<and> ReqBody a = ReqBody b
     \<and> RemoteAddr a = RemoteAddr b"

definition sound :: "Request \<Rightarrow> ResponseWriter \<Rightarrow> 'g result \<Rightarrow> bool" where
  "sound req w r \<longleftrightarrow>
     (case r of (ou, req', w', g') \<Rightarrow>
        same_head req' req \<and> isHead w' = isHead w \<and> (w_wf w \<longrightarrow> w_wf w'))"

definition well_behaved :: "'g handler \<Rightarrow> bool" where
  "well_behaved h \<longleftrightarrow> (\<forall>req w g. sound req w (h req w g))"

lemma well_behavedI: "(\<And>req w g. sound req w (h req w g)) \<Longrightarrow> well_behaved h"
  by (simp add: well_behaved_def)

lemma well_behavedD: "well_behaved h \<Longrightarrow> sound req w (h req w g)"
  by (simp add: well_behaved_def)

lemma same_head_refl [simp]: "same_head a a"
  by (simp add: same_head_def)

lemma same_head_trans: "same_head a b \<Longrightarrow> same_head b c \<Longrightarrow> same_head a c"
  by (simp add: same_head_def)

lemma same_head_update [simp]:
  "same_head (a\<lparr>Meta := m\<rparr>) b = same_head a b" "same_head (a\<lparr>PathParams := p\<rparr>) b = same_head a b"
  "same_head b (a\<lparr>Meta := m\<rparr>) = same_head b a" "same_head b (a\<lparr>PathParams := p\<rparr>) = same_head b a"
  by (simp_all add: same_head_def)

lemma sound_Returned:
  "same_head req' req \<Longrightarrow> isHead w' = isHead w \<Longrightarrow> (w_wf w \<Longrightarrow> w_wf w') \<Longrightarrow> sound req w (ou, req', w', g)"
  by (simp add: sound_def)

lemma sound_trans:
  "sound req' w' r \<Longrightarrow> same_head req' req \<Longrightarrow> isHead w' = isHead w \<Longrightarrow> (w_wf w \<Longrightarrow> w_wf w') \<Longrightarrow>
     sound req w r"
  by (auto simp: sound_def intro: same_head_trans split: prod.splits)

lemma sound_and_then:
  assumes "sound req w r" and "\<And>req' w' g'. sound req' w' (k req' w' g')"
  shows "sound req w (and_then r k)"
proof -
  obtain ou q v g where r: "r = (ou, q, v, g)" by (metis prod_cases4)
  show ?thesis
  proof (cases ou)
    case Returned
    have "same_head q req" "isHead v = isHead w" "w_wf w \<Longrightarrow> w_wf v"
      using assms(1) r by (auto simp: sound_def)
    then show ?thesis using sound_trans [OF assms(2) [of q v g]] r Returned by simp
  qed (use assms(1) r in simp)
qed

lemma writer_isHead [simp]:
  "isHead (w_WriteHeader w s) = isHead w" "isHead (w_Write w p) = isHead w"
  "isHead (w_SetHeader w k v) = isHead w" "isHead (w_JSON w s p) = isHead w"
  "isHead (w_Error w s m) = isHead w" "isHead (w_Hijack w) = isHead w" "isHead (w_SetBody w p) = isHead w"
  by (simp_all add: writer_defs)

text \<open>A middleware is a handler transformer that passes the contract on.\<close>

locale middleware =
  fixes mw :: "'g handler \<Rightarrow> 'g handler"
  assumes wraps: "well_behaved h \<Longrightarrow> well_behaved (mw h)"
begin

lemma well_behaved_twice: "well_behaved h \<Longrightarrow> well_behaved (mw (mw h))"
  by (simp add: wraps)

lemma keeps_request:
  "well_behaved h \<Longrightarrow> mw h req w g = (ou, req', w', g') \<Longrightarrow> same_head req' req \<and> isHead w' = isHead w"
  using wraps [THEN well_behavedD, of h req w g] by (simp add: sound_def)

end

lemma Recover_well_behaved: "well_behaved h \<Longrightarrow> well_behaved (Recover h)"
proof (rule well_behavedI)
  fix req w and g :: 'a
  assume "well_behaved h"
  then have "sound req w (h req w g)" by (rule well_behavedD)
  then show "sound req w (Recover h req w g)"
    unfolding Recover_def by (cases "h req w g" rule: recovered.cases) (auto simp: sound_def writer_inv)
qed

lemma RequestID_well_behaved: "well_behaved h \<Longrightarrow> well_behaved (RequestID h)"
  by (rule well_behavedI)
     (auto simp: RequestID_def stamp_id_def rand_Read_def Let_def writer_inv
        intro: sound_trans [OF well_behavedD])

lemma write_log_sound: "sound req w (write_log start req w g)"
  by (simp add: write_log_def time_Now_def sound_def)

lemma Logging_well_behaved: "well_behaved h \<Longrightarrow> well_behaved (Logging h)"
  by (rule well_behavedI)
     (simp add: Logging_def time_Now_def sound_and_then write_log_sound well_behavedD)

interpretation recover: middleware Recover
  by unfold_locales (rule Recover_well_behaved)

interpretation request_id: middleware RequestID
  by unfold_locales (rule RequestID_well_behaved)

interpretation logging: middleware Logging
  by unfold_locales (rule Logging_well_behaved)

lemma Chain_foldr: "Chain h mws = foldr (\<lambda>mw h. mw h) mws h"
  by (simp add: Chain_def foldl_conv_foldr)

lemma Chain_well_behaved: "well_behaved h \<Longrightarrow> \<forall>mw \<in> set mws. middleware mw \<Longrightarrow> well_behaved (Chain h mws)"
  unfolding Chain_foldr by (induction mws) (auto simp: middleware_def)

section \<open>Properties\<close>

text \<open>
  \<open>Chain\<close> puts the first middleware outermost, and composing chains composes them in that order.
\<close>

theorem Chain_order:
  "Chain h [] = h \<and> Chain h (mw # mws) = mw (Chain h mws) \<and> Chain h (xs @ ys) = Chain (Chain h ys) xs"
  by (simp add: Chain_foldr)

text \<open>
  \<open>Recover\<close> isolates panics: the wrapped handler never panics, a handler that returns is passed
  through unchanged, and one that panics is answered with the plain-text 500 in place of whatever
  it had written, unless the response had been frozen by \<open>Hijack\<close> before, which then goes out as it was.
\<close>

theorem Recover_isolates:
  "fst (Recover h req w g) = Returned
    \<and> (fst (h req w g) = Returned \<longrightarrow> Recover h req w g = h req w g)
    \<and> (\<forall>req' w' g'. h req w g = (Panicked, req', w', g') \<longrightarrow>
         (\<exists>w''. Recover h req w g = (Returned, req', w'', g')
            \<and> (hijacked w' \<longrightarrow> w'' = w')
            \<and> (\<not> hijacked w' \<longrightarrow> w_status w'' = 500 \<and> w_body w'' = ''500 internal error'' @ [LF])))"
proof -
  obtain ou q v g' where r: "h req w g = (ou, q, v, g')" by (metis prod_cases4)
  show ?thesis
    by (cases ou) (simp_all add: Recover_def r w_Error_def w_SetHeader_def strconv_defs fmt_nat.simps)
qed

definition sample_request :: "bytes \<Rightarrow> bytes \<Rightarrow> Request" where
  "sample_request m p =
     \<lparr>Method = m, RawTarget = p, Path = p, Proto = ''HTTP/1.1'', Query = Map.empty, ReqHeaders = NewHeaders,
      ReqBody = [], RemoteAddr = ''10.0.0.7:4242'', PathParams = Map.empty, Meta = Map.empty\<rparr>"

theorem Recover_isolates_witness:
  "\<exists>q w'' g. Recover (\<lambda>req w g. (Panicked, req, w_WriteString w ''half'', g)) (sample_request ''GET'' ''/'')
        NewResponseWriter () = (Returned, q, w'', g) \<and> w_status w'' = 500"
  using Recover_isolates [of "\<lambda>req w g. (Panicked, req, w_WriteString w ''half'', g)"
      "sample_request ''GET'' ''/''" NewResponseWriter "()"]
  by (auto simp: writer_defs)

text \<open>
  C35. One request, one log line: whatever bytes the request carries (a target or a user agent
  with quotes, control characters or broken UTF-8), \<open>Logging\<close> adds exactly one line to the log, with no
  line break or other control byte inside it; and a handler that panics through it leaves no line.
\<close>

theorem Logging_one_line:
  assumes "h req w (g\<lparr>ticks := Suc (ticks g)\<rparr>) = (ou, req', w', g')"
  shows "ou = Panicked \<and> Logging h req w g = (Panicked, req', w', g')
    \<or> ou = Returned \<and> (\<exists>line g''. Logging h req w g = (Returned, req', w', g'')
         \<and> stdout g'' = stdout g' @ line @ [LF] \<and> list_all printable line \<and> LF \<notin> set line
         \<and> line = json_Marshal (access_json
                    (access_record (clock g (ticks g)) (clock g' (ticks g')) req' w')))"
proof -
  have "LF \<notin> set (json_Marshal j)" for j
    using printable_json [of j] printable_not_break by (auto simp: list_all_iff)
  then show ?thesis
    using assms by (cases ou) (simp_all add: Logging_def time_Now_def write_log_def printable_json)
qed

definition sample_world :: "'m \<Rightarrow> 'r \<Rightarrow> 'c \<Rightarrow> 'p \<Rightarrow> ('m, 'r, 'c, 'p) world" where
  "sample_world m r c p =
     \<lparr>clock = (\<lambda>n. 1700000000 * Second + int n * Millisecond), ticks = 0, entropy = (\<lambda>_. ''abcdef''),
      draws = 0, stdout = [], registry = m, limiter = r, store = c, pool = p\<rparr>"

lemmas sample_world_defs [go_eval] = sample_request_def sample_world_def

theorem Logging_one_line_witness:
  "\<exists>line g. Logging (\<lambda>req w g. (Returned, req, w_Write w ''hi'', g)) (sample_request ''GET'' [CHR ''/'', LF])
        NewResponseWriter (sample_world () () () ()) = (Returned, sample_request ''GET'' [CHR ''/'', LF],
          w_Write NewResponseWriter ''hi'', g)
      \<and> stdout g = line @ [LF] \<and> LF \<notin> set line"
  using Logging_one_line [of "\<lambda>req w g. (Returned, req, w_Write w ''hi'', g)"
      "sample_request ''GET'' [CHR ''/'', LF]" NewResponseWriter "sample_world () () () ()", OF refl]
  by (auto simp: sample_world_def)

definition is_hex_digit :: "char \<Rightarrow> bool" where
  "is_hex_digit c \<longleftrightarrow> c \<in> set ''0123456789abcdef''"

lemma hex_encode: "length (hex_EncodeToString bs) = 2 * length bs \<and> list_all is_hex_digit (hex_EncodeToString bs)"
proof -
  have "list_all (\<lambda>d. is_hex_digit (digit_char d)) [0..<16]" by code_simp
  then have "is_hex_digit (digit_char (d mod 16))" for d by (simp add: list_all_iff)
  then have "is_hex_digit (digit_char d)" for d by (simp add: digit_char_def)
  then show ?thesis by (induction bs) (simp_all add: hex_EncodeToString_def hex2_def)
qed

text \<open>
  Every exchange has an id: \<open>RequestID\<close> runs the handler with one id in the request's metadata
  (where the log finds it) and in the \<open>X-Request-ID\<close> response header. The id is the client's own
  when it sent one, and otherwise twelve hexadecimal digits.
\<close>

theorem RequestID_stamps:
  assumes "length (entropy g (draws g)) \<ge> 6"
  shows "\<exists>i req' w' g'. RequestID h req w g = h req' w' g'
    \<and> req' = req\<lparr>Meta := (Meta req)(''request_id'' \<mapsto> MetaString i)\<rparr>
    \<and> Headers_Values (w_headers w') ''X-Request-ID'' = [i]
    \<and> (if Headers_Get (ReqHeaders req) ''X-Request-ID'' = [] then length i = 12 \<and> list_all is_hex_digit i
       else i = Headers_Get (ReqHeaders req) ''X-Request-ID'' \<and> g' = g)"
proof (cases "Headers_Get (ReqHeaders req) ''X-Request-ID'' = []")
  case True
  let ?b = "take 6 (entropy g (draws g))"
  have "length (hex_EncodeToString ?b) = 12" using hex_encode [of ?b] assms by simp
  with True hex_encode [of ?b] show ?thesis
    by (intro exI [of _ "hex_EncodeToString ?b"] exI [of _ "g\<lparr>draws := Suc (draws g)\<rparr>"]
          exI [of _ "w_SetHeader w ''X-Request-ID'' (hex_EncodeToString ?b)"] exI)
       (simp add: RequestID_def rand_Read_def stamp_id_def w_SetHeader_def Values_Set)
next
  case False
  let ?i = "Headers_Get (ReqHeaders req) ''X-Request-ID''"
  from False show ?thesis
    by (intro exI [of _ ?i] exI [of _ g] exI [of _ "w_SetHeader w ''X-Request-ID'' ?i"] exI)
       (simp add: RequestID_def stamp_id_def w_SetHeader_def Values_Set Let_def)
qed

theorem RequestID_stamps_witness:
  "\<exists>i req' w' g'. RequestID (\<lambda>req w g. (Returned, req, w, g)) (sample_request ''GET'' ''/'') NewResponseWriter
        (sample_world () () () ()) = (Returned, req', w', g')
      \<and> Headers_Values (w_headers w') ''X-Request-ID'' = [i] \<and> length i = 12"
proof -
  have e: "length (entropy (sample_world () () () ()) (draws (sample_world () () () ()))) \<ge> 6"
    by (simp add: sample_world_def)
  have "Headers_Get (ReqHeaders (sample_request ''GET'' ''/'')) ''X-Request-ID'' = []"
    by (simp add: sample_request_def Headers_Get_def map_slice_def)
  then show ?thesis
    using RequestID_stamps [OF e, of "\<lambda>req w g. (Returned, req, w, g)" "sample_request ''GET'' ''/''"
        NewResponseWriter] by auto
qed

end
