(* ===== verification/Http_Server.thy ===== *)
theory Http_Server
  imports Http_Request_Props Http_Middleware
begin

text \<open>
  \<open>httpcore/server.go\<close>, the part that serves one connection: the configuration and its defaults,
  \<open>serveConn\<close>, \<open>safeHandle\<close> and \<open>writeError\<close>. (Accepting, tracking and draining connections is the
  theory \<open>Http_Lifecycle\<close>.)

  The peer and the scheduler enter as a script with one entry per turn of the connection loop:
  which bytes have arrived when the turn's read deadline ends, how the stream ends after them
  (peer close, timeout, other error), whether the first byte came before the idle deadline, what
  the \<open>draining\<close> flag read at its two uses, and whether the flush succeeded. Bytes a turn does not
  consume stay in the reader for the next one, as pipelined requests do. A run over a finite
  script that ends with the loop still alive is \<open>StillOpen\<close>; theorems over all scripts therefore
  speak about every prefix of every connection.
\<close>

section \<open>Configuration\<close>

record Config =
  cf_Limits :: Limits
  ReadTimeout :: duration
  IdleTimeout :: duration
  WriteTimeout :: duration
  MaxRequestsPerConn :: int
  ShutdownGrace :: duration

definition zeroLimits :: Limits where
  "zeroLimits = \<lparr>MaxRequestLine = 0, MaxHeaderLine = 0, MaxHeaderBytes = 0, MaxHeaderCount = 0,
                 MaxBodyBytes = 0\<rparr>"

definition withDefaults :: "Config \<Rightarrow> Config" where
  "withDefaults c =
     (let c = (if cf_Limits c = zeroLimits then c\<lparr>cf_Limits := DefaultLimits\<rparr> else c);
          c = (if ReadTimeout c = 0 then c\<lparr>ReadTimeout := 10 * Second\<rparr> else c);
          c = (if IdleTimeout c = 0 then c\<lparr>IdleTimeout := 30 * Second\<rparr> else c);
          c = (if WriteTimeout c = 0 then c\<lparr>WriteTimeout := 10 * Second\<rparr> else c)
      in if ShutdownGrace c = 0 then c\<lparr>ShutdownGrace := 5 * Second\<rparr> else c)"

section \<open>One exchange\<close>

fun handled :: "'g result \<Rightarrow> Request \<times> ResponseWriter \<times> 'g" where
  "handled (Panicked, req, w, g) =
     (req, w_Error (w\<lparr>hijacked := False\<rparr>) StatusInternalServerError ''internal error'', g)"
| "handled (Returned, req, w, g) = (req, w, g)"

definition safeHandle :: "'g handler \<Rightarrow> Request \<Rightarrow> ResponseWriter \<Rightarrow> 'g \<Rightarrow> Request \<times> ResponseWriter \<times> 'g" where
  "safeHandle handler req w g = handled (handler req w g)"

text \<open>What the loop does to the connection. A failed flush may have sent part of the response.\<close>

datatype conn_event =
    SetReadDeadline instant
  | SetWriteDeadline instant
  | Flushed bytes
  | FlushFailed

text \<open>
  Arm the write deadline, serialise (which reads the clock again when there is no \<open>Date\<close> header)
  and flush.
\<close>

definition send :: "Config \<Rightarrow> bool \<Rightarrow> ResponseWriter \<Rightarrow> bool \<Rightarrow> ('m, 'r, 'c, 'p) world
    \<Rightarrow> conn_event list \<times> ('m, 'r, 'c, 'p) world" where
  "send cf flush_ok w keepAlive g =
     (let (t, g) = time_Now g;
          (now, g') = time_Now g;
          g = (if Headers_Has (w_headers w) ''Date'' then g else g')
      in ([SetWriteDeadline (t + WriteTimeout cf),
           if flush_ok then Flushed (fst (serialize now w ''HTTP/1.1'' keepAlive)) else FlushFailed], g))"

definition error_writer :: "int \<Rightarrow> ResponseWriter" where
  "error_writer s =
     (let w = w_Error NewResponseWriter s []
      in if s = StatusRequestTimeout \<or> s = StatusServiceUnavailable
           then w_SetHeader w ''Retry-After'' ''1'' else w)"

definition writeError :: "Config \<Rightarrow> bool \<Rightarrow> int \<Rightarrow> ('m, 'r, 'c, 'p) world
    \<Rightarrow> conn_event list \<times> ('m, 'r, 'c, 'p) world" where
  "writeError cf flush_ok s g = send cf flush_ok (error_writer s) False g"

text \<open>The status a \<open>ParseError\<close> is answered with: its own, unless a timeout caused it.\<close>

definition error_status :: "ParseError \<Rightarrow> int" where
  "error_status pe = (if cause pe = Some NetTimeout then StatusRequestTimeout else Status pe)"

section \<open>The connection loop\<close>

record arrival =
  ar_bytes :: bytes
  ar_err :: go_error
  ar_in_time :: bool
  ar_draining_top :: bool
  ar_draining_after :: bool
  ar_flush_ok :: bool

datatype conn_end = Closed | Crashed | StillOpen

definition receive :: "arrival \<Rightarrow> bytes \<Rightarrow> Reader" where
  "receive a buffered = \<lparr>rd_data = buffered @ ar_bytes a, rd_err = ar_err a, rd_size = 16384\<rparr>"

text \<open>\<open>br.Peek(1)\<close> under the idle deadline.\<close>

definition peek_ok :: "arrival \<Rightarrow> bytes \<Rightarrow> bool" where
  "peek_ok a buffered \<longleftrightarrow> buffered \<noteq> [] \<or> (ar_bytes a \<noteq> [] \<and> ar_in_time a)"

definition keep_alive :: "Config \<Rightarrow> Request \<Rightarrow> bool \<Rightarrow> int \<Rightarrow> bool" where
  "keep_alive cf req draining served \<longleftrightarrow>
     \<not> wantClose req \<and> \<not> draining
     \<and> (MaxRequestsPerConn cf = 0 \<or> served < MaxRequestsPerConn cf)"

type_synonym ('m, 'r, 'c, 'p) conn_run = "conn_event list \<times> conn_end \<times> ('m, 'r, 'c, 'p) world"

definition emits :: "conn_event list \<Rightarrow> ('m, 'r, 'c, 'p) conn_run \<Rightarrow> ('m, 'r, 'c, 'p) conn_run" where
  "emits ev run = (case run of (ev', e, g) \<Rightarrow> (ev @ ev', e, g))"

text \<open>
  One turn of the loop: either the connection is over, or the loop goes on with the bytes still
  buffered, the number of requests served, and the world.
\<close>

datatype ('m, 'r, 'c, 'p) turn =
    Stop conn_end "('m, 'r, 'c, 'p) world"
  | Again bytes int "('m, 'r, 'c, 'p) world"

definition answer :: "Config \<Rightarrow> ('m, 'r, 'c, 'p) world handler \<Rightarrow> arrival \<Rightarrow> Request \<Rightarrow> bytes \<Rightarrow> int
    \<Rightarrow> ('m, 'r, 'c, 'p) world \<Rightarrow> conn_event list \<times> ('m, 'r, 'c, 'p) turn" where
  "answer cf handler a req buffered served g =
     (let w = NewResponseWriter\<lparr>isHead := (Method req = ''HEAD'')\<rparr>;
          (req, w, g) = safeHandle handler req w g;
          served = served + 1;
          keepAlive = keep_alive cf req (ar_draining_after a) served;
          (ev, g) = send cf (ar_flush_ok a) w keepAlive g
      in (ev, if \<not> ar_flush_ok a then Stop Closed g
              else if \<not> keepAlive then Stop Closed g
              else Again buffered served g))"

definition serve_turn :: "(bytes \<Rightarrow> bytes) \<Rightarrow> Config \<Rightarrow> ('m, 'r, 'c, 'p) world handler \<Rightarrow> bytes \<Rightarrow> arrival
    \<Rightarrow> bytes \<Rightarrow> int \<Rightarrow> ('m, 'r, 'c, 'p) world \<Rightarrow> conn_event list \<times> ('m, 'r, 'c, 'p) turn" where
  "serve_turn uc cf handler remote a buffered served g =
     (if ar_draining_top a \<and> served > 0 then ([], Stop Closed g)
      else
        let (t1, g) = time_Now g
        in if \<not> peek_ok a buffered then ([SetReadDeadline (t1 + IdleTimeout cf)], Stop Closed g)
           else
             let (t2, g) = time_Now g;
                 deadlines = [SetReadDeadline (t1 + IdleTimeout cf), SetReadDeadline (t2 + ReadTimeout cf)]
             in case ParseRequest uc (receive a buffered) (cf_Limits cf) remote of
                  Inl CleanClose \<Rightarrow> (deadlines, Stop Closed g)
                | Inl ParsePanic \<Rightarrow> (deadlines, Stop Crashed g)
                | Inl (Failed pe) \<Rightarrow>
                    (case writeError cf (ar_flush_ok a) (error_status pe) g of
                       (ev, g) \<Rightarrow> (deadlines @ ev, Stop Closed g))
                | Inr (req, br) \<Rightarrow>
                    (case answer cf handler a req (rd_data br) served g of
                       (ev, t) \<Rightarrow> (deadlines @ ev, t)))"

fun conn_loop :: "(bytes \<Rightarrow> bytes) \<Rightarrow> Config \<Rightarrow> ('m, 'r, 'c, 'p) world handler \<Rightarrow> bytes \<Rightarrow> arrival list
    \<Rightarrow> bytes \<Rightarrow> int \<Rightarrow> ('m, 'r, 'c, 'p) world \<Rightarrow> ('m, 'r, 'c, 'p) conn_run" where
  "conn_loop uc cf handler remote [] buffered served g = ([], StillOpen, g)"
| "conn_loop uc cf handler remote (a # as) buffered served g =
     (case serve_turn uc cf handler remote a buffered served g of
        (ev, Stop e g) \<Rightarrow> (ev, e, g)
      | (ev, Again buffered served g) \<Rightarrow>
          emits ev (conn_loop uc cf handler remote as buffered served g))"

definition serveConn :: "(bytes \<Rightarrow> bytes) \<Rightarrow> Config \<Rightarrow> ('m, 'r, 'c, 'p) world handler \<Rightarrow> bytes
    \<Rightarrow> arrival list \<Rightarrow> ('m, 'r, 'c, 'p) world \<Rightarrow> ('m, 'r, 'c, 'p) conn_run" where
  "serveConn uc cf handler remote script g = conn_loop uc cf handler remote script [] 0 g"

lemmas server_defs [go_eval] =
  zeroLimits_def withDefaults_def safeHandle_def send_def error_writer_def writeError_def
  error_status_def receive_def peek_ok_def keep_alive_def emits_def answer_def serve_turn_def
  serveConn_def

section \<open>Responses of a run\<close>

fun flushed :: "conn_event list \<Rightarrow> bytes list" where
  "flushed [] = []"
| "flushed (Flushed b # ev) = b # flushed ev"
| "flushed (_ # ev) = flushed ev"

lemma flushed_append [simp]: "flushed (xs @ ys) = flushed xs @ flushed ys"
  by (induction xs rule: flushed.induct) simp_all

text \<open>The bytes of some response that announces whether the connection stays open.\<close>

definition announces :: "bool \<Rightarrow> bytes \<Rightarrow> bool" where
  "announces ka b \<longleftrightarrow> (\<exists>now w. b = fst (serialize now w ''HTTP/1.1'' ka))"

lemma send_events:
  "send cf ok w ka g = (ev, g') \<Longrightarrow>
     flushed ev = (if ok then [fst (serialize (clock g (Suc (ticks g))) w ''HTTP/1.1'' ka)] else [])
     \<and> clock g' = clock g"
  by (auto simp: send_def time_Now_def split: if_splits)

lemma send_announces:
  assumes "send cf ok w ka g = (ev, g')"
  shows "\<forall>b \<in> set (flushed ev). announces ka b"
proof
  fix b assume "b \<in> set (flushed ev)"
  with send_events [OF assms] have "b = fst (serialize (clock g (Suc (ticks g))) w ''HTTP/1.1'' ka)"
    by (simp split: if_splits)
  then show "announces ka b" unfolding announces_def by blast
qed

lemma send_length: "send cf ok w ka g = (ev, g') \<Longrightarrow> length (flushed ev) \<le> 1"
  by (auto dest!: send_events)

lemma answer_cases:
  assumes "answer cf handler a req buffered served g = (ev, t)"
  obtains ka where "length (flushed ev) \<le> 1" "\<forall>b \<in> set (flushed ev). announces ka b"
    "ka \<longrightarrow> MaxRequestsPerConn cf = 0 \<or> served + 1 < MaxRequestsPerConn cf"
    "case t of Stop e g' \<Rightarrow> e = Closed \<and> (ka \<longrightarrow> flushed ev = [])
       | Again b s g' \<Rightarrow> ka \<and> b = buffered \<and> s = served + 1"
proof -
  obtain req' w g1 where h: "safeHandle handler req (NewResponseWriter\<lparr>isHead := (Method req = ''HEAD'')\<rparr>) g
      = (req', w, g1)" by (metis prod_cases3)
  let ?ka = "keep_alive cf req' (ar_draining_after a) (served + 1)"
  obtain ev' g2 where s: "send cf (ar_flush_ok a) w ?ka g1 = (ev', g2)" by fastforce
  have ev: "ev = ev'" and t: "t = (if \<not> ar_flush_ok a then Stop Closed g2 else if \<not> ?ka then Stop Closed g2
      else Again buffered (served + 1) g2)"
    using assms h s by (simp_all add: answer_def Let_def)
  show thesis
    by (rule that [of ?ka])
       (use send_length [OF s] send_announces [OF s] send_events [OF s] ev t in
         \<open>auto simp: keep_alive_def\<close>)
qed

lemma serve_turn_cases:
  assumes "serve_turn uc cf handler remote a buffered served g = (ev, t)"
  obtains ka where "length (flushed ev) \<le> 1" "\<forall>b \<in> set (flushed ev). announces ka b"
    "ka \<longrightarrow> MaxRequestsPerConn cf = 0 \<or> served + 1 < MaxRequestsPerConn cf"
    "case t of Stop e g' \<Rightarrow> ka \<longrightarrow> flushed ev = [] | Again b s g' \<Rightarrow> ka \<and> s = served + 1"
proof -
  note fin = that
  have quiet: thesis if "flushed ev = []" "\<exists>e g'. t = Stop e g'"
    using that by (intro fin [of False]) auto
  show thesis
  proof (cases "ParseRequest uc (receive a buffered) (cf_Limits cf) remote")
    case (Inl f)
    show thesis
    proof (cases "\<exists>pe. f = Failed pe \<and> \<not> (ar_draining_top a \<and> served > 0) \<and> peek_ok a buffered")
      case True
      then obtain pe g1 ev' g2 where
        s: "writeError cf (ar_flush_ok a) (error_status pe) g1 = (ev', g2)"
        and e: "flushed ev = flushed ev'" "t = Stop Closed g2"
        using assms Inl
        by (auto simp: serve_turn_def time_Now_def Let_def split: prod.splits if_splits)
      from s have "send cf (ar_flush_ok a) (error_writer (error_status pe)) False g1 = (ev', g2)"
        by (simp add: writeError_def)
      from send_length [OF this] send_announces [OF this] e show thesis
        by (intro fin [of False]) auto
    next
      case False
      with assms Inl show thesis
        by (intro quiet)
           (auto simp: serve_turn_def time_Now_def Let_def split: parse_failure.splits if_splits prod.splits)
    qed
  next
    case (Inr x)
    then obtain req br where x: "x = (req, br)" by fastforce
    show thesis
    proof (cases "\<not> (ar_draining_top a \<and> served > 0) \<and> peek_ok a buffered")
      case True
      then obtain g1 ev' where an: "answer cf handler a req (rd_data br) served g1 = (ev', t)"
        and ev: "flushed ev = flushed ev'"
        using assms Inr x
        by (auto simp: serve_turn_def time_Now_def Let_def split: prod.splits if_splits)
      from an show thesis
        by (rule answer_cases) (rule fin, auto simp: ev split: turn.splits)
    next
      case False
      with assms show thesis
        by (intro quiet) (auto simp: serve_turn_def time_Now_def Let_def split: if_splits)
    qed
  qed
qed

section \<open>Properties\<close>

lemma emits_flushed: "emits ev run = (ev', e, g) \<Longrightarrow>
    \<exists>ev1. run = (ev1, e, g) \<and> flushed ev' = flushed ev @ flushed ev1"
  by (auto simp: emits_def split: prod.splits)

lemma conn_loop_responses:
  assumes "conn_loop uc cf handler remote script buffered served g = (ev, e, g')"
  shows "(\<forall>b \<in> set (butlast (flushed ev)). announces True b)
    \<and> (0 \<le> served \<and> served < MaxRequestsPerConn cf \<longrightarrow>
         served + int (length (flushed ev)) \<le> MaxRequestsPerConn cf)
    \<and> (flushed ev \<noteq> [] \<longrightarrow> (announces True (last (flushed ev)) \<or> announces False (last (flushed ev))))"
  using assms
proof (induction script arbitrary: buffered served g ev)
  case (Cons a script)
  obtain ev1 t where s: "serve_turn uc cf handler remote a buffered served g = (ev1, t)" by fastforce
  then show ?case
  proof (rule serve_turn_cases)
    fix ka
    assume f: "length (flushed ev1) \<le> 1" "\<forall>b \<in> set (flushed ev1). announces ka b"
      and m: "ka \<longrightarrow> MaxRequestsPerConn cf = 0 \<or> served + 1 < MaxRequestsPerConn cf"
      and t: "case t of Stop e g' \<Rightarrow> ka \<longrightarrow> flushed ev1 = [] | Again b s g' \<Rightarrow> ka \<and> s = served + 1"
    from f have one: "flushed ev1 = [] \<or> (\<exists>b. flushed ev1 = [b] \<and> announces ka b)"
      by (cases "flushed ev1") auto
    show ?thesis
    proof (cases t)
      case (Stop e1 g1)
      with Cons.prems s t one show ?thesis by (cases ka) auto
    next
      case (Again b sv g1)
      with Cons.prems s obtain ev2 where
        r: "conn_loop uc cf handler remote script b sv g1 = (ev2, e, g')"
        and fl: "flushed ev = flushed ev1 @ flushed ev2"
        by (auto dest!: emits_flushed)
      from Again t m have "sv = served + 1" ka by auto
      with Cons.IH [OF r] one m show ?thesis by (auto simp: fl butlast_append)
    qed
  qed
qed simp

text \<open>
  C5. The connection loop keeps its promises about persistence. Whatever the peer sends, however the
  handlers behave and whenever draining starts: every response but the last announces keep-alive,
  and with a positive \<open>MaxRequestsPerConn\<close> no connection gets more responses than that.
\<close>

theorem serveConn_responses:
  assumes "serveConn uc cf handler remote script g = (ev, e, g')"
  shows "(\<forall>b \<in> set (butlast (flushed ev)). announces True b)
    \<and> (0 < MaxRequestsPerConn cf \<longrightarrow> int (length (flushed ev)) \<le> MaxRequestsPerConn cf)"
  using conn_loop_responses [of uc cf handler remote script "[]" 0 g ev e g'] assms
  by (simp add: serveConn_def)

definition sample_arrival :: "bytes \<Rightarrow> arrival" where
  "sample_arrival b =
     \<lparr>ar_bytes = b, ar_err = NetTimeout, ar_in_time = True, ar_draining_top = False,
      ar_draining_after = False, ar_flush_ok = True\<rparr>"

definition sample_config :: Config where
  "sample_config = withDefaults
     \<lparr>cf_Limits = zeroLimits, ReadTimeout = 0, IdleTimeout = 0, WriteTimeout = 0,
      MaxRequestsPerConn = 1, ShutdownGrace = 0\<rparr>"

definition hello :: "'g handler" where
  "hello req w g = (Returned, req, w_WriteString w ''hello'', g)"

lemmas server_samples [go_eval] = sample_arrival_def sample_config_def hello_def

lemma sample_config_sel [simp]:
  "cf_Limits sample_config = DefaultLimits" "MaxRequestsPerConn sample_config = 1"
  "IdleTimeout sample_config = 30 * Second" "ReadTimeout sample_config = 10 * Second"
  "WriteTimeout sample_config = 10 * Second"
  by (simp_all add: sample_config_def withDefaults_def zeroLimits_def)

theorem serveConn_responses_witness:
  "int (length (flushed (fst (serveConn id sample_config hello ''1.2.3.4:5''
     [sample_arrival (sample_get @ sample_get), sample_arrival []] (sample_world () () () ()))))) \<le> 1"
proof -
  let ?g = "sample_world () () () ()" and ?s = "[sample_arrival (sample_get @ sample_get), sample_arrival []]"
  obtain ev e g' where r: "serveConn id sample_config hello ''1.2.3.4:5'' ?s ?g = (ev, e, g')"
    by (metis prod_cases3)
  from serveConn_responses [OF r] r show ?thesis by simp
qed

lemma rejected_turn:
  assumes "ParseRequest uc (receive a buffered) (cf_Limits cf) remote = Inl (Failed pe)"
    and "peek_ok a buffered" "\<not> (ar_draining_top a \<and> served > 0)" "ar_flush_ok a"
  shows "\<exists>ev now k. serve_turn uc cf handler remote a buffered served g
      = (ev, Stop Closed (g\<lparr>ticks := k\<rparr>))
    \<and> flushed ev = [fst (serialize now (error_writer (error_status pe)) ''HTTP/1.1'' False)]"
  using assms
  by (auto simp: serve_turn_def time_Now_def writeError_def send_def Let_def)

lemma error_writer_sel:
  "w_status (error_writer s) = s" "w_body (error_writer s) = Itoa s @ '' '' @ ReasonPhrase s @ [LF]"
  "Headers_Values (w_headers (error_writer s)) ''Retry-After'' = (if s = 408 \<or> s = 503 then [''1''] else [])"
  by (simp_all add: error_writer_def w_Error_def w_SetHeader_def NewResponseWriter_def Let_def Values_Set)
     (simp add: Headers_Values_def map_slice_def)


lemma sample_stall:
  "ParseRequest id (receive (sample_arrival ''GET / HT'') []) DefaultLimits ''1.2.3.4:5''
     = Inl (Failed (perrc 400 NetTimeout ReadingRequestLine))"
  by (simp add: go_eval)


section \<open>Serving requests instead of bytes\<close>

text \<open>
  The connection loop with the wire taken away: the requests are given, one per turn.
\<close>

fun serve_requests :: "Config \<Rightarrow> ('m, 'r, 'c, 'p) world handler \<Rightarrow> arrival list \<Rightarrow> Request list \<Rightarrow> int
    \<Rightarrow> ('m, 'r, 'c, 'p) world \<Rightarrow> ('m, 'r, 'c, 'p) conn_run" where
  "serve_requests cf handler (a # as) (req # reqs) served g =
     (if ar_draining_top a \<and> served > 0 then ([], Closed, g)
      else
        let (t1, g) = time_Now g; (t2, g) = time_Now g;
            deadlines = [SetReadDeadline (t1 + IdleTimeout cf), SetReadDeadline (t2 + ReadTimeout cf)]
        in case answer cf handler a req [] served g of
             (ev, Stop e g) \<Rightarrow> (deadlines @ ev, e, g)
           | (ev, Again _ served g) \<Rightarrow>
               emits (deadlines @ ev) (serve_requests cf handler as reqs served g))"
| "serve_requests cf handler _ _ served g = ([], StillOpen, g)"

text \<open>The bytes of exactly one request, however the stream ends after them.\<close>

definition wire :: "(bytes \<Rightarrow> bytes) \<Rightarrow> Limits \<Rightarrow> bytes \<Rightarrow> bytes \<Rightarrow> Request \<Rightarrow> bool" where
  "wire uc lm remote b req \<longleftrightarrow>
     (\<forall>err. ParseRequest uc \<lparr>rd_data = b, rd_err = err, rd_size = 16384\<rparr> lm remote
        = Inr (req, \<lparr>rd_data = [], rd_err = err, rd_size = 16384\<rparr>))"

text \<open>
  The script delivers the stream and is never behind: in each turn the bytes of that turn's
  request are there. Where the segments start and end is left open.
\<close>

fun delivers :: "bytes \<Rightarrow> arrival list \<Rightarrow> bytes list \<Rightarrow> bool" where
  "delivers buffered (a # as) (b # bs) \<longleftrightarrow>
     ar_in_time a \<and> (\<exists>rest. buffered @ ar_bytes a = b @ rest \<and> delivers rest as bs)"
| "delivers buffered as bs \<longleftrightarrow> as = [] \<and> bs = []"

lemma wire_receive:
  assumes "wire uc lm remote b req" "buffered @ ar_bytes a = b @ rest"
  shows "ParseRequest uc (receive a buffered) lm remote
    = Inr (req, \<lparr>rd_data = rest, rd_err = ar_err a, rd_size = 16384\<rparr>)" and "b \<noteq> []"
proof -
  let ?r = "\<lambda>d. \<lparr>rd_data = d, rd_err = ar_err a, rd_size = 16384\<rparr>"
  have p: "ParseRequest uc (?r b) lm remote = Inr (req, ?r [])" using assms(1) by (simp add: wire_def)
  from ParseRequest_delimits [OF p, of rest] show
    "ParseRequest uc (receive a buffered) lm remote = Inr (req, ?r rest)"
    using assms(2) by (simp add: receive_def feed_def)
  from ParseRequest_delimits [OF p] show "b \<noteq> []" by auto
qed

lemma answer_buffered:
  "answer cf handler a req buffered served g =
     (case answer cf handler a req [] served g of
        (ev, Stop e g) \<Rightarrow> (ev, Stop e g)
      | (ev, Again _ sv g) \<Rightarrow> (ev, Again buffered sv g))"
  by (auto simp: answer_def Let_def split: prod.splits)

lemma conn_loop_refines:
  assumes "list_all2 (wire uc (cf_Limits cf) remote) bs reqs" "delivers buffered script bs"
  shows "conn_loop uc cf handler remote script buffered served g
    = serve_requests cf handler script reqs served g"
  using assms
proof (induction script arbitrary: buffered bs reqs served g)
  case Nil
  then show ?case by simp
next
  case (Cons a script)
  then obtain b bs' req reqs' where
    l: "bs = b # bs'" "reqs = req # reqs'" "wire uc (cf_Limits cf) remote b req"
       "list_all2 (wire uc (cf_Limits cf) remote) bs' reqs'"
    by (cases bs; cases reqs) auto
  with Cons.prems obtain rest where d: "buffered @ ar_bytes a = b @ rest" "delivers rest script bs'" "ar_in_time a"
    by auto
  note p = wire_receive [OF l(3) d(1)]
  have pk: "peek_ok a buffered" using p(2) d by (cases buffered) (auto simp: peek_ok_def)
  show ?case
    using p(1) pk Cons.IH [OF l(4) d(2)]
    by (auto simp: l serve_turn_def time_Now_def Let_def answer_buffered [of cf handler a req rest]
        emits_def split: prod.splits turn.splits)
qed

text \<open>
  C4. The byte-level connection loop refines the request-level one: when the peer sends the bytes of
  a sequence of requests, pipelined or not, cut into TCP segments in any way that is never behind
  the loop, the connection does exactly what serving these requests in this order does, event for
  event. In particular, two segmentations of one stream are indistinguishable.
\<close>

theorem serveConn_refines:
  assumes "list_all2 (wire uc (cf_Limits cf) remote) bs reqs" "delivers [] script bs"
  shows "serveConn uc cf handler remote script g = serve_requests cf handler script reqs 0 g"
  using conn_loop_refines [OF assms] by (simp add: serveConn_def)

definition sample_parsed :: Request where
  "sample_parsed =
     \<lparr>Method = ''GET'', RawTarget = ''/a?x=1'', Path = ''/a'', Proto = ''HTTP/1.1'',
      Query = [''x'' \<mapsto> [''1'']], ReqHeaders = Headers_Add NewHeaders ''Host'' ''h'', ReqBody = [],
      RemoteAddr = ''1.2.3.4:5'', PathParams = Map.empty, Meta = Map.empty\<rparr>"

lemma sample_wire: "wire id DefaultLimits ''1.2.3.4:5'' sample_get sample_parsed"
  unfolding wire_def sample_parsed_def by (simp add: go_eval)

theorem serveConn_refines_witness:
  "serveConn id sample_config hello ''1.2.3.4:5''
      [sample_arrival (sample_get @ take 7 sample_get), sample_arrival (drop 7 sample_get)] (sample_world () () () ())
    = serve_requests sample_config hello
        [sample_arrival (sample_get @ take 7 sample_get), sample_arrival (drop 7 sample_get)]
        [sample_parsed, sample_parsed] 0 (sample_world () () () ())"
  by (rule serveConn_refines [of _ _ _ "[sample_get, sample_get]"])
     (simp_all add: sample_wire, simp add: sample_arrival_def)

section \<open>Panics, HEAD, and a panic nobody recovers\<close>

text \<open>
  A panicking handler costs one request, not the connection: whatever it had written, and even if
  it had hijacked the response, the client gets the 500 with its one-line body, and the loop goes on
  exactly when it would have gone on otherwise.
\<close>

theorem serveConn_survives_panic:
  assumes "handler req (NewResponseWriter\<lparr>isHead := (Method req = ''HEAD'')\<rparr>) g = (Panicked, req', w', g')"
    and "ar_flush_ok a"
  shows "\<exists>ev now w k. flushed ev = [fst (serialize now w ''HTTP/1.1''
              (keep_alive cf req' (ar_draining_after a) (served + 1)))]
    \<and> w_status w = 500 \<and> w_body w = ''500 internal error'' @ [LF]
    \<and> answer cf handler a req buffered served g
        = (ev, if keep_alive cf req' (ar_draining_after a) (served + 1)
               then Again buffered (served + 1) (g'\<lparr>ticks := k\<rparr>) else Stop Closed (g'\<lparr>ticks := k\<rparr>))"
proof -
  let ?w = "w_Error (w'\<lparr>hijacked := False\<rparr>) 500 ''internal error''"
  have "w_status ?w = 500" "w_body ?w = ''500 internal error'' @ [LF]"
    by (simp_all add: w_Error_def w_SetHeader_def strconv_defs fmt_nat.simps)
  then show ?thesis
    using assms
    by (auto simp: answer_def safeHandle_def send_def time_Now_def Let_def)
qed

definition boom :: "'g handler" where
  "boom req w g = (Panicked, req, w_Hijack (w_WriteString w ''half a resp''), g)"

theorem serveConn_survives_panic_witness:
  "\<exists>ev k. answer (sample_config\<lparr>MaxRequestsPerConn := 0\<rparr>) boom (sample_arrival []) sample_parsed ''rest'' 0
        (sample_world () () () ()) = (ev, Again ''rest'' 1 ((sample_world () () () ())\<lparr>ticks := k\<rparr>))"
proof -
  let ?w = "NewResponseWriter\<lparr>isHead := (Method sample_parsed = ''HEAD'')\<rparr>"
  have b: "boom sample_parsed ?w (sample_world () () () ())
      = (Panicked, sample_parsed, w_Hijack (w_WriteString ?w ''half a resp''), sample_world () () () ())"
    by (simp add: boom_def)
  have "\<not> wantClose sample_parsed" by (simp add: sample_parsed_def go_eval)
  then have "keep_alive (sample_config\<lparr>MaxRequestsPerConn := 0\<rparr>) sample_parsed (ar_draining_after (sample_arrival [])) (0 + 1)"
    by (simp add: keep_alive_def sample_arrival_def)
  with serveConn_survives_panic [of boom sample_parsed, OF b, of "sample_arrival []" "sample_config\<lparr>MaxRequestsPerConn := 0\<rparr>" 0 "''rest''"]
  show ?thesis by (auto simp: sample_arrival_def)
qed

lemma safeHandle_isHead:
  assumes "well_behaved handler" "safeHandle handler req w g = (req', w', g')"
  shows "isHead w' = isHead w" and "same_head req' req"
proof -
  obtain ou q v h where r: "handler req w g = (ou, q, v, h)" by (metis prod_cases4)
  have "sound req w (ou, q, v, h)" using well_behavedD [OF assms(1), of req w g] r by simp
  then show "isHead w' = isHead w" "same_head req' req"
    using assms(2) r by (cases ou; simp add: safeHandle_def sound_def w_Error_def w_SetHeader_def; fastforce)+
qed

text \<open>
  HEAD is GET without the body: for every well-behaved handler, the answer to a HEAD request ends
  with the blank line after its headers, and these still carry the length of the body the handler
  produced (unless the status forbids one).
\<close>

theorem HEAD_has_no_body:
  assumes "well_behaved handler" "Method req = ''HEAD''"
    and "answer cf handler a req buffered served g = (ev, t)" "b \<in> set (flushed ev)"
  shows "\<exists>now w ka. b = status_line ''HTTP/1.1'' (w_status w) @ Headers_WriteTo (final_headers now w ka) @ CRLF
    \<and> Headers_Values (final_headers now w ka) ''Content-Length''
        = (if bodyless (w_status w) then [] else [Itoa (BodyLen w)])"
proof -
  let ?w0 = "NewResponseWriter\<lparr>isHead := (Method req = ''HEAD'')\<rparr>"
  obtain req' w g1 where h: "safeHandle handler req ?w0 g = (req', w, g1)" by (metis prod_cases3)
  let ?ka = "keep_alive cf req' (ar_draining_after a) (served + 1)"
  obtain ev' g2 where s: "send cf (ar_flush_ok a) w ?ka g1 = (ev', g2)" by fastforce
  have "ev = ev'" using assms(3) h s by (simp add: answer_def Let_def)
  then have "b = fst (serialize (clock g1 (Suc (ticks g1))) w ''HTTP/1.1'' ?ka)"
    using send_events [OF s] assms(4) by (simp split: if_splits)
  moreover have "isHead w" using safeHandle_isHead [OF assms(1) h] assms(2) by simp
  ultimately show ?thesis
    by (intro exI [of _ "clock g1 (Suc (ticks g1))"] exI [of _ w] exI [of _ ?ka])
       (simp add: serialize_def wire_body_def final_headers_def Values_Set Values_Del BodyLen_def Let_def)
qed

lemma hello_well_behaved: "well_behaved hello"
  by (rule well_behavedI) (simp add: hello_def sound_def w_WriteString_def writer_inv)

theorem HEAD_has_no_body_witness:
  "\<exists>now w ka. hd (flushed (fst (answer sample_config hello (sample_arrival []) (sample_request ''HEAD'' ''/'') [] 0
        (sample_world () () () ()))))
      = status_line ''HTTP/1.1'' (w_status w) @ Headers_WriteTo (final_headers now w ka) @ CRLF"
proof -
  let ?r = "sample_request ''HEAD'' ''/''" and ?g = "sample_world () () () ()"
  obtain ev t where a: "answer sample_config hello (sample_arrival []) ?r [] 0 ?g = (ev, t)" by fastforce
  have "flushed ev \<noteq> []"
    using a by (auto simp: answer_def safeHandle_def hello_def send_def time_Now_def sample_arrival_def Let_def)
  then have "hd (flushed ev) \<in> set (flushed ev)" by simp
  from HEAD_has_no_body [OF hello_well_behaved _ a this] a show ?thesis
    by (auto simp: sample_request_def)
qed

definition overflow_request :: bytes where
  "overflow_request =
     ''POST / HTTP/1.1'' @ CRLF @ ''Host: h'' @ CRLF @ ''Transfer-Encoding: chunked'' @ CRLF @ CRLF
     @ ''1'' @ CRLF @ ''a'' @ CRLF @ ''7fffffffffffffff'' @ CRLF"

lemma overflow_parses:
  "ParseRequest uc \<lparr>rd_data = overflow_request, rd_err = err, rd_size = 16384\<rparr> DefaultLimits remote = Inl ParsePanic"
  unfolding overflow_request_def by (simp add: go_eval)

text \<open>
  C37. A peer that nobody authenticated can end the process: two chunk headers are enough. The panic of
  the chunk decoder (an allocation of the second chunk's size after the limit check wrapped around)
  happens outside \<open>safeHandle\<close>, in a goroutine with no \<open>recover\<close>, for every handler and every
  configuration with the default limits.
\<close>

theorem overflow_crashes_server:
  assumes "cf_Limits cf = DefaultLimits" "ar_in_time a" "ar_bytes a = overflow_request"
  shows "fst (snd (serveConn uc cf handler remote (a # script) g)) = Crashed"
proof -
  have "receive a [] = \<lparr>rd_data = overflow_request, rd_err = ar_err a, rd_size = 16384\<rparr>"
    using assms(3) by (simp add: receive_def)
  then have "ParseRequest uc (receive a []) (cf_Limits cf) remote = Inl ParsePanic"
    using assms(1) overflow_parses by simp
  moreover have "peek_ok a []" using assms by (simp add: peek_ok_def overflow_request_def)
  ultimately show ?thesis by (simp add: serveConn_def serve_turn_def time_Now_def Let_def)
qed

theorem overflow_crashes_server_witness:
  "fst (snd (serveConn id sample_config hello ''1.2.3.4:5'' [sample_arrival overflow_request]
     (sample_world () () () ()))) = Crashed"
  by (rule overflow_crashes_server) (simp_all add: sample_arrival_def)

end
