(* ===== verification/Http_Lifecycle.thy ===== *)
theory Http_Lifecycle
  imports Prelude
begin

text \<open>
  \<open>httpcore/server.go\<close>, the concurrent part: \<open>ListenAndServe\<close>, \<open>track\<close> and \<open>Shutdown\<close>, and the end of
  \<open>main\<close> that waits for the first of them. The accept loop, the goroutine of each connection with
  its three deferred calls, the caller of \<open>Shutdown\<close> and the goroutine that waits on the wait group
  interleave freely; a step is one of their atomic actions (a channel or mutex operation, an atomic
  store, a system call). Connections are numbered; what happens inside \<open>serveConn\<close> is the theory
  \<open>Http_Server\<close>, here it only runs or has returned.
\<close>

section \<open>State\<close>

type_synonym conn = nat

datatype accept_phase =
    Starting \<comment> \<open>before the listener is bound\<close>
  | Accepting
  | Accepted conn \<comment> \<open>\<open>Accept\<close> has returned, \<open>track\<close> not yet called\<close>
  | Registered conn \<comment> \<open>\<open>track\<close> has run, \<open>wg.Add\<close> not yet\<close>
  | ServeReturned \<comment> \<open>\<open>ListenAndServe\<close> has returned nil\<close>
  | ServeFailed \<comment> \<open>it has returned an error\<close>

datatype conn_phase =
    Serving
  | Finished \<comment> \<open>\<open>serveConn\<close> has returned\<close>
  | ConnClosed \<comment> \<open>the deferred \<open>conn.Close\<close> has run\<close>
  | Untracked \<comment> \<open>the deferred \<open>track(conn, false)\<close> has run\<close>

datatype shutdown_phase =
    NotCalled
  | DrainSet
  | Waiting \<comment> \<open>in the select\<close>
  | Forcing \<comment> \<open>the context or the grace period is over\<close>
  | Forced \<comment> \<open>stragglers closed, waiting for \<open>done\<close>\<close>
  | ShutdownReturned

record Server =
  draining :: bool
  listening :: bool
  conns :: "conn set"
  wg :: int
  goroutines :: "conn \<rightharpoonup> conn_phase"
  closed :: "conn set" \<comment> \<open>connections that have been closed on this side\<close>
  seen :: "conn set" \<comment> \<open>every connection accepted so far\<close>
  accept_loop :: accept_phase
  shutdown :: shutdown_phase
  done_closed :: bool
  exited :: bool

definition NewServer :: Server where
  "NewServer =
     \<lparr>draining = False, listening = False, conns = {}, wg = 0, goroutines = Map.empty, closed = {},
      seen = {}, accept_loop = Starting, shutdown = NotCalled, done_closed = False, exited = False\<rparr>"

definition track :: "Server \<Rightarrow> conn \<Rightarrow> bool \<Rightarrow> Server" where
  "track s c add = (if add then s\<lparr>conns := insert c (conns s)\<rparr> else s\<lparr>conns := conns s - {c}\<rparr>)"

section \<open>Steps\<close>

inductive step :: "Server \<Rightarrow> Server \<Rightarrow> bool" where
  listen: "\<not> exited s \<Longrightarrow> accept_loop s = Starting \<Longrightarrow>
     step s (s\<lparr>listening := True, accept_loop := Accepting\<rparr>)"
| accept: "\<not> exited s \<Longrightarrow> accept_loop s = Accepting \<Longrightarrow> listening s \<Longrightarrow> c \<notin> seen s \<Longrightarrow>
     step s (s\<lparr>seen := insert c (seen s), accept_loop := Accepted c\<rparr>)"
| accept_drained: "\<not> exited s \<Longrightarrow> accept_loop s = Accepting \<Longrightarrow> draining s \<Longrightarrow>
     step s (s\<lparr>accept_loop := ServeReturned\<rparr>)"
| accept_failed: "\<not> exited s \<Longrightarrow> accept_loop s = Accepting \<Longrightarrow> \<not> draining s \<Longrightarrow>
     step s (s\<lparr>accept_loop := ServeFailed\<rparr>)"
| register: "\<not> exited s \<Longrightarrow> accept_loop s = Accepted c \<Longrightarrow>
     step s ((track s c True)\<lparr>accept_loop := Registered c\<rparr>)"
| spawn: "\<not> exited s \<Longrightarrow> accept_loop s = Registered c \<Longrightarrow>
     step s (s\<lparr>wg := wg s + 1, goroutines := (goroutines s)(c \<mapsto> Serving), accept_loop := Accepting\<rparr>)"
| serve_returns: "\<not> exited s \<Longrightarrow> goroutines s c = Some Serving \<Longrightarrow>
     step s (s\<lparr>goroutines := (goroutines s)(c \<mapsto> Finished)\<rparr>)"
| close_conn: "\<not> exited s \<Longrightarrow> goroutines s c = Some Finished \<Longrightarrow>
     step s (s\<lparr>goroutines := (goroutines s)(c \<mapsto> ConnClosed), closed := insert c (closed s)\<rparr>)"
| untrack: "\<not> exited s \<Longrightarrow> goroutines s c = Some ConnClosed \<Longrightarrow>
     step s ((track s c False)\<lparr>goroutines := (goroutines s)(c \<mapsto> Untracked)\<rparr>)"
| wg_done: "\<not> exited s \<Longrightarrow> goroutines s c = Some Untracked \<Longrightarrow>
     step s (s\<lparr>wg := wg s - 1, goroutines := (goroutines s)(c := None)\<rparr>)"
| drain: "\<not> exited s \<Longrightarrow> shutdown s = NotCalled \<Longrightarrow>
     step s (s\<lparr>draining := True, shutdown := DrainSet\<rparr>)"
| close_listener: "\<not> exited s \<Longrightarrow> shutdown s = DrainSet \<Longrightarrow>
     step s (s\<lparr>listening := False, shutdown := Waiting\<rparr>)"
| wait_returns: "\<not> exited s \<Longrightarrow> shutdown s \<in> {Waiting, Forcing, Forced} \<Longrightarrow> wg s = 0 \<Longrightarrow>
     step s (s\<lparr>done_closed := True\<rparr>)"
| drained: "\<not> exited s \<Longrightarrow> shutdown s = Waiting \<Longrightarrow> done_closed s \<Longrightarrow>
     step s (s\<lparr>shutdown := ShutdownReturned\<rparr>)"
| grace_over: "\<not> exited s \<Longrightarrow> shutdown s = Waiting \<Longrightarrow> step s (s\<lparr>shutdown := Forcing\<rparr>)"
| force_close: "\<not> exited s \<Longrightarrow> shutdown s = Forcing \<Longrightarrow>
     step s (s\<lparr>closed := closed s \<union> conns s, shutdown := Forced\<rparr>)"
| forced_done: "\<not> exited s \<Longrightarrow> shutdown s = Forced \<Longrightarrow> done_closed s \<Longrightarrow>
     step s (s\<lparr>shutdown := ShutdownReturned\<rparr>)"
| main_returns: "\<not> exited s \<Longrightarrow> accept_loop s \<in> {ServeReturned, ServeFailed} \<Longrightarrow>
     step s (s\<lparr>exited := True\<rparr>)"

inductive steps :: "Server \<Rightarrow> Server \<Rightarrow> bool" where
  steps_refl: "steps s s"
| steps_step: "steps s t \<Longrightarrow> step t u \<Longrightarrow> steps s u"

inductive_cases stepE: "step s s'"

definition reachable :: "Server \<Rightarrow> bool" where
  "reachable s \<longleftrightarrow> steps NewServer s"

lemma reachable_step: "reachable s \<Longrightarrow> step s t \<Longrightarrow> reachable t"
  unfolding reachable_def by (rule steps_step)

lemma invariant_rule:
  assumes "I NewServer" "\<And>s t. I s \<Longrightarrow> step s t \<Longrightarrow> I t" "reachable s"
  shows "I s"
proof -
  have "steps u s \<Longrightarrow> I u \<Longrightarrow> I s" for u
    by (induction rule: steps.induct) (auto intro: assms(2))
  then show ?thesis using assms by (auto simp: reachable_def)
qed

section \<open>Accounting\<close>

fun in_hand :: "accept_phase \<Rightarrow> conn set" where
  "in_hand (Accepted c) = {c}"
| "in_hand (Registered c) = {c}"
| "in_hand _ = {}"

definition accounted :: "Server \<Rightarrow> bool" where
  "accounted s \<longleftrightarrow>
     finite (dom (goroutines s)) \<and> wg s = int (card (dom (goroutines s)))
     \<and> dom (goroutines s) \<subseteq> seen s \<and> in_hand (accept_loop s) \<subseteq> seen s
     \<and> in_hand (accept_loop s) \<inter> dom (goroutines s) = {}
     \<and> (\<forall>c. c \<in> conns s \<longleftrightarrow>
           goroutines s c \<in> {Some Serving, Some Finished, Some ConnClosed} \<or> accept_loop s = Registered c)
     \<and> (\<forall>c \<in> seen s. c \<in> in_hand (accept_loop s) \<or> goroutines s c \<in> {Some Serving, Some Finished}
                      \<or> c \<in> closed s)"

lemma accounted_init: "accounted NewServer"
  by (simp add: accounted_def NewServer_def)

lemma dom_move: "m c = Some x \<Longrightarrow> insert c (dom m) = dom m"
  by auto

lemma card_leave:
  assumes "finite (dom m)" "m c = Some x"
  shows "int (card (dom m - {c})) = int (card (dom m)) - 1"
proof -
  have "c \<in> dom m" using assms(2) by auto
  then have "card (dom m) = Suc (card (dom m - {c}))" using assms(1) by (metis card.remove)
  then show ?thesis by simp
qed

lemma accounted_step: "accounted s \<Longrightarrow> step s t \<Longrightarrow> accounted t"
  by (erule stepE; auto simp: accounted_def track_def dom_move card_leave card_insert_if)


section \<open>Draining\<close>

text \<open>
  With the listener closed and the accept loop not holding a connection, no goroutine starts any
  more; once their number is zero it stays zero.
\<close>

definition no_more :: "Server \<Rightarrow> bool" where
  "no_more s \<longleftrightarrow> \<not> listening s \<and> accept_loop s \<in> {Accepting, ServeReturned, ServeFailed}
     \<and> shutdown s \<notin> {NotCalled, DrainSet} \<and> accounted s \<and> (done_closed s \<longrightarrow> goroutines s = Map.empty)"

lemma no_more_step:
  assumes "no_more s" "step s t" shows "no_more t"
proof -
  have a: "accounted s" "accounted t" using assms accounted_step by (auto simp: no_more_def)
  have "\<not> listening t \<and> accept_loop t \<in> {Accepting, ServeReturned, ServeFailed}
      \<and> shutdown t \<notin> {NotCalled, DrainSet}"
    using assms(2,1) by cases (auto simp: no_more_def track_def)
  moreover have "done_closed t \<longrightarrow> goroutines t = Map.empty"
    using assms(2,1) a(1) by cases (auto simp: no_more_def track_def accounted_def)
  ultimately show ?thesis using a by (simp add: no_more_def)
qed

lemma no_more_steps: "steps s t \<Longrightarrow> no_more s \<Longrightarrow> no_more t"
  by (induction rule: steps.induct) (auto intro: no_more_step)

lemma done_returns:
  assumes "reachable s"
  shows "shutdown s = ShutdownReturned \<longrightarrow> done_closed s" (is "?I s")
    and "done_closed s \<longrightarrow> shutdown s \<notin> {NotCalled, DrainSet}" (is "?J s")
proof -
  have "?I s \<and> ?J s"
  proof (rule invariant_rule [OF _ _ assms])
    show "?I NewServer \<and> ?J NewServer" by (simp add: NewServer_def)
    show "?I t \<and> ?J t" if "?I s \<and> ?J s" "step s t" for s t
      using that(2,1) by cases (auto simp: track_def)
  qed
  then show "?I s" "?J s" by auto
qed


section \<open>Two runs the design did not intend\<close>

lemma reachable_init: "reachable NewServer"
  by (simp add: reachable_def steps_refl)

lemma reachable_via: "reachable s \<Longrightarrow> step s t \<Longrightarrow> t = u \<Longrightarrow> reachable u"
  using reachable_step by blast

definition serving_one :: Server where
  "serving_one = NewServer\<lparr>listening := True, conns := {0}, wg := 1, goroutines := [0 \<mapsto> Serving],
     seen := {0}, accept_loop := Accepting\<rparr>"

lemma reachable_serving_one: "reachable serving_one"
proof -
  let ?a = "NewServer\<lparr>listening := True, accept_loop := Accepting\<rparr>"
  let ?b = "?a\<lparr>seen := {0}, accept_loop := Accepted 0\<rparr>"
  let ?c = "?b\<lparr>conns := {0}, accept_loop := Registered 0\<rparr>"
  have "reachable ?a" by (rule reachable_via [OF reachable_init listen]) (simp_all add: NewServer_def)
  then have "reachable ?b" by (rule reachable_via [OF _ accept [of _ 0]]) (simp_all add: NewServer_def)
  then have "reachable ?c" by (rule reachable_via [OF _ register]) (simp_all add: NewServer_def track_def)
  then show ?thesis by (rule reachable_via [OF _ spawn]) (simp_all add: NewServer_def serving_one_def)
qed

definition draining_one :: Server where
  "draining_one = serving_one\<lparr>draining := True, listening := False, shutdown := Waiting\<rparr>"

lemma reachable_draining_one: "reachable draining_one"
proof -
  have "reachable (serving_one\<lparr>draining := True, shutdown := DrainSet\<rparr>)"
    by (rule reachable_via [OF reachable_serving_one drain]) (simp_all add: NewServer_def serving_one_def)
  then show ?thesis
    by (rule reachable_via [OF _ close_listener])
       (simp_all add: NewServer_def serving_one_def draining_one_def)
qed



text \<open>
  The drain does not protect the program's own \<open>main\<close>: \<open>ListenAndServe\<close> returns as soon as
  \<open>Shutdown\<close> has closed the listener, \<open>main\<close> returns with it, and the process ends while a request is
  being served, its connection open and the grace period still running.
\<close>

theorem main_exits_before_drain:
  "\<exists>s c. reachable s \<and> exited s \<and> shutdown s = Waiting \<and> goroutines s c = Some Serving \<and> c \<notin> closed s"
proof -
  have "reachable (draining_one\<lparr>accept_loop := ServeReturned\<rparr>)"
    by (rule reachable_via [OF reachable_draining_one accept_drained])
       (simp_all add: draining_one_def serving_one_def NewServer_def)
  then have "reachable (draining_one\<lparr>accept_loop := ServeReturned, exited := True\<rparr>)"
    by (rule reachable_via [OF _ main_returns])
       (simp_all add: draining_one_def serving_one_def NewServer_def)
  then show ?thesis
    by (rule_tac exI [of _ "draining_one\<lparr>accept_loop := ServeReturned, exited := True\<rparr>"], rule_tac exI [of _ 0])
       (simp add: draining_one_def serving_one_def NewServer_def)
qed

text \<open>
  The condition of the drain theorem is needed: a connection accepted just before the listener
  closes is neither tracked nor counted yet, so \<open>Shutdown\<close> can find the wait group at zero and
  return, and the connection is then served after it.
\<close>

theorem Shutdown_misses_accepted:
  "\<exists>s c. reachable s \<and> shutdown s = ShutdownReturned \<and> goroutines s c = Some Serving \<and> c \<notin> closed s"
proof -
  let ?a = "NewServer\<lparr>listening := True, accept_loop := Accepting\<rparr>"
  let ?b = "?a\<lparr>seen := {0}, accept_loop := Accepted 0\<rparr>"
  let ?c = "?b\<lparr>draining := True, shutdown := DrainSet\<rparr>"
  let ?d = "?c\<lparr>listening := False, shutdown := Waiting\<rparr>"
  let ?e = "?d\<lparr>done_closed := True\<rparr>"
  let ?f = "?e\<lparr>shutdown := ShutdownReturned\<rparr>"
  let ?g = "?f\<lparr>conns := {0}, accept_loop := Registered 0\<rparr>"
  let ?h = "?g\<lparr>wg := 1, goroutines := [0 \<mapsto> Serving], accept_loop := Accepting\<rparr>"
  have "reachable ?a" by (rule reachable_via [OF reachable_init listen]) (simp_all add: NewServer_def)
  then have "reachable ?b" by (rule reachable_via [OF _ accept [of _ 0]]) (simp_all add: NewServer_def)
  then have "reachable ?c" by (rule reachable_via [OF _ drain]) (simp_all add: NewServer_def)
  then have "reachable ?d" by (rule reachable_via [OF _ close_listener]) (simp_all add: NewServer_def)
  then have "reachable ?e" by (rule reachable_via [OF _ wait_returns]) (simp_all add: NewServer_def)
  then have "reachable ?f" by (rule reachable_via [OF _ drained]) (simp_all add: NewServer_def)
  then have "reachable ?g" by (rule reachable_via [OF _ register]) (simp_all add: NewServer_def track_def)
  then have h: "reachable ?h" by (rule reachable_via [OF _ spawn]) (simp_all add: NewServer_def)
  show ?thesis by (rule exI [of _ ?h], rule exI [of _ 0]) (use h in \<open>simp add: NewServer_def\<close>)
qed

end
