(* ===== verification/Rate_Limit.thy ===== *)
theory Rate_Limit
  imports Http_Middleware
begin

text \<open>
  \<open>middleware/ratelimit.go\<close>: the lazy token bucket per client, its janitor and the middleware.

  Token counts are \<open>float64\<close> in the source. Here they are real numbers, and \<open>rnd\<close> is the rounding that
  follows each floating-point operation; theorems say what they need of it (monotone and exact at
  zero, or exact arithmetic \<open>id\<close>). Infinities and NaN do not arise for a positive rate and a finite
  capacity, which is what \<open>main\<close> configures.
\<close>

section \<open>State\<close>

record RateLimitConfig =
  RequestsPerSec :: real
  Burst :: real
  Key :: "Request \<Rightarrow> bytes"

record bucket =
  tokens :: real
  last_seen :: instant

record RateLimiter =
  rl_cfg :: RateLimitConfig
  buckets :: "bytes \<rightharpoonup> bucket"

text \<open>The default key: the host part of the remote address, or the whole address without one.\<close>

definition remote_ip :: "Request \<Rightarrow> bytes" where
  "remote_ip req = (case SplitHostPort (RemoteAddr req) of None \<Rightarrow> RemoteAddr req | Some host \<Rightarrow> host)"

definition NewRateLimiter :: "real \<Rightarrow> real \<Rightarrow> (Request \<Rightarrow> bytes) option \<Rightarrow> RateLimiter" where
  "NewRateLimiter rate burst key =
     \<lparr>rl_cfg = \<lparr>RequestsPerSec = rate, Burst = burst,
                Key = (case key of None \<Rightarrow> remote_ip | Some k \<Rightarrow> k)\<rparr>,
      buckets = Map.empty\<rparr>"

section \<open>Numbers\<close>

definition go_trunc :: "real \<Rightarrow> int" where
  "go_trunc x = (if x \<ge> 0 then \<lfloor>x\<rfloor> else \<lceil>x\<rceil>)"

section \<open>Taking a token, sweeping idle buckets\<close>

definition refill :: "(real \<Rightarrow> real) \<Rightarrow> RateLimitConfig \<Rightarrow> bucket \<Rightarrow> instant \<Rightarrow> real" where
  "refill rnd cfg b now =
     min (Burst cfg)
       (rnd (tokens b + rnd (Seconds rnd (time_Sub now (last_seen b)) * RequestsPerSec cfg)))"

definition rl_take :: "(real \<Rightarrow> real) \<Rightarrow> RateLimiter \<Rightarrow> bytes \<Rightarrow> instant
    \<Rightarrow> (bool \<times> int \<times> duration) \<times> RateLimiter" where
  "rl_take rnd rl key now =
     (let cfg = rl_cfg rl;
          b = (case buckets rl key of None \<Rightarrow> \<lparr>tokens = Burst cfg, last_seen = now\<rparr> | Some b \<Rightarrow> b);
          t = refill rnd cfg b now
      in if t \<ge> 1
           then ((True, go_trunc (rnd (t - 1)), 0),
                 rl\<lparr>buckets := (buckets rl)(key \<mapsto> \<lparr>tokens = rnd (t - 1), last_seen = now\<rparr>)\<rparr>)
           else ((False, 0, go_trunc (rnd (rnd (rnd (1 - t) / RequestsPerSec cfg) * of_int Second))),
                 rl\<lparr>buckets := (buckets rl)(key \<mapsto> \<lparr>tokens = t, last_seen = now\<rparr>)\<rparr>))"

text \<open>One tick of the janitor. The product of the two durations is an \<open>int64\<close> product.\<close>

definition janitor_idle :: "(real \<Rightarrow> real) \<Rightarrow> RateLimitConfig \<Rightarrow> duration" where
  "janitor_idle rnd cfg =
     wrap64 (wrap64 (go_trunc (rnd (Burst cfg / RequestsPerSec cfg)) * Second) + Minute)"

definition janitor_tick :: "(real \<Rightarrow> real) \<Rightarrow> RateLimiter \<Rightarrow> instant \<Rightarrow> RateLimiter" where
  "janitor_tick rnd rl now =
     rl\<lparr>buckets := (\<lambda>k. case buckets rl k of None \<Rightarrow> None
        | Some b \<Rightarrow> if last_seen b < now - janitor_idle rnd (rl_cfg rl) then None else Some b)\<rparr>"

section \<open>The middleware\<close>

definition retry_after :: "(real \<Rightarrow> real) \<Rightarrow> duration \<Rightarrow> int" where
  "retry_after rnd wait = max 1 \<lceil>Seconds rnd wait\<rceil>"

definition RateLimit :: "(real \<Rightarrow> real) \<Rightarrow> ('m, RateLimiter, 'c, 'p) world handler
    \<Rightarrow> int \<Rightarrow> ('m, RateLimiter, 'c, 'p) world handler" where
  "RateLimit rnd next lmt req w g =
     (let (now, g) = time_Now g;
          ((allowed, remaining, wait), rl) = rl_take rnd (limiter g) (Key (rl_cfg (limiter g)) req) now;
          g = g\<lparr>limiter := rl\<rparr>;
          w = w_SetHeader w ''X-RateLimit-Limit'' (Itoa lmt);
          w = w_SetHeader w ''X-RateLimit-Remaining'' (Itoa remaining)
      in if allowed then next req w g
         else let retry = Itoa (retry_after rnd wait)
              in (Returned, req,
                  w_Error (w_SetHeader w ''Retry-After'' retry) StatusTooManyRequests
                    (''rate limit exceeded; retry after '' @ retry @ ''s''), g))"

definition RateLimit_Middleware :: "(real \<Rightarrow> real) \<Rightarrow> RateLimitConfig
    \<Rightarrow> ('m, RateLimiter, 'c, 'p) world handler \<Rightarrow> ('m, RateLimiter, 'c, 'p) world handler" where
  "RateLimit_Middleware rnd cfg next = RateLimit rnd next (go_trunc (Burst cfg))"

lemmas limiter_defs [go_eval] =
  remote_ip_def NewRateLimiter_def go_trunc_def refill_def rl_take_def janitor_idle_def
  janitor_tick_def retry_after_def RateLimit_def RateLimit_Middleware_def

section \<open>The bucket invariant\<close>

definition rounding :: "(real \<Rightarrow> real) \<Rightarrow> RateLimitConfig \<Rightarrow> bool" where
  "rounding rnd cfg \<longleftrightarrow> mono rnd \<and> rnd 0 = 0 \<and> rnd (Burst cfg) = Burst cfg"

lemma rounding_nonneg: "rounding rnd cfg \<Longrightarrow> 0 \<le> x \<Longrightarrow> 0 \<le> rnd x"
  unfolding rounding_def by (metis monoD)

lemma rounding_le: "rounding rnd cfg \<Longrightarrow> x \<le> Burst cfg \<Longrightarrow> rnd x \<le> Burst cfg"
  unfolding rounding_def by (metis monoD)

lemma rounding_id: "rounding id cfg"
  by (simp add: rounding_def mono_def)

lemma go_div_nonneg: "0 \<le> d \<Longrightarrow> 0 < b \<Longrightarrow> go_div d b = d div b"
  by (cases "d = 0") (simp_all add: go_div_def)

lemma Second_pos [simp]: "0 < Second" "real_of_int Second > 0"
  by (simp_all add: Second_def)

lemma Seconds_nonneg:
  assumes "rounding rnd cfg" "0 \<le> d" shows "0 \<le> Seconds rnd d"
proof -
  have "0 \<le> d div Second" "0 \<le> d mod Second" "0 < Second" using assms(2)
    by (simp_all add: pos_imp_zdiv_nonneg_iff pos_mod_sign)
  then have "0 \<le> rnd (of_int (d div Second))" "0 \<le> rnd (of_int (d mod Second) / of_int Second)"
    by (auto intro!: rounding_nonneg [OF assms(1)] divide_nonneg_nonneg simp: Second_def)
  then have "0 \<le> rnd (rnd (of_int (d div Second)) + rnd (of_int (d mod Second) / of_int Second))"
    by (intro rounding_nonneg [OF assms(1)]) simp
  then show ?thesis using assms(2) by (simp add: Seconds_def go_div_nonneg minus_div_mult_eq_mod)
qed

lemma Seconds_id:
  assumes "0 \<le> d" shows "Seconds id d = of_int d / of_int Second"
proof -
  have "real_of_int d = of_int (d div Second) * of_int Second + of_int (d mod Second)"
    by (metis of_int_add of_int_mult div_mult_mod_eq)
  then have "of_int d / of_int Second = real_of_int (d div Second) + of_int (d mod Second) / of_int Second"
    by (simp add: add_divide_distrib)
  then show ?thesis using assms
    by (simp add: Seconds_def go_div_nonneg minus_div_mult_eq_mod)
qed

definition bucket_ok :: "RateLimitConfig \<Rightarrow> instant \<Rightarrow> bucket \<Rightarrow> bool" where
  "bucket_ok cfg now b \<longleftrightarrow> 0 \<le> tokens b \<and> tokens b \<le> Burst cfg \<and> last_seen b \<le> now"

definition limiter_ok :: "instant \<Rightarrow> RateLimiter \<Rightarrow> bool" where
  "limiter_ok now rl \<longleftrightarrow> 0 < RequestsPerSec (rl_cfg rl) \<and> 0 \<le> Burst (rl_cfg rl)
     \<and> (\<forall>k b. buckets rl k = Some b \<longrightarrow> bucket_ok (rl_cfg rl) now b)"

lemma time_Sub_nonneg: "u \<le> t \<Longrightarrow> 0 \<le> time_Sub t u"
  by (simp add: time_Sub_def MaxInt64_def)

lemma refill_bounds:
  assumes "rounding rnd cfg" "0 < RequestsPerSec cfg" "0 \<le> Burst cfg" "bucket_ok cfg now b"
  shows "0 \<le> refill rnd cfg b now" "refill rnd cfg b now \<le> Burst cfg"
proof -
  have b: "0 \<le> tokens b" "last_seen b \<le> now" using assms(4) by (simp_all add: bucket_ok_def)
  let ?s = "Seconds rnd (time_Sub now (last_seen b))"
  have "0 \<le> ?s" using Seconds_nonneg [OF assms(1) time_Sub_nonneg [OF b(2)]] .
  then have "0 \<le> rnd (?s * RequestsPerSec cfg)" using assms(2) by (intro rounding_nonneg [OF assms(1)]) simp
  then have "0 \<le> rnd (tokens b + rnd (?s * RequestsPerSec cfg))"
    using b(1) by (intro rounding_nonneg [OF assms(1)]) simp
  then show "0 \<le> refill rnd cfg b now" using assms(3) by (simp add: refill_def)
qed (simp add: refill_def)

definition the_bucket :: "RateLimiter \<Rightarrow> bytes \<Rightarrow> instant \<Rightarrow> bucket" where
  "the_bucket rl key now =
     (case buckets rl key of None \<Rightarrow> \<lparr>tokens = Burst (rl_cfg rl), last_seen = now\<rparr> | Some b \<Rightarrow> b)"

lemma the_bucket_ok: "limiter_ok now rl \<Longrightarrow> bucket_ok (rl_cfg rl) now (the_bucket rl key now)"
  by (auto simp: limiter_ok_def the_bucket_def bucket_ok_def split: option.splits)

lemma rl_take_cfg [simp]: "rl_cfg (snd (rl_take rnd rl key now)) = rl_cfg rl"
  by (simp add: rl_take_def Let_def)

lemma rl_take_unfold:
  "rl_take rnd rl key now =
     (let t = refill rnd (rl_cfg rl) (the_bucket rl key now) now
      in if t \<ge> 1
           then ((True, go_trunc (rnd (t - 1)), 0),
                 rl\<lparr>buckets := (buckets rl)(key \<mapsto> \<lparr>tokens = rnd (t - 1), last_seen = now\<rparr>)\<rparr>)
           else ((False, 0, go_trunc (rnd (rnd (rnd (1 - t) / RequestsPerSec (rl_cfg rl)) * of_int Second))),
                 rl\<lparr>buckets := (buckets rl)(key \<mapsto> \<lparr>tokens = t, last_seen = now\<rparr>)\<rparr>))"
  by (simp add: rl_take_def the_bucket_def Let_def)

lemma limiter_ok_later: "limiter_ok now rl \<Longrightarrow> now \<le> now' \<Longrightarrow> limiter_ok now' rl"
  by (fastforce simp: limiter_ok_def bucket_ok_def)

lemma rl_take_inv:
  assumes "rounding rnd (rl_cfg rl)" "limiter_ok now rl"
  shows "limiter_ok now (snd (rl_take rnd rl key now))"
proof -
  let ?t = "refill rnd (rl_cfg rl) (the_bucket rl key now) now"
  have b: "0 \<le> ?t" "?t \<le> Burst (rl_cfg rl)"
    using refill_bounds [OF assms(1) _ _ the_bucket_ok [OF assms(2)]] assms(2) by (auto simp: limiter_ok_def)
  then show ?thesis
    using assms(2) rounding_nonneg [OF assms(1), of "?t - 1"] rounding_le [OF assms(1), of "?t - 1"]
    by (auto simp: rl_take_unfold Let_def limiter_ok_def bucket_ok_def)
qed

lemma janitor_inv: "limiter_ok now rl \<Longrightarrow> limiter_ok now (janitor_tick rnd rl t)"
  by (auto simp: janitor_tick_def limiter_ok_def split: option.splits if_splits)

lemma go_trunc_nonneg: "0 \<le> x \<Longrightarrow> go_trunc x = \<lfloor>x\<rfloor>"
  by (simp add: go_trunc_def)

text \<open>
  The bucket invariant: as long as the clock readings do not go back, every bucket holds between
  zero and \<open>Burst\<close> tokens, under any monotone rounding that keeps 0 and \<open>Burst\<close>; a request passes
  exactly when a whole token is there, and is then told a remaining count between zero and \<open>Burst\<close>;
  one that does not pass is told none; and a janitor tick keeps the invariant too.
\<close>

theorem bucket_invariant:
  assumes "rounding rnd (rl_cfg rl)" "limiter_ok now rl"
    and "rl_take rnd rl key now = ((allowed, remaining, wait), rl')"
  shows "limiter_ok now rl' \<and> limiter_ok now (janitor_tick rnd rl t)
    \<and> (allowed \<longleftrightarrow> refill rnd (rl_cfg rl) (the_bucket rl key now) now \<ge> 1)
    \<and> 0 \<le> remaining \<and> real_of_int remaining \<le> Burst (rl_cfg rl)"
proof -
  let ?t = "refill rnd (rl_cfg rl) (the_bucket rl key now) now"
  have b: "0 \<le> ?t" "?t \<le> Burst (rl_cfg rl)"
    using refill_bounds [OF assms(1) _ _ the_bucket_ok [OF assms(2)]] assms(2) by (auto simp: limiter_ok_def)
  have "1 \<le> ?t \<Longrightarrow> 0 \<le> rnd (?t - 1)" "rnd (?t - 1) \<le> Burst (rl_cfg rl)"
    using b rounding_nonneg [OF assms(1), of "?t - 1"] rounding_le [OF assms(1), of "?t - 1"] by auto
  then have "1 \<le> ?t \<Longrightarrow> 0 \<le> go_trunc (rnd (?t - 1)) \<and> go_trunc (rnd (?t - 1)) \<le> Burst (rl_cfg rl)"
    by (auto simp: go_trunc_nonneg intro: order_trans [OF of_int_floor_le])
  then show ?thesis
    using assms(3) b rl_take_inv [OF assms(1,2), of key] janitor_inv [OF assms(2)]
    by (auto simp: rl_take_unfold Let_def split: if_splits)
qed

section \<open>Runs\<close>

fun rl_run :: "(real \<Rightarrow> real) \<Rightarrow> RateLimiter \<Rightarrow> (bytes \<times> instant) list
    \<Rightarrow> (bytes \<times> bool \<times> int \<times> duration) list \<times> RateLimiter" where
  "rl_run rnd rl [] = ([], rl)"
| "rl_run rnd rl ((k, t) # es) =
     (case rl_take rnd rl k t of (r, rl1) \<Rightarrow>
        case rl_run rnd rl1 es of (rs, rl2) \<Rightarrow> ((k, r) # rs, rl2))"

lemma rl_run_Cons [simp]:
  "fst (rl_run rnd rl ((k, t) # es))
     = (k, fst (rl_take rnd rl k t)) # fst (rl_run rnd (snd (rl_take rnd rl k t)) es)"
  by (simp split: prod.split)

declare rl_run.simps(2) [simp del]

lemma rl_take_local:
  assumes "rl_cfg rl = rl_cfg rl2" "buckets rl k = buckets rl2 k"
  shows "fst (rl_take rnd rl k t) = fst (rl_take rnd rl2 k t)"
    and "buckets (snd (rl_take rnd rl k t)) k = buckets (snd (rl_take rnd rl2 k t)) k"
  using assms by (simp_all add: rl_take_def Let_def)

lemma rl_take_other: "k \<noteq> k' \<Longrightarrow> buckets (snd (rl_take rnd rl k' t)) k = buckets rl k"
  by (simp add: rl_take_def Let_def)

lemma rl_run_isolated:
  assumes "rl_cfg rl = rl_cfg rl2" "buckets rl k = buckets rl2 k"
  shows "filter (\<lambda>(k', _). k' = k) (fst (rl_run rnd rl es)) = fst (rl_run rnd rl2 (filter (\<lambda>(k', _). k' = k) es))"
  using assms
proof (induction es arbitrary: rl rl2)
  case (Cons e es)
  obtain k' t where e: "e = (k', t)" by fastforce
  show ?case
  proof (cases "k' = k")
    case True
    have "filter (\<lambda>(k', _). k' = k) (fst (rl_run rnd (snd (rl_take rnd rl k t)) es))
        = fst (rl_run rnd (snd (rl_take rnd rl2 k t)) (filter (\<lambda>(k', _). k' = k) es))"
      using Cons.prems rl_take_local [OF Cons.prems] by (intro Cons.IH) simp_all
    with rl_take_local(1) [OF Cons.prems, of rnd t] True e show ?thesis by simp
  next
    case False
    have "filter (\<lambda>(k', _). k' = k) (fst (rl_run rnd (snd (rl_take rnd rl k' t)) es))
        = fst (rl_run rnd rl2 (filter (\<lambda>(k', _). k' = k) es))"
      using Cons.prems False by (intro Cons.IH) (simp_all add: rl_take_other)
    with False e show ?thesis by simp
  qed
qed simp

text \<open>
  C30. Clients are isolated: in any interleaving of the requests of many clients, each client gets
  exactly the verdicts, remaining counts and waits it would get alone.
\<close>

theorem clients_isolated:
  "filter (\<lambda>(k', _). k' = k) (fst (rl_run rnd rl es)) = fst (rl_run rnd rl (filter (\<lambda>(k', _). k' = k) es))"
  by (rule rl_run_isolated) simp_all

section \<open>How much a client can get\<close>

definition allowed_count :: "bytes \<Rightarrow> (bytes \<times> bool \<times> int \<times> duration) list \<Rightarrow> nat" where
  "allowed_count k rs = length (filter (\<lambda>(k', a, _). k' = k \<and> a) rs)"

definition credit :: "RateLimiter \<Rightarrow> bytes \<Rightarrow> instant \<Rightarrow> instant \<Rightarrow> real" where
  "credit rl k t0 t1 =
     (case buckets rl k of
        None \<Rightarrow> Burst (rl_cfg rl) + RequestsPerSec (rl_cfg rl) * of_int (t1 - t0) / of_int Second
      | Some b \<Rightarrow> tokens b + RequestsPerSec (rl_cfg rl) * of_int (t1 - last_seen b) / of_int Second)"

lemma refill_id_le:
  assumes "0 < RequestsPerSec cfg" "last_seen b \<le> t"
  shows "refill id cfg b t \<le> tokens b + RequestsPerSec cfg * of_int (t - last_seen b) / of_int Second"
proof -
  have "time_Sub t (last_seen b) \<le> t - last_seen b" using assms(2) by (simp add: time_Sub_def MinInt64_def)
  then have "real_of_int (time_Sub t (last_seen b)) / of_int Second \<le> of_int (t - last_seen b) / of_int Second"
    by (intro divide_right_mono) (simp_all only: of_int_le_iff, simp add: Second_def)
  then have "Seconds id (time_Sub t (last_seen b)) \<le> of_int (t - last_seen b) / of_int Second"
    using Seconds_id [OF time_Sub_nonneg [OF assms(2)]] by simp
  then have "Seconds id (time_Sub t (last_seen b)) * RequestsPerSec cfg
      \<le> of_int (t - last_seen b) / of_int Second * RequestsPerSec cfg"
    using assms(1) by (intro mult_right_mono) simp_all
  then show ?thesis by (simp add: refill_def mult.commute)
qed

lemma elapsed_mono:
  "0 < r \<Longrightarrow> a \<le> b \<Longrightarrow> r * real_of_int a / of_int Second \<le> r * of_int b / of_int Second"
  by (intro divide_right_mono mult_left_mono) (simp_all add: Second_def)

lemma elapsed_nonneg: "0 < r \<Longrightarrow> 0 \<le> a \<Longrightarrow> 0 \<le> r * real_of_int a / of_int Second"
  by (simp add: Second_def)

lemma credit_nonneg:
  assumes "limiter_ok t0 rl" "t0 \<le> t1" shows "0 \<le> credit rl k t0 t1"
proof (cases "buckets rl k")
  case None
  then show ?thesis
    using assms elapsed_nonneg [of "RequestsPerSec (rl_cfg rl)" "t1 - t0"]
    by (simp add: credit_def limiter_ok_def)
next
  case (Some b)
  then have "bucket_ok (rl_cfg rl) t0 b" "0 < RequestsPerSec (rl_cfg rl)" using assms by (auto simp: limiter_ok_def)
  then show ?thesis
    using Some assms elapsed_nonneg [of "RequestsPerSec (rl_cfg rl)" "t1 - last_seen b"]
    by (simp add: credit_def bucket_ok_def)
qed

lemma credit_later:
  "limiter_ok t0 rl \<Longrightarrow> t0 \<le> t \<Longrightarrow> credit rl k t t1 \<le> credit rl k t0 t1"
  using elapsed_mono [of "RequestsPerSec (rl_cfg rl)" "t1 - t" "t1 - t0"]
  by (simp add: credit_def limiter_ok_def split: option.split)

lemma credit_take:
  assumes "limiter_ok t rl"
  shows "(if fst (fst (rl_take id rl k t)) then 1 else 0) + credit (snd (rl_take id rl k t)) k t t1 \<le> credit rl k t t1"
proof -
  let ?cfg = "rl_cfg rl" and ?b = "the_bucket rl k t"
  have p: "0 < RequestsPerSec ?cfg" using assms by (simp add: limiter_ok_def)
  have "last_seen ?b \<le> t" using the_bucket_ok [OF assms] by (simp add: bucket_ok_def)
  from refill_id_le [OF p this] have
    r: "refill id ?cfg ?b t + RequestsPerSec ?cfg * of_int (t1 - t) / of_int Second
      \<le> tokens ?b + RequestsPerSec ?cfg * of_int (t1 - last_seen ?b) / of_int Second"
    by (simp add: algebra_simps diff_divide_distrib add_divide_distrib)
  have "credit rl k t t1 = tokens ?b + RequestsPerSec ?cfg * of_int (t1 - last_seen ?b) / of_int Second"
    by (simp add: credit_def the_bucket_def split: option.splits)
  moreover have "credit (snd (rl_take id rl k t)) k t t1
      = (if refill id ?cfg ?b t \<ge> 1 then refill id ?cfg ?b t - 1 else refill id ?cfg ?b t)
        + RequestsPerSec ?cfg * of_int (t1 - t) / of_int Second"
    by (simp add: credit_def rl_take_unfold Let_def)
  moreover have "fst (fst (rl_take id rl k t)) = (refill id ?cfg ?b t \<ge> 1)"
    by (simp add: rl_take_unfold Let_def)
  ultimately show ?thesis using r by simp
qed

lemma admission:
  assumes "limiter_ok t0 rl" "sorted (t0 # map snd es)" "\<forall>e \<in> set es. snd e \<le> t1" "t0 \<le> t1"
  shows "real (allowed_count k (fst (rl_run id rl es))) \<le> credit rl k t0 t1"
  using assms
proof (induction es arbitrary: rl t0)
  case Nil
  then show ?case by (simp add: allowed_count_def credit_nonneg)
next
  case (Cons e es)
  obtain k' t where e: "e = (k', t)" by fastforce
  let ?r = "rl_take id rl k' t"
  have t: "t0 \<le> t" "t \<le> t1" using Cons.prems e by auto
  have ok: "limiter_ok t rl" using Cons.prems(1) t(1) by (rule limiter_ok_later)
  then have ok': "limiter_ok t (snd ?r)" by (rule rl_take_inv [OF rounding_id])
  have IH: "real (allowed_count k (fst (rl_run id (snd ?r) es))) \<le> credit (snd ?r) k t t1"
    using Cons.prems t e by (intro Cons.IH [OF ok']) auto
  have "allowed_count k (fst (rl_run id rl (e # es)))
      = (if k' = k \<and> fst (fst ?r) then 1 else 0) + allowed_count k (fst (rl_run id (snd ?r) es))"
    by (auto simp: e allowed_count_def)
  moreover have "(if k' = k \<and> fst (fst ?r) then 1 else 0) + credit (snd ?r) k t t1 \<le> credit rl k t t1"
  proof (cases "k' = k")
    case True
    then show ?thesis using credit_take [OF ok, of k t1] by simp
  next
    case False
    then have "credit (snd ?r) k t t1 = credit rl k t t1" by (cases "buckets rl k") (simp_all add: credit_def rl_take_other)
    with False show ?thesis by simp
  qed
  ultimately have "real (allowed_count k (fst (rl_run id rl (e # es)))) \<le> credit rl k t t1"
    using IH by (cases "k' = k \<and> fst (fst ?r)") auto
  also have "\<dots> \<le> credit rl k t0 t1" by (rule credit_later [OF Cons.prems(1) t(1)])
  finally show ?case .
qed


definition sample_limiter :: RateLimiter where
  "sample_limiter = NewRateLimiter 1 2 None"

lemma sample_limiter_ok: "limiter_ok 0 sample_limiter" "rl_cfg sample_limiter = \<lparr>RequestsPerSec = 1, Burst = 2, Key = remote_ip\<rparr>"
  "buckets sample_limiter k = None"
  by (simp_all add: sample_limiter_def NewRateLimiter_def limiter_ok_def)

theorem bucket_invariant_witness:
  "\<exists>r rl'. rl_take id sample_limiter ''a'' 0 = ((True, r), rl') \<and> limiter_ok 0 rl'"
proof -
  obtain al rem wt rl' where t: "rl_take id sample_limiter ''a'' 0 = ((al, rem, wt), rl')"
    by (metis prod.exhaust)
  have "refill id (rl_cfg sample_limiter) (the_bucket sample_limiter ''a'' 0) 0 = 2"
    by (simp add: sample_limiter_ok the_bucket_def refill_def time_Sub_def Seconds_def go_div_def
        MaxInt64_def MinInt64_def)
  with bucket_invariant [OF rounding_id sample_limiter_ok(1) t] t show ?thesis by simp
qed


section \<open>The janitor and the Retry-After header\<close>

lemma fresh_refill: "refill id cfg \<lparr>tokens = Burst cfg, last_seen = now\<rparr> now = Burst cfg"
  by (simp add: refill_def time_Sub_def Seconds_def go_div_def MaxInt64_def MinInt64_def)

lemma idle_refill:
  assumes "0 < RequestsPerSec cfg" "0 \<le> Burst cfg" "0 \<le> tokens b"
    and "Burst cfg / RequestsPerSec cfg * of_int Second \<le> of_int (time_Sub now (last_seen b))"
    and "last_seen b \<le> now"
  shows "refill id cfg b now = Burst cfg"
proof -
  have "Burst cfg / RequestsPerSec cfg \<le> Seconds id (time_Sub now (last_seen b))"
    using assms(4) by (simp add: Seconds_id time_Sub_nonneg [OF assms(5)] pos_le_divide_eq Second_def)
  then have "Burst cfg \<le> Seconds id (time_Sub now (last_seen b)) * RequestsPerSec cfg"
    using assms(1) by (simp add: pos_divide_le_eq)
  then show ?thesis using assms(3) by (simp add: refill_def)
qed

lemma janitor_refill:
  assumes "limiter_ok t rl" "t \<le> now"
    and "of_int (\<lfloor>Burst (rl_cfg rl) / RequestsPerSec (rl_cfg rl)\<rfloor> * Second + Minute) \<le> real_of_int MaxInt64"
  shows "refill id (rl_cfg rl) (the_bucket (janitor_tick id rl t) k now) now = refill id (rl_cfg rl) (the_bucket rl k now) now"
proof -
  let ?cfg = "rl_cfg rl" and ?rl = "janitor_tick id rl t"
  let ?q = "\<lfloor>Burst ?cfg / RequestsPerSec ?cfg\<rfloor>"
  have p: "0 < RequestsPerSec ?cfg" "0 \<le> Burst ?cfg" using assms(1) by (auto simp: limiter_ok_def)
  have q: "0 \<le> ?q" "?q * Second + Minute \<le> MaxInt64" using p assms(3) by (simp_all only: of_int_le_iff) simp
  have idle: "janitor_idle id ?cfg = ?q * Second + Minute"
  proof -
    have "0 \<le> ?q * Second" "Minute > 0" using q(1) by (simp_all add: Second_def Minute_def)
    then have "wrap64 (?q * Second) = ?q * Second" "wrap64 (?q * Second + Minute) = ?q * Second + Minute"
      using q by (auto intro!: wrap64_id simp: MinInt64_def)
    then show ?thesis using p by (simp add: janitor_idle_def go_trunc_nonneg)
  qed
  show ?thesis
  proof (cases "\<exists>b. buckets rl k = Some b \<and> last_seen b < t - janitor_idle id ?cfg")
    case True
    then obtain b where b: "buckets rl k = Some b" "last_seen b < t - janitor_idle id ?cfg" by blast
    have ok: "bucket_ok ?cfg t b" using b(1) assms(1) by (auto simp: limiter_ok_def)
    have "?q * Second + Minute \<le> time_Sub now (last_seen b)"
      using b(2) assms(2) q by (simp add: idle time_Sub_def)
    moreover have "Burst ?cfg / RequestsPerSec ?cfg * of_int Second \<le> of_int (?q * Second + Minute)"
    proof -
      have "Burst ?cfg / RequestsPerSec ?cfg \<le> of_int ?q + 1" by linarith
      then have "Burst ?cfg / RequestsPerSec ?cfg * of_int Second \<le> (of_int ?q + 1) * of_int Second"
        by (intro mult_right_mono) (simp_all add: Second_def)
      also have "\<dots> \<le> of_int (?q * Second + Minute)" by (simp add: Second_def Minute_def)
      finally show ?thesis .
    qed
    ultimately have "Burst ?cfg / RequestsPerSec ?cfg * of_int Second \<le> of_int (time_Sub now (last_seen b))"
      by (meson of_int_le_iff order_trans)
    then have "refill id ?cfg b now = Burst ?cfg"
      using ok assms(2) by (intro idle_refill [OF p]) (simp_all add: bucket_ok_def)
    moreover have "the_bucket ?rl k now = \<lparr>tokens = Burst ?cfg, last_seen = now\<rparr>" "the_bucket rl k now = b"
      using b by (simp_all add: the_bucket_def janitor_tick_def)
    ultimately show ?thesis by (simp add: fresh_refill)
  next
    case False
    then have "the_bucket ?rl k now = the_bucket rl k now"
      by (auto simp: the_bucket_def janitor_tick_def split: option.splits)
    then show ?thesis by simp
  qed
qed

text \<open>
  The janitor is invisible: dropping the idle buckets never changes what a later request gets,
  because a bucket idle for that long is full again (in exact arithmetic, while the capacity over
  the rate stays inside the range of a duration).
\<close>

theorem janitor_transparent:
  assumes "limiter_ok t rl" "t \<le> now"
    and "of_int (\<lfloor>Burst (rl_cfg rl) / RequestsPerSec (rl_cfg rl)\<rfloor> * Second + Minute) \<le> real_of_int MaxInt64"
  shows "fst (rl_take id (janitor_tick id rl t) k now) = fst (rl_take id rl k now)
    \<and> buckets (snd (rl_take id (janitor_tick id rl t) k now)) k = buckets (snd (rl_take id rl k now)) k"
  using janitor_refill [OF assms, of k] by (simp add: rl_take_unfold Let_def) (simp add: janitor_tick_def)

theorem janitor_transparent_witness:
  "fst (rl_take id (janitor_tick id (sample_limiter\<lparr>buckets := [''a'' \<mapsto> \<lparr>tokens = 0, last_seen = - (100 * Second)\<rparr>]\<rparr>) 0) ''a'' 0)
     = fst (rl_take id (sample_limiter\<lparr>buckets := [''a'' \<mapsto> \<lparr>tokens = 0, last_seen = - (100 * Second)\<rparr>]\<rparr>) ''a'' 0)"
proof -
  let ?rl = "sample_limiter\<lparr>buckets := [''a'' \<mapsto> \<lparr>tokens = 0, last_seen = - (100 * Second)\<rparr>]\<rparr>"
  have "limiter_ok 0 ?rl"
    by (simp add: limiter_ok_def sample_limiter_ok bucket_ok_def) (simp add: Second_def)
  from janitor_transparent [OF this order_refl] show ?thesis
    by (simp add: sample_limiter_ok) (simp add: Second_def Minute_def MaxInt64_def)
qed

lemma take_later:
  assumes "limiter_ok now rl" "1 \<le> Burst (rl_cfg rl)"
    and "rl_take id rl k now = ((False, remaining, wait), rl')"
    and "now + retry_after id wait * Second < now'" "now' - now \<le> MaxInt64"
  shows "fst (fst (rl_take id rl' k now'))" and "0 \<le> wait"
proof -
  let ?cfg = "rl_cfg rl"
  let ?t = "refill id ?cfg (the_bucket rl k now) now"
  have p: "0 < RequestsPerSec ?cfg" using assms(1) by (auto simp: limiter_ok_def)
  have t: "\<not> 1 \<le> ?t" "wait = go_trunc ((1 - ?t) / RequestsPerSec ?cfg * of_int Second)"
      "rl' = rl\<lparr>buckets := (buckets rl)(k \<mapsto> \<lparr>tokens = ?t, last_seen = now\<rparr>)\<rparr>"
    using assms(3) by (auto simp: rl_take_unfold Let_def split: if_splits)
  have w: "wait = \<lfloor>(1 - ?t) / RequestsPerSec ?cfg * of_int Second\<rfloor>"
    using t(1,2) p by (simp add: go_trunc_nonneg Second_def)
  then show w0: "0 \<le> wait" using t(1) p by (simp add: Second_def)
  have "of_int wait / of_int Second \<le> real_of_int (retry_after id wait)"
    using Seconds_id [OF w0] by (simp add: retry_after_def) linarith
  then have "wait \<le> retry_after id wait * Second"
    by (simp add: pos_divide_le_eq) (metis of_int_le_iff of_int_mult)
  then have d: "wait + 1 \<le> now' - now" using assms(4) by linarith
  then have sub: "time_Sub now' now = now' - now"
    using assms(5) w0 by (intro time_Sub_id) linarith+
  have "(1 - ?t) / RequestsPerSec ?cfg * of_int Second \<le> of_int (now' - now)"
    using d w by linarith
  then have "(1 - ?t) / RequestsPerSec ?cfg \<le> of_int (now' - now) / of_int Second"
    by (simp add: pos_le_divide_eq)
  then have "1 - ?t \<le> Seconds id (time_Sub now' now) * RequestsPerSec ?cfg"
    using Seconds_id [of "now' - now"] d w0 sub p by (simp add: pos_divide_le_eq)
  then have "1 \<le> refill id ?cfg \<lparr>tokens = ?t, last_seen = now\<rparr> now'"
    using assms(2) by (simp add: refill_def)
  then show "fst (fst (rl_take id rl' k now'))"
    by (simp add: rl_take_unfold the_bucket_def t(3) Let_def)
qed

text \<open>
  The 429 tells the truth. A refused request does not reach the handler and is answered with 429
  and a \<open>Retry-After\<close> of at least one second; a client that comes back one nanosecond after that many
  seconds finds a token, if nobody shares its bucket.
\<close>

theorem RateLimit_refusal:
  assumes "limiter_ok (clock g (ticks g)) (limiter g)" "1 \<le> Burst (rl_cfg (limiter g))" "\<not> hijacked w"
    and "rl_take id (limiter g) (Key (rl_cfg (limiter g)) req) (clock g (ticks g)) = ((False, remaining, wait), rl')"
  shows "\<exists>w' g'. RateLimit id h lmt req w g = (Returned, req, w', g') \<and> w_status w' = 429
    \<and> Headers_Values (w_headers w') ''Retry-After'' = [Itoa (retry_after id wait)] \<and> 1 \<le> retry_after id wait
    \<and> Headers_Values (w_headers w') ''X-RateLimit-Remaining'' = [''0'']
    \<and> (\<forall>now' > clock g (ticks g) + retry_after id wait * Second. now' - clock g (ticks g) \<le> MaxInt64 \<longrightarrow>
         fst (fst (rl_take id (limiter g') (Key (rl_cfg (limiter g)) req) now')))"
proof -
  have c: "canonical ''X-RateLimit-Remaining'' = ''X-Ratelimit-Remaining''"
    "canonical ''X-RateLimit-Limit'' = ''X-Ratelimit-Limit''" by code_simp+
  have "remaining = 0" using assms(4) by (auto simp: rl_take_def Let_def split: if_splits)
  then show ?thesis
    using assms take_later [OF assms(1,2,4)]
    by (auto simp: RateLimit_def time_Now_def Let_def w_Error_def w_SetHeader_def Values_Set c
        retry_after_def Itoa_def fmt_nat.simps digit_char_def)
qed

theorem RateLimit_refusal_witness:
  "\<exists>w' g'. RateLimit id (\<lambda>req w g. (Panicked, req, w, g)) 2 (sample_request ''GET'' ''/'') NewResponseWriter
      (sample_world () (sample_limiter\<lparr>buckets := [''10.0.0.7'' \<mapsto> \<lparr>tokens = 0, last_seen = 1700000000 * Second\<rparr>]\<rparr>) () ())
      = (Returned, sample_request ''GET'' ''/'', w', g') \<and> w_status w' = 429"
proof -
  let ?rl = "sample_limiter\<lparr>buckets := [''10.0.0.7'' \<mapsto> \<lparr>tokens = 0, last_seen = 1700000000 * Second\<rparr>]\<rparr>"
  let ?g = "sample_world () ?rl () ()" and ?r = "sample_request ''GET'' ''/''"
  have ok: "limiter_ok (clock ?g (ticks ?g)) (limiter ?g)"
    by (simp add: limiter_ok_def sample_limiter_ok bucket_ok_def sample_world_def)
  have k: "Key (rl_cfg (limiter ?g)) ?r = ''10.0.0.7''"
    by (simp add: sample_world_def sample_limiter_ok sample_request_def remote_ip_def SplitHostPort_def
        last_index_def first_index_def)
  have "refill id (rl_cfg ?rl) \<lparr>tokens = 0, last_seen = 1700000000 * Second\<rparr> (1700000000 * Second) = 0"
    by (simp add: refill_def time_Sub_def Seconds_def go_div_def sample_limiter_ok MaxInt64_def MinInt64_def)
  then have "\<exists>wt rl'. rl_take id ?rl ''10.0.0.7'' (1700000000 * Second) = ((False, 0, wt), rl')"
    by (simp add: rl_take_unfold the_bucket_def Let_def)
  then obtain wt rl' where "rl_take id (limiter ?g) (Key (rl_cfg (limiter ?g)) ?r) (clock ?g (ticks ?g)) = ((False, 0, wt), rl')"
    unfolding k by (auto simp: sample_world_def)
  from RateLimit_refusal [OF ok _ _ this, of NewResponseWriter "\<lambda>req w g. (Panicked, req, w, g)" 2]
  show ?thesis by (auto simp: sample_world_def sample_limiter_ok NewResponseWriter_def)
qed

lemma RateLimit_well_behaved: "well_behaved h \<Longrightarrow> well_behaved (RateLimit_Middleware rnd cfg h)"
  by (rule well_behavedI)
     (auto simp: RateLimit_Middleware_def RateLimit_def time_Now_def Let_def writer_inv sound_Returned
        intro!: sound_trans [OF well_behavedD] split: prod.split)

interpretation rate_limit: middleware "RateLimit_Middleware rnd cfg" for rnd cfg
  by unfold_locales (rule RateLimit_well_behaved)

end
