(* ===== verification/Rate_Janitor.thy ===== *)
theory Rate_Janitor
  imports Rate_Limit
begin

text \<open>
  The rate limiter together with its janitor goroutine (\<open>middleware/ratelimit.go\<close>): requests, ticks
  and the end of the janitor in any order, against a limiter that never forgets a bucket.
\<close>

section \<open>The janitor's loop among the requests\<close>

text \<open>What happens to the limiter: a request takes a token, the janitor's \<open>select\<close> sees a tick or the closed channel.\<close>

datatype limiter_event = Take bytes | Swept | StopSeen

fun janitor :: "(real \<Rightarrow> real) \<Rightarrow> bool \<Rightarrow> RateLimiter \<Rightarrow> (limiter_event \<times> instant) list
    \<Rightarrow> (bytes \<times> bool \<times> int \<times> duration) list \<times> RateLimiter" where
  "janitor rnd running rl [] = ([], rl)"
| "janitor rnd running rl ((Take k, t) # es) =
     (case rl_take rnd rl k t of (r, rl1) \<Rightarrow>
        case janitor rnd running rl1 es of (rs, rl2) \<Rightarrow> ((k, r) # rs, rl2))"
| "janitor rnd running rl ((Swept, t) # es) =
     janitor rnd running (if running then janitor_tick rnd rl t else rl) es"
| "janitor rnd running rl ((StopSeen, t) # es) = janitor rnd False rl es"

fun takes :: "(limiter_event \<times> instant) list \<Rightarrow> (bytes \<times> instant) list" where
  "takes [] = []"
| "takes ((Take k, t) # es) = (k, t) # takes es"
| "takes (_ # es) = takes es"

lemma janitor_Take [simp]:
  "fst (janitor rnd running rl ((Take k, t) # es))
     = (k, fst (rl_take rnd rl k t)) # fst (janitor rnd running (snd (rl_take rnd rl k t)) es)"
  by (simp split: prod.split)

declare janitor.simps(2) [simp del]

section \<open>Limiters that answer alike\<close>

definition alike :: "instant \<Rightarrow> RateLimiter \<Rightarrow> RateLimiter \<Rightarrow> bool" where
  "alike t rl rl2 \<longleftrightarrow> rl_cfg rl2 = rl_cfg rl
     \<and> (\<forall>k. \<forall>now \<ge> t. refill id (rl_cfg rl) (the_bucket rl k now) now = refill id (rl_cfg rl) (the_bucket rl2 k now) now)"

lemma alike_refl: "alike t rl rl"
  by (simp add: alike_def)

lemma alike_later: "alike t rl rl2 \<Longrightarrow> t \<le> t' \<Longrightarrow> alike t' rl rl2"
  by (simp add: alike_def)

lemma the_bucket_take:
  "the_bucket (snd (rl_take rnd rl k t)) k' now =
     (if k' = k then
        let r = refill rnd (rl_cfg rl) (the_bucket rl k t) t
        in \<lparr>tokens = (if r \<ge> 1 then rnd (r - 1) else r), last_seen = t\<rparr>
      else the_bucket rl k' now)"
proof (cases "k' = k")
  case True
  then show ?thesis by (simp add: the_bucket_def [of "snd (rl_take rnd rl k t)"]) (simp add: rl_take_unfold Let_def)
next
  case False
  then show ?thesis by (simp only: the_bucket_def rl_take_other [OF False] rl_take_cfg if_False)
qed

lemma alike_take:
  assumes "alike t rl rl2"
  shows "fst (rl_take id rl k t) = fst (rl_take id rl2 k t)"
    "alike t (snd (rl_take id rl k t)) (snd (rl_take id rl2 k t))"
proof -
  have c: "rl_cfg rl2 = rl_cfg rl" using assms by (simp add: alike_def)
  have r: "refill id (rl_cfg rl) (the_bucket rl k t) t = refill id (rl_cfg rl) (the_bucket rl2 k t) t"
    using assms by (simp add: alike_def)
  show "fst (rl_take id rl k t) = fst (rl_take id rl2 k t)"
    by (simp add: rl_take_unfold Let_def c r)
  show "alike t (snd (rl_take id rl k t)) (snd (rl_take id rl2 k t))"
    using assms by (auto simp: alike_def the_bucket_take c r Let_def)
qed

text \<open>The capacity over the rate, in whole seconds, with the extra minute, is a duration.\<close>

definition idle_fits :: "RateLimitConfig \<Rightarrow> bool" where
  "idle_fits cfg \<longleftrightarrow> of_int (\<lfloor>Burst cfg / RequestsPerSec cfg\<rfloor> * Second + Minute) \<le> real_of_int MaxInt64"

lemma alike_sweep:
  assumes "limiter_ok t rl" "idle_fits (rl_cfg rl)" "alike t rl rl2"
  shows "alike t (janitor_tick id rl t) rl2"
proof -
  have "rl_cfg (janitor_tick id rl t) = rl_cfg rl" by (simp add: janitor_tick_def)
  with assms(3) janitor_refill [OF assms(1) _ assms(2) [unfolded idle_fits_def]] show ?thesis
    by (simp add: alike_def)
qed

lemma janitor_alike:
  "limiter_ok t0 rl \<Longrightarrow> idle_fits (rl_cfg rl) \<Longrightarrow> alike t0 rl rl2 \<Longrightarrow> sorted (t0 # map snd es) \<Longrightarrow>
   fst (janitor id running rl es) = fst (rl_run id rl2 (takes es))"
proof (induction es arbitrary: t0 running rl rl2)
  case (Cons e es)
  obtain ev t where e: "e = (ev, t)" by fastforce
  have t: "t0 \<le> t" "sorted (t # map snd es)" using Cons.prems(4) e by auto
  have ok: "limiter_ok t rl" using Cons.prems(1) t(1) by (rule limiter_ok_later)
  have al: "alike t rl rl2" using Cons.prems(3) t(1) by (rule alike_later)
  show ?case
  proof (cases ev)
    case (Take k)
    have "fst (janitor id running (snd (rl_take id rl k t)) es) = fst (rl_run id (snd (rl_take id rl2 k t)) (takes es))"
      using Cons.prems(2) by (intro Cons.IH [OF rl_take_inv [OF rounding_id ok] _ alike_take(2) [OF al] t(2)]) simp
    then show ?thesis
      using alike_take(1) [OF al, of k] by (simp only: e Take takes.simps janitor_Take rl_run_Cons)
  next
    case Swept
    have "limiter_ok t (janitor_tick id rl t)" "rl_cfg (janitor_tick id rl t) = rl_cfg rl"
      using janitor_inv [OF ok] by (simp_all add: janitor_tick_def)
    then show ?thesis
      using ok al alike_sweep [OF ok Cons.prems(2) al] Cons.prems(2)
      unfolding e Swept janitor.simps takes.simps by (intro Cons.IH [OF _ _ _ t(2)]) auto
  next
    case StopSeen
    show ?thesis unfolding e StopSeen janitor.simps takes.simps by (rule Cons.IH [OF ok Cons.prems(2) al t(2)])
  qed
qed simp

text \<open>
  C32. Bounding the memory is free. However the janitor's sweeps fall between the requests of all clients,
  and whether or when it is stopped, every request gets the verdict, the remaining count and the wait
  that a limiter without a janitor gives it (in exact arithmetic, with clock readings in order, while
  the idle time is a duration).
\<close>

theorem janitor_invisible:
  assumes "limiter_ok t0 rl" "idle_fits (rl_cfg rl)" "sorted (t0 # map snd es)"
  shows "fst (janitor id running rl es) = fst (rl_run id rl (takes es))"
  using assms alike_refl by (intro janitor_alike)

theorem janitor_invisible_witness:
  "let es = [(Take ''a'', 0), (Swept, 5), (Take ''b'', 9), (Swept, 100 * Minute), (Take ''a'', 100 * Minute)]
   in fst (janitor id True sample_limiter es) = fst (rl_run id sample_limiter (takes es))"
proof -
  have "idle_fits (rl_cfg sample_limiter)"
    by (simp add: idle_fits_def sample_limiter_ok) (simp add: Second_def Minute_def MaxInt64_def)
  moreover have "0 \<le> Minute" "9 \<le> Minute" by (simp_all add: Minute_def Second_def)
  ultimately show ?thesis
    unfolding Let_def by (intro janitor_invisible [OF sample_limiter_ok(1)]) simp_all
qed

end
