(* ===== verification/Http_Cache.thy ===== *)
theory Http_Cache
  imports Http_Middleware
begin

text \<open>
  \<open>cache/cache.go\<close>: the LRU response cache with time-to-live freshness and ETag revalidation.

  \<open>container/list\<close> is a list of elements, front first; an element is a number (its pointer) with the
  entry it holds, and the item map goes from keys to element numbers, as in the source.
  \<open>cache_abs\<close> forgets the elements and gives the recency list of keyed entries that the abstract
  cache works on. The digest function \<open>sha256.Sum256\<close> is a parameter. \<open>put\<close> is \<open>None\<close> where the
  source panics (only for a negative capacity).
\<close>

section \<open>State\<close>

record entry =
  e_key :: bytes
  e_body :: bytes
  contentType :: bytes
  e_etag :: bytes
  expires :: instant

record Cache =
  capacity :: int
  ttl :: duration
  order :: "(nat \<times> entry) list"
  items :: "bytes \<rightharpoonup> nat"
  fresh_elem :: nat
  hits :: "64 word"
  misses :: "64 word"

definition cache_New :: "int \<Rightarrow> duration \<Rightarrow> Cache" where
  "cache_New cap t =
     \<lparr>capacity = cap, ttl = t, order = [], items = Map.empty, fresh_elem = 0, hits = 0, misses = 0\<rparr>"

section \<open>Operations\<close>

definition list_Remove :: "nat \<Rightarrow> (nat \<times> entry) list \<Rightarrow> (nat \<times> entry) list" where
  "list_Remove el xs = filter (\<lambda>(i, _). i \<noteq> el) xs"

definition drop_elem :: "Cache \<Rightarrow> nat \<Rightarrow> bytes \<Rightarrow> Cache" where
  "drop_elem c el key = c\<lparr>order := list_Remove el (order c), items := (items c)(key := None)\<rparr>"

definition cache_get :: "Cache \<Rightarrow> bytes \<Rightarrow> instant \<Rightarrow> entry option \<times> Cache" where
  "cache_get c key now =
     (case items c key of
        None \<Rightarrow> (None, c)
      | Some el \<Rightarrow>
          (case map_of (order c) el of
             None \<Rightarrow> (None, c)
           | Some e \<Rightarrow>
               if now > expires e then (None, drop_elem c el key)
               else (Some e, c\<lparr>order := (el, e) # list_Remove el (order c)\<rparr>)))"

definition pop_back :: "Cache \<Rightarrow> Cache" where
  "pop_back c = (case last (order c) of (el, e) \<Rightarrow> drop_elem c el (e_key e))"

lemma length_list_Remove: "(el, e) \<in> set xs \<Longrightarrow> length (list_Remove el xs) < length xs"
  unfolding list_Remove_def by (rule length_filter_less [of "(el, e)"]) auto

lemma pop_back_shrinks: "order c \<noteq> [] \<Longrightarrow> length (order (pop_back c)) < length (order c)"
  by (cases "last (order c)") (auto simp: pop_back_def drop_elem_def intro!: length_list_Remove
      dest: last_in_set)

function evict :: "Cache \<Rightarrow> Cache option" where
  "evict c =
     (if int (length (order c)) > capacity c
      then if order c = [] then None else evict (pop_back c)
      else Some c)"
  by pat_completeness auto

termination
  by (relation "measure (\<lambda>c. length (order c))") (simp_all add: pop_back_shrinks)

declare evict.simps [simp del]

definition cache_invalidate :: "Cache \<Rightarrow> bytes \<Rightarrow> Cache" where
  "cache_invalidate c key = (case items c key of None \<Rightarrow> c | Some el \<Rightarrow> drop_elem c el key)"

definition push_front :: "Cache \<Rightarrow> entry \<Rightarrow> Cache" where
  "push_front c e =
     c\<lparr>order := (fresh_elem c, e) # order c, items := (items c)(e_key e \<mapsto> fresh_elem c),
       fresh_elem := Suc (fresh_elem c)\<rparr>"

definition cache_put :: "Cache \<Rightarrow> entry \<Rightarrow> Cache option" where
  "cache_put c e = evict (push_front (cache_invalidate c (e_key e)) e)"

definition Stats :: "Cache \<Rightarrow> 64 word \<times> 64 word \<times> int" where
  "Stats c = (hits c, misses c, int (length (order c)))"

definition etagFor :: "(bytes \<Rightarrow> bytes) \<Rightarrow> bytes \<Rightarrow> bytes" where
  "etagFor sha256 body = CHR 0x22 # hex_EncodeToString (take 8 (sha256 body)) @ [CHR 0x22]"

section \<open>The middleware\<close>

definition is_write :: "bytes \<Rightarrow> bool" where
  "is_write m \<longleftrightarrow> m = ''POST'' \<or> m = ''PUT'' \<or> m = ''DELETE'' \<or> m = ''PATCH''"

text \<open>The lookup under the lock: the entry, with the hit or the miss counted.\<close>

definition lookup :: "Cache \<Rightarrow> bytes \<Rightarrow> instant \<Rightarrow> entry option \<times> Cache" where
  "lookup c key now =
     (case cache_get c key now of
        (Some e, c) \<Rightarrow> (Some e, c\<lparr>hits := hits c + 1\<rparr>)
      | (None, c) \<Rightarrow> (None, c\<lparr>misses := misses c + 1\<rparr>))"

definition serve_hit :: "entry \<Rightarrow> Request \<Rightarrow> ResponseWriter \<Rightarrow> ResponseWriter" where
  "serve_hit e req w =
     (let w = w_SetHeader w ''ETag'' (e_etag e);
          w = w_SetHeader w ''X-Cache'' ''HIT''
      in if Headers_Get (ReqHeaders req) ''If-None-Match'' = e_etag e
           then w_Hijack (w_WriteHeader w StatusNotModified)
         else
           let w = (if contentType e \<noteq> [] then w_SetHeader w ''Content-Type'' (contentType e) else w)
           in w_Hijack (w_SetBody (w_WriteHeader w StatusOK) (e_body e)))"

text \<open>How long a response may be kept; \<open>None\<close> is \<open>no-store\<close>.\<close>

definition storage_ttl :: "duration \<Rightarrow> bytes \<Rightarrow> duration option" where
  "storage_ttl dflt respCC =
     (if Contains respCC ''no-store'' then None
      else case Index ''max-age='' respCC of
          None \<Rightarrow> Some dflt
        | Some idx \<Rightarrow>
            (case Atoi (TrimRight (drop (idx + 8) respCC) '' ,;'') of
               (secs, err) \<Rightarrow> if err = None \<and> secs \<ge> 0 then Some (wrap64 (secs * Second)) else Some dflt))"

definition store_response :: "(bytes \<Rightarrow> bytes) \<Rightarrow> bytes \<Rightarrow> instant
    \<Rightarrow> ('m, 'r, Cache, 'p) world handler" where
  "store_response sha256 key now req w g =
     (case storage_ttl (ttl (store g)) (Headers_Get (w_headers w) ''Cache-Control'') of
        None \<Rightarrow> (Returned, req, w, g)
      | Some t \<Rightarrow>
          if w_status w \<noteq> StatusOK then (Returned, req, w, g)
          else
            let etag = etagFor sha256 (w_body w);
                e = \<lparr>e_key = key, e_body = w_body w,
                     contentType = Headers_Get (w_headers w) ''Content-Type'',
                     e_etag = etag, expires = now + t\<rparr>
            in (case cache_put (store g) e of
                  None \<Rightarrow> (Panicked, req, w, g)
                | Some c \<Rightarrow>
                    let g = g\<lparr>store := c\<rparr>;
                        w = w_SetHeader (w_SetHeader w ''ETag'' etag) ''X-Cache'' ''MISS''
                    in if Headers_Get (ReqHeaders req) ''If-None-Match'' = etag
                         then (Returned, req, w_SetBody (w_WriteHeader w StatusNotModified) [], g)
                       else (Returned, req, w, g)))"

definition after_write :: "bytes \<Rightarrow> ('m, 'r, Cache, 'p) world handler" where
  "after_write key req w g =
     (Returned, req, w,
      if is_write (Method req)
      then g\<lparr>store := cache_invalidate (cache_invalidate (store g) (Path req)) key\<rparr> else g)"

definition Cache_Middleware :: "(bytes \<Rightarrow> bytes) \<Rightarrow> ('m, 'r, Cache, 'p) world handler
    \<Rightarrow> ('m, 'r, Cache, 'p) world handler" where
  "Cache_Middleware sha256 next req w g =
     (let key = RawTarget req
      in if Method req \<noteq> ''GET'' then and_then (next req w g) (after_write key)
         else
           let bypass = Headers_ContainsToken (ReqHeaders req) ''Cache-Control'' ''no-cache'';
               (now, g) = time_Now g
           in if bypass then and_then (next req w g) (store_response sha256 key now)
              else (case lookup (store g) key now of
                  (Some e, c) \<Rightarrow> (Returned, req, serve_hit e req w, g\<lparr>store := c\<rparr>)
                | (None, c) \<Rightarrow>
                    and_then (next req w (g\<lparr>store := c\<rparr>)) (store_response sha256 key now)))"

lemmas cache_defs [go_eval] =
  cache_New_def list_Remove_def drop_elem_def cache_get_def pop_back_def cache_invalidate_def
  push_front_def cache_put_def Stats_def etagFor_def is_write_def lookup_def serve_hit_def
  storage_ttl_def store_response_def after_write_def Cache_Middleware_def

section \<open>The invariant and the abstract cache\<close>

definition cache_wf :: "Cache \<Rightarrow> bool" where
  "cache_wf c \<longleftrightarrow>
     distinct (map fst (order c)) \<and> distinct (map (e_key \<circ> snd) (order c))
     \<and> (\<forall>k i. items c k = Some i \<longleftrightarrow> (\<exists>e. (i, e) \<in> set (order c) \<and> e_key e = k))
     \<and> (\<forall>(i, e) \<in> set (order c). i < fresh_elem c)"

text \<open>The abstract cache: entries by recency, most recent first, one per key.\<close>

definition cache_abs :: "Cache \<Rightarrow> entry list" where
  "cache_abs c = map snd (order c)"

definition lru_find :: "bytes \<Rightarrow> entry list \<Rightarrow> entry option" where
  "lru_find k l = find (\<lambda>e. e_key e = k) l"

definition lru_del :: "bytes \<Rightarrow> entry list \<Rightarrow> entry list" where
  "lru_del k l = filter (\<lambda>e. e_key e \<noteq> k) l"

definition lru_get :: "bytes \<Rightarrow> instant \<Rightarrow> entry list \<Rightarrow> entry option \<times> entry list" where
  "lru_get k now l =
     (case lru_find k l of
        None \<Rightarrow> (None, l)
      | Some e \<Rightarrow> if now > expires e then (None, lru_del k l) else (Some e, e # lru_del k l))"

definition lru_put :: "nat \<Rightarrow> entry \<Rightarrow> entry list \<Rightarrow> entry list" where
  "lru_put cap e l = take cap (e # lru_del (e_key e) l)"

lemma cache_wf_New: "cache_wf (cache_New cap t)"
  by (simp add: cache_wf_def cache_New_def)

lemma distinct_map_eq: "distinct (map f xs) \<Longrightarrow> x \<in> set xs \<Longrightarrow> y \<in> set xs \<Longrightarrow> f x = f y \<Longrightarrow> x = y"
  by (simp add: distinct_map inj_on_def)

lemma wf_items: "cache_wf c \<Longrightarrow> items c k = Some i \<longleftrightarrow> (\<exists>e. (i, e) \<in> set (order c) \<and> e_key e = k)"
  by (simp add: cache_wf_def)

lemma elem_unique:
  assumes "cache_wf c" "(i, e) \<in> set (order c)" "(j, e') \<in> set (order c)"
  shows "i = j \<longleftrightarrow> e_key e = e_key e'"
  using distinct_map_eq [of fst "order c" "(i, e)" "(j, e')"] assms
    distinct_map_eq [of "e_key \<circ> snd" "order c" "(i, e)" "(j, e')"]
  by (auto simp: cache_wf_def)

lemma items_elem:
  assumes "cache_wf c" "items c k = Some i"
  obtains e where "(i, e) \<in> set (order c)" "e_key e = k" "map_of (order c) i = Some e"
    "lru_find k (cache_abs c) = Some e"
proof -
  from assms obtain e where e: "(i, e) \<in> set (order c)" "e_key e = k" by (auto simp: cache_wf_def)
  moreover from e assms(1) have "map_of (order c) i = Some e" by (simp add: cache_wf_def)
  moreover have "lru_find k (cache_abs c) = Some e"
  proof -
    obtain e' where e': "lru_find k (cache_abs c) = Some e'"
      using e by (cases "lru_find k (cache_abs c)") (force simp: lru_find_def cache_abs_def find_None_iff)+
    then have "e' \<in> set (cache_abs c)" "e_key e' = k"
      by (auto simp: lru_find_def find_Some_iff)
    then obtain j where "(j, e') \<in> set (order c)" by (auto simp: cache_abs_def)
    with e elem_unique [OF assms(1) this e(1)] \<open>e_key e' = k\<close> have "(i, e') \<in> set (order c)" by auto
    then have "e' = e" using e assms(1) by (metis cache_wf_def map_of_is_SomeI option.inject)
    with e' show ?thesis by simp
  qed
  ultimately show thesis by (rule that)
qed

lemma items_none:
  assumes "cache_wf c" shows "items c k = None \<longleftrightarrow> lru_find k (cache_abs c) = None"
proof -
  have "items c k = None \<longleftrightarrow> (\<forall>i. items c k \<noteq> Some i)" by (cases "items c k") auto
  also have "\<dots> \<longleftrightarrow> lru_find k (cache_abs c) = None"
    unfolding wf_items [OF assms] by (force simp: lru_find_def cache_abs_def find_None_iff)
  finally show ?thesis .
qed

lemma Remove_abs:
  assumes "cache_wf c" "(i, e) \<in> set (order c)"
  shows "map snd (list_Remove i (order c)) = lru_del (e_key e) (cache_abs c)"
proof -
  have "list_Remove i (order c) = filter (\<lambda>x. e_key (snd x) \<noteq> e_key e) (order c)"
    unfolding list_Remove_def
  proof (rule filter_cong [OF refl])
    fix x assume x: "x \<in> set (order c)"
    obtain j e' where "x = (j, e')" by fastforce
    with x elem_unique [OF assms(1) _ assms(2), of j e']
    show "(case x of (j, _) \<Rightarrow> j \<noteq> i) \<longleftrightarrow> e_key (snd x) \<noteq> e_key e" by simp
  qed
  then show ?thesis by (simp add: lru_del_def cache_abs_def filter_map o_def)
qed

lemma drop_elem_wf:
  assumes "cache_wf c" "(i, e) \<in> set (order c)"
  shows "cache_wf (drop_elem c i (e_key e))"
    and "cache_abs (drop_elem c i (e_key e)) = lru_del (e_key e) (cache_abs c)"
proof -
  have u: "(j, e') \<in> set (order c) \<Longrightarrow> (j = i \<longleftrightarrow> e_key e' = e_key e)" for j e'
    using elem_unique [OF assms(1) _ assms(2)] .
  have "distinct (map f (list_Remove i (order c)))" if "distinct (map f (order c))" for f :: "nat \<times> entry \<Rightarrow> 'z"
    using that by (simp add: list_Remove_def distinct_map_filter)
  then show "cache_wf (drop_elem c i (e_key e))"
    using assms(1) u unfolding cache_wf_def
    by (auto simp: drop_elem_def list_Remove_def distinct_map_filter)
  show "cache_abs (drop_elem c i (e_key e)) = lru_del (e_key e) (cache_abs c)"
    using Remove_abs [OF assms] by (simp add: drop_elem_def cache_abs_def)
qed

lemma keys_distinct: "cache_wf c \<Longrightarrow> distinct (map e_key (cache_abs c))"
  by (simp add: cache_wf_def cache_abs_def)

lemma lru_del_last:
  assumes "distinct (map e_key (l @ [e]))" shows "lru_del (e_key e) (l @ [e]) = l"
proof -
  have "e_key e \<notin> e_key ` set l" using assms by simp
  then have "\<forall>x \<in> set l. e_key x \<noteq> e_key e" by (metis imageI)
  then show ?thesis by (simp add: lru_del_def filter_id_conv)
qed

lemma pop_back_wf:
  assumes "cache_wf c" "order c \<noteq> []"
  shows "cache_wf (pop_back c)" "cache_abs (pop_back c) = butlast (cache_abs c)"
    "capacity (pop_back c) = capacity c" "ttl (pop_back c) = ttl c"
    "hits (pop_back c) = hits c" "misses (pop_back c) = misses c"
proof -
  obtain xs el e where o: "order c = xs @ [(el, e)]" using assms(2) by (cases "order c" rule: rev_cases) auto
  then have "(el, e) \<in> set (order c)" by simp
  note d = drop_elem_wf [OF assms(1) this]
  have "lru_del (e_key e) (map snd xs @ [e]) = map snd xs"
    using keys_distinct [OF assms(1)] o by (intro lru_del_last) (simp add: cache_abs_def)
  then show "cache_wf (pop_back c)" "cache_abs (pop_back c) = butlast (cache_abs c)"
    using d o by (simp_all add: pop_back_def) (simp_all add: cache_abs_def)
qed (simp_all add: pop_back_def drop_elem_def split: prod.splits)

lemma evict_refines:
  assumes "cache_wf c" "0 \<le> capacity c"
  shows "\<exists>c'. evict c = Some c' \<and> cache_wf c' \<and> cache_abs c' = take (nat (capacity c)) (cache_abs c)
    \<and> capacity c' = capacity c \<and> ttl c' = ttl c \<and> hits c' = hits c \<and> misses c' = misses c"
  using assms
proof (induction c rule: evict.induct)
  case (1 c)
  show ?case
  proof (cases "int (length (order c)) > capacity c")
    case True
    then have ne: "order c \<noteq> []" using 1 by auto
    note p = pop_back_wf [OF 1(2) ne]
    have len: "nat (capacity c) \<le> length (cache_abs c) - 1"
      using True 1(3) by (simp add: cache_abs_def)
    from 1(1) [OF True ne p(1)] 1(3) obtain c' where
      "evict (pop_back c) = Some c'" "cache_wf c'" "cache_abs c' = take (nat (capacity c)) (butlast (cache_abs c))"
      "capacity c' = capacity c" "ttl c' = ttl c" "hits c' = hits c" "misses c' = misses c"
      using p by auto
    then show ?thesis using True ne len by (simp add: evict.simps [of c] butlast_conv_take)
  next
    case False
    then have "take (nat (capacity c)) (cache_abs c) = cache_abs c" by (simp add: cache_abs_def)
    then show ?thesis using False 1 by (simp add: evict.simps [of c])
  qed
qed

lemma invalidate_refines:
  assumes "cache_wf c"
  shows "cache_wf (cache_invalidate c k)" "cache_abs (cache_invalidate c k) = lru_del k (cache_abs c)"
proof -
  have "cache_wf (cache_invalidate c k) \<and> cache_abs (cache_invalidate c k) = lru_del k (cache_abs c)"
  proof (cases "items c k")
    case None
    then have "lru_find k (cache_abs c) = None" using items_none [OF assms] by simp
    then have "lru_del k (cache_abs c) = cache_abs c" by (auto simp: lru_find_def find_None_iff lru_del_def filter_id_conv)
    with None assms show ?thesis by (simp add: cache_invalidate_def)
  next
    case (Some i)
    obtain e where "(i, e) \<in> set (order c)" "e_key e = k" by (rule items_elem [OF assms Some])
    with drop_elem_wf [OF assms this(1)] Some show ?thesis by (simp add: cache_invalidate_def)
  qed
  then show "cache_wf (cache_invalidate c k)" "cache_abs (cache_invalidate c k) = lru_del k (cache_abs c)" by auto
qed

lemma invalidate_fields [simp]:
  "capacity (cache_invalidate c k) = capacity c" "ttl (cache_invalidate c k) = ttl c"
  "hits (cache_invalidate c k) = hits c" "misses (cache_invalidate c k) = misses c"
  by (simp_all add: cache_invalidate_def drop_elem_def split: option.split)

lemma push_front_wf:
  assumes "cache_wf c" "e_key e \<notin> e_key ` set (cache_abs c)"
  shows "cache_wf (push_front c e)" "cache_abs (push_front c e) = e # cache_abs c"
proof -
  have i: "fresh_elem c \<notin> fst ` set (order c)" using assms(1) by (fastforce simp: cache_wf_def)
  have k: "e_key x \<noteq> e_key e" if "(i, x) \<in> set (order c)" for i x
  proof -
    have "x \<in> set (cache_abs c)" using that by (force simp: cache_abs_def)
    then show ?thesis using assms(2) by (metis imageI)
  qed
  have d: "distinct (map fst (order c))" "distinct (map (e_key \<circ> snd) (order c))"
    and b: "(i, x) \<in> set (order c) \<Longrightarrow> i < fresh_elem c" for i x
    using assms(1) by (auto simp: cache_wf_def)
  have it: "items (push_front c e) k' = Some j \<longleftrightarrow> (\<exists>x. (j, x) \<in> set (order (push_front c e)) \<and> e_key x = k')" for k' j
    using k b wf_items [OF assms(1), of k' j] by (auto simp: push_front_def)
  have "distinct (map fst (order (push_front c e)))" using i d by (simp add: push_front_def)
  moreover have "distinct (map (e_key \<circ> snd) (order (push_front c e)))" using k d by (force simp: push_front_def)
  moreover have "\<forall>(i, x) \<in> set (order (push_front c e)). i < fresh_elem (push_front c e)"
    using b by (fastforce simp: push_front_def less_Suc_eq)
  ultimately show "cache_wf (push_front c e)" using it unfolding cache_wf_def by blast
  show "cache_abs (push_front c e) = e # cache_abs c" by (simp add: push_front_def cache_abs_def)
qed

lemma put_refines:
  assumes "cache_wf c" "0 \<le> capacity c"
  shows "\<exists>c'. cache_put c e = Some c' \<and> cache_wf c' \<and> cache_abs c' = lru_put (nat (capacity c)) e (cache_abs c)
    \<and> capacity c' = capacity c \<and> ttl c' = ttl c \<and> hits c' = hits c \<and> misses c' = misses c"
proof -
  let ?c = "cache_invalidate c (e_key e)"
  note iv = invalidate_refines [OF assms(1), of "e_key e"]
  have "e_key e \<notin> e_key ` set (cache_abs ?c)" by (auto simp: iv(2) lru_del_def)
  note pf = push_front_wf [OF iv(1) this]
  have c: "capacity (push_front ?c e) = capacity c" "ttl (push_front ?c e) = ttl c"
    "hits (push_front ?c e) = hits c" "misses (push_front ?c e) = misses c" by (simp_all add: push_front_def)
  show ?thesis using evict_refines [OF pf(1)] assms(2) c by (simp add: cache_put_def lru_put_def pf(2) iv(2))
qed

lemma wf_reorder:
  "cache_wf c \<Longrightarrow> distinct (map fst xs) \<Longrightarrow> distinct (map (e_key \<circ> snd) xs) \<Longrightarrow> set xs = set (order c)
     \<Longrightarrow> cache_wf (c\<lparr>order := xs\<rparr>)"
  by (simp add: cache_wf_def)

lemma get_refines:
  assumes "cache_wf c"
  shows "fst (cache_get c k now) = fst (lru_get k now (cache_abs c))"
    "cache_abs (snd (cache_get c k now)) = snd (lru_get k now (cache_abs c))"
    "cache_wf (snd (cache_get c k now))"
    "capacity (snd (cache_get c k now)) = capacity c" "ttl (snd (cache_get c k now)) = ttl c"
proof -
  have "fst (cache_get c k now) = fst (lru_get k now (cache_abs c))
    \<and> cache_abs (snd (cache_get c k now)) = snd (lru_get k now (cache_abs c))
    \<and> cache_wf (snd (cache_get c k now))
    \<and> capacity (snd (cache_get c k now)) = capacity c \<and> ttl (snd (cache_get c k now)) = ttl c"
  proof (cases "items c k")
    case None
    then have "lru_find k (cache_abs c) = None" using items_none [OF assms] by simp
    with None assms show ?thesis by (simp add: cache_get_def lru_get_def)
  next
    case (Some i)
    obtain e where e: "(i, e) \<in> set (order c)" "e_key e = k" "map_of (order c) i = Some e"
        "lru_find k (cache_abs c) = Some e"
      by (rule items_elem [OF assms Some])
    let ?c = "c\<lparr>order := (i, e) # list_Remove i (order c)\<rparr>"
    have "cache_wf ?c"
    proof -
      have u: "(j, x) \<in> set (order c) \<Longrightarrow> (j = i) = (e_key x = k)" for j x
        using elem_unique [OF assms _ e(1)] e(2) by auto
      have d: "distinct (map f ((i, e) # list_Remove i (order c)))"
        if "distinct (map f (order c))" for f :: "nat \<times> entry \<Rightarrow> 'z"
      proof -
        have "f (i, e) \<notin> f ` set (list_Remove i (order c))"
        proof
          assume "f (i, e) \<in> f ` set (list_Remove i (order c))"
          then obtain x where x: "x \<in> set (list_Remove i (order c))" "f x = f (i, e)" by (metis imageE)
          then have "x = (i, e)" by (intro distinct_map_eq [OF that _ e(1)]) (auto simp: list_Remove_def)
          with x(1) show False by (simp add: list_Remove_def)
        qed
        moreover have "distinct (map f (list_Remove i (order c)))"
          using that by (simp add: list_Remove_def distinct_map_filter)
        ultimately show ?thesis by simp
      qed
      have "set ((i, e) # list_Remove i (order c)) = set (order c)"
      proof -
        have "fst x \<noteq> i" if "x \<in> set (order c)" "x \<noteq> (i, e)" for x
          using distinct_map_eq [of fst "order c" x "(i, e)"] that e(1) assms by (auto simp: cache_wf_def)
        with e(1) show ?thesis by (fastforce simp: list_Remove_def)
      qed
      from wf_reorder [OF assms d d this] show ?thesis using assms by (simp add: cache_wf_def)
    qed
    moreover have "cache_abs ?c = e # lru_del k (cache_abs c)"
      using Remove_abs [OF assms e(1)] e(2) by (simp add: cache_abs_def)
    ultimately show ?thesis
      using Some e drop_elem_wf [OF assms e(1)]
      by (simp add: cache_get_def lru_get_def) (simp add: drop_elem_def)
  qed
  then show "fst (cache_get c k now) = fst (lru_get k now (cache_abs c))"
    "cache_abs (snd (cache_get c k now)) = snd (lru_get k now (cache_abs c))"
    "cache_wf (snd (cache_get c k now))"
    "capacity (snd (cache_get c k now)) = capacity c" "ttl (snd (cache_get c k now)) = ttl c" by auto
qed

text \<open>
  C26. The list-and-map cache refines the textbook one: a recency list of entries with one entry per
  key, where a fresh hit moves its entry to the front, an expired one is dropped, \<open>put\<close> replaces the
  key's entry, puts it in front and cuts the list to the capacity from the least recently used end,
  and invalidation removes the key. No operation of a cache with a capacity of at least 0 panics,
  and the invariant that ties the list to the map is kept.
\<close>

theorem cache_refines_lru:
  assumes "cache_wf c" "0 \<le> capacity c"
  shows "(\<exists>c'. cache_get c k now = (fst (lru_get k now (cache_abs c)), c')
          \<and> cache_wf c' \<and> cache_abs c' = snd (lru_get k now (cache_abs c)))
    \<and> (\<exists>c'. cache_put c e = Some c' \<and> cache_wf c'
          \<and> cache_abs c' = take (nat (capacity c)) (e # lru_del (e_key e) (cache_abs c))
          \<and> int (length (order c')) \<le> capacity c)
    \<and> cache_wf (cache_invalidate c k) \<and> cache_abs (cache_invalidate c k) = lru_del k (cache_abs c)"
proof (intro conjI)
  show "\<exists>c'. cache_get c k now = (fst (lru_get k now (cache_abs c)), c')
          \<and> cache_wf c' \<and> cache_abs c' = snd (lru_get k now (cache_abs c))"
    using get_refines [OF assms(1), of k now] by (intro exI [of _ "snd (cache_get c k now)"]) (metis prod.collapse)
  obtain c' where c': "cache_put c e = Some c'" "cache_wf c'" "cache_abs c' = lru_put (nat (capacity c)) e (cache_abs c)"
    using put_refines [OF assms] by blast
  moreover have "length (order c') = length (cache_abs c')" by (simp add: cache_abs_def)
  ultimately show "\<exists>c'. cache_put c e = Some c' \<and> cache_wf c'
          \<and> cache_abs c' = take (nat (capacity c)) (e # lru_del (e_key e) (cache_abs c))
          \<and> int (length (order c')) \<le> capacity c"
    using assms(2) by (intro exI [of _ c']) (simp add: lru_put_def)
qed (use invalidate_refines [OF assms(1)] in simp_all)

definition sample_entry :: "bytes \<Rightarrow> bytes \<Rightarrow> instant \<Rightarrow> entry" where
  "sample_entry k b x = \<lparr>e_key = k, e_body = b, contentType = [], e_etag = ''e'', expires = x\<rparr>"

theorem cache_refines_lru_witness:
  "\<exists>c'. cache_put (push_front (cache_New 1 Minute) (sample_entry ''/a'' ''A'' 9)) (sample_entry ''/b'' ''B'' 9) = Some c'
     \<and> cache_abs c' = [sample_entry ''/b'' ''B'' 9]"
proof -
  let ?c = "push_front (cache_New 1 Minute) (sample_entry ''/a'' ''A'' 9)"
  have e: "cache_abs (cache_New 1 Minute) = []" by (simp add: cache_New_def cache_abs_def)
  note wf = push_front_wf [OF cache_wf_New [of 1 Minute], of "sample_entry ''/a'' ''A'' 9", unfolded e]
  have "cache_wf ?c" "0 \<le> capacity ?c" using wf by (simp_all add: push_front_def cache_New_def)
  from cache_refines_lru [OF this, of _ _ "sample_entry ''/b'' ''B'' 9"] wf show ?thesis
    by (auto simp: push_front_def cache_New_def sample_entry_def)
qed

section \<open>What the middleware relies on\<close>

text \<open>
  A store of keyed values that expire: \<open>peek\<close> is its meaning (which may forget entries at a \<open>put\<close>, but
  not the one just put), and the laws are what the middleware needs of it.
\<close>

locale ttl_store =
  fixes inv :: "'s \<Rightarrow> bool"
    and peek :: "'s \<Rightarrow> 'k \<Rightarrow> 'e option"
    and key_of :: "'e \<Rightarrow> 'k"
    and stale :: "instant \<Rightarrow> 'e \<Rightarrow> bool"
    and get :: "'s \<Rightarrow> 'k \<Rightarrow> instant \<Rightarrow> 'e option \<times> 's"
    and put :: "'s \<Rightarrow> 'e \<Rightarrow> 's option"
    and del :: "'s \<Rightarrow> 'k \<Rightarrow> 's"
  assumes get_inv: "inv s \<Longrightarrow> inv (snd (get s k now))"
    and get_result: "inv s \<Longrightarrow>
      fst (get s k now) = (case peek s k of None \<Rightarrow> None | Some e \<Rightarrow> if stale now e then None else Some e)"
    and get_peek: "inv s \<Longrightarrow> peek (snd (get s k now)) k' \<in> {None, peek s k'}"
    and get_keeps: "inv s \<Longrightarrow> fst (get s k now) \<noteq> None \<Longrightarrow> peek (snd (get s k now)) = peek s"
    and put_ok: "inv s \<Longrightarrow> \<exists>s'. put s e = Some s' \<and> inv s' \<and> peek s' (key_of e) = Some e
                   \<and> (\<forall>k. k \<noteq> key_of e \<longrightarrow> peek s' k \<in> {None, peek s k})"
    and del_inv: "inv s \<Longrightarrow> inv (del s k)"
    and del_peek: "inv s \<Longrightarrow> peek (del s k) = (peek s)(k := None)"
begin

lemma get_after_put:
  assumes "inv s" "\<not> stale now e"
  shows "\<exists>s'. put s e = Some s' \<and> inv s' \<and> fst (get s' (key_of e) now) = Some e"
proof -
  from put_ok [OF assms(1)] obtain s' where s: "put s e = Some s'" "inv s'" "peek s' (key_of e) = Some e"
    by blast
  with assms(2) get_result [OF s(2)] show ?thesis by auto
qed

lemma get_after_del: "inv s \<Longrightarrow> fst (get (del s k) k now) = None"
  using get_result [OF del_inv] by (simp add: del_peek)

lemma del_twice: "inv s \<Longrightarrow> peek (del (del s k) k') k = None \<and> peek (del (del s k) k') k' = None"
  by (simp add: del_peek del_inv)

lemma del_other: "inv s \<Longrightarrow> k \<noteq> k' \<Longrightarrow> peek (del s k) k' = peek s k'"
  by (simp add: del_peek)

lemma never_stale: "inv s \<Longrightarrow> fst (get s k now) = Some e \<Longrightarrow> peek s k = Some e \<and> \<not> stale now e"
  using get_result [of s k now] by (auto split: option.splits if_splits)

end

definition cache_inv :: "Cache \<Rightarrow> bool" where
  "cache_inv c \<longleftrightarrow> cache_wf c \<and> 1 \<le> capacity c"

definition cache_peek :: "Cache \<Rightarrow> bytes \<Rightarrow> entry option" where
  "cache_peek c k = lru_find k (cache_abs c)"

lemma lru_find_Cons: "lru_find k (e # l) = (if e_key e = k then Some e else lru_find k l)"
  by (simp add: lru_find_def)

lemma lru_find_del: "lru_find k (lru_del k' l) = (if k = k' then None else lru_find k l)"
  by (induction l) (auto simp: lru_find_def lru_del_def)

lemma lru_find_take: "lru_find k (take n l) \<in> {None, lru_find k l}"
proof (induction l arbitrary: n)
  case (Cons x l)
  then show ?case by (cases n) (auto simp: lru_find_def)
qed (simp add: lru_find_def)

lemma lru_find_key: "lru_find k l = Some e \<Longrightarrow> e_key e = k"
  by (auto simp: lru_find_def find_Some_iff)

interpretation cache_store: ttl_store cache_inv cache_peek e_key "\<lambda>now e. now > expires e"
  cache_get cache_put cache_invalidate
proof unfold_locales
  fix s k k' now and e :: entry
  assume inv: "cache_inv s"
  then have wf: "cache_wf s" and cap: "0 \<le> capacity s" "0 < nat (capacity s)" by (auto simp: cache_inv_def)
  note g = get_refines [OF wf, of k now]
  show "cache_inv (snd (cache_get s k now))" using g inv by (simp add: cache_inv_def)
  show "fst (cache_get s k now) = (case cache_peek s k of None \<Rightarrow> None
      | Some e \<Rightarrow> if expires e < now then None else Some e)"
    using g by (simp add: lru_get_def cache_peek_def split: option.split)
  show "cache_peek (snd (cache_get s k now)) k' \<in> {None, cache_peek s k'}"
    using g lru_find_key [of k "cache_abs s"]
    by (auto simp: lru_get_def cache_peek_def lru_find_Cons lru_find_del split: option.splits)
  show "cache_peek (snd (cache_get s k now)) = cache_peek s" if "fst (cache_get s k now) \<noteq> None"
  proof -
    obtain e where e: "lru_find k (cache_abs s) = Some e" "\<not> now > expires e"
      using \<open>fst (cache_get s k now) \<noteq> None\<close> g(1) by (auto simp: lru_get_def split: option.splits if_splits)
    then have "cache_abs (snd (cache_get s k now)) = e # lru_del k (cache_abs s)"
      using g(2) by (simp add: lru_get_def)
    then show ?thesis
      using e lru_find_key [OF e(1)]
      by (intro ext) (auto simp: cache_peek_def lru_find_Cons lru_find_del)
  qed
  show "\<exists>s'. cache_put s e = Some s' \<and> cache_inv s' \<and> cache_peek s' (e_key e) = Some e
      \<and> (\<forall>k. k \<noteq> e_key e \<longrightarrow> cache_peek s' k \<in> {None, cache_peek s k})"
  proof -
    from put_refines [OF wf cap(1), of e] obtain s' where s': "cache_put s e = Some s'" "cache_wf s'"
      "cache_abs s' = lru_put (nat (capacity s)) e (cache_abs s)" "capacity s' = capacity s" by blast
    obtain n where n: "nat (capacity s) = Suc n" using cap(2) by (cases "nat (capacity s)") auto
    have "cache_peek s' (e_key e) = Some e" using s'(3) n by (simp add: cache_peek_def lru_put_def lru_find_Cons)
    moreover have "cache_peek s' k \<in> {None, cache_peek s k}" if "k \<noteq> e_key e" for k
      using s'(3) n that lru_find_take [of k n "lru_del (e_key e) (cache_abs s)"]
      by (simp add: cache_peek_def lru_put_def lru_find_Cons lru_find_del)
    ultimately show ?thesis using s' inv by (auto simp: cache_inv_def)
  qed
  show "cache_inv (cache_invalidate s k)" using invalidate_refines [OF wf] inv by (simp add: cache_inv_def)
  show "cache_peek (cache_invalidate s k) = (cache_peek s)(k := None)"
    using invalidate_refines [OF wf] by (auto simp: cache_peek_def lru_find_del)
qed

section \<open>The middleware\<close>

definition cacheable :: "Request \<Rightarrow> bool" where
  "cacheable req \<longleftrightarrow> Method req = ''GET'' \<and> \<not> Headers_ContainsToken (ReqHeaders req) ''Cache-Control'' ''no-cache''"

lemma canonical_cache_names [simp]:
  "canonical ''ETag'' = ''Etag''" "canonical ''X-Cache'' = ''X-Cache''" "canonical ''Cache-Control'' = ''Cache-Control''"
  by code_simp+

lemma lookup_get:
  "lookup c k now =
     (fst (cache_get c k now),
      if fst (cache_get c k now) = None then (snd (cache_get c k now))\<lparr>misses := misses (snd (cache_get c k now)) + 1\<rparr>
      else (snd (cache_get c k now))\<lparr>hits := hits (snd (cache_get c k now)) + 1\<rparr>)"
  by (simp add: lookup_def split: prod.splits option.splits)

lemma counters_abs [simp]:
  "cache_abs (c\<lparr>misses := m\<rparr>) = cache_abs c" "cache_abs (c\<lparr>hits := m\<rparr>) = cache_abs c"
  "cache_wf (c\<lparr>misses := m\<rparr>) = cache_wf c" "cache_wf (c\<lparr>hits := m\<rparr>) = cache_wf c"
  "cache_inv (c\<lparr>misses := m\<rparr>) = cache_inv c" "cache_inv (c\<lparr>hits := m\<rparr>) = cache_inv c"
  "cache_peek (c\<lparr>misses := m\<rparr>) = cache_peek c" "cache_peek (c\<lparr>hits := m\<rparr>) = cache_peek c"
  by (simp_all add: cache_abs_def cache_wf_def cache_inv_def cache_peek_def fun_eq_iff)

lemma serve_hit_spec:
  assumes "\<not> hijacked w"
  shows "hijacked (serve_hit e req w)"
    "Headers_Values (w_headers (serve_hit e req w)) ''ETag'' = [e_etag e]"
    "Headers_Values (w_headers (serve_hit e req w)) ''X-Cache'' = [''HIT'']"
    "if Headers_Get (ReqHeaders req) ''If-None-Match'' = e_etag e then w_status (serve_hit e req w) = 304
     else w_status (serve_hit e req w) = 200 \<and> w_body (serve_hit e req w) = e_body e"
  using assms
  by (simp_all add: serve_hit_def Let_def w_SetHeader_def w_WriteHeader_def w_Hijack_def w_SetBody_def Values_Set)


lemma sample_cache_inv:
  "cache_inv (push_front (cache_New 4 Minute) e) \<and> cache_peek (push_front (cache_New 4 Minute) e) (e_key e) = Some e"
proof -
  have e: "cache_abs (cache_New 4 Minute) = []" by (simp add: cache_New_def cache_abs_def)
  show ?thesis
    using push_front_wf [OF cache_wf_New [of 4 Minute], of e, unfolded e]
    by (simp add: cache_inv_def cache_peek_def lru_find_Cons) (simp add: push_front_def cache_New_def)
qed


text \<open>
  Store, then hit: when a handler's 200 answer to a GET is stored (nothing in it says \<open>no-store\<close>),
  the entry kept under the raw target carries exactly the body and the content type of that answer, the
  tag of the body, and the life time counted from before the handler ran; until then a lookup of
  the same target returns it.
\<close>

theorem stored_then_found:
  assumes "cache_inv (store g)" "w_status w = 200"
    and "storage_ttl (ttl (store g)) (Headers_Get (w_headers w) ''Cache-Control'') = Some t" "now' \<le> now + t"
  shows "\<exists>w' g'. store_response sha256 key now req w g = (Returned, req, w', g') \<and> cache_inv (store g')
    \<and> fst (cache_get (store g') key now')
        = Some \<lparr>e_key = key, e_body = w_body w, contentType = Headers_Get (w_headers w) ''Content-Type'',
                e_etag = etagFor sha256 (w_body w), expires = now + t\<rparr>
    \<and> Headers_Values (w_headers w') ''ETag'' = [etagFor sha256 (w_body w)]
    \<and> (if Headers_Get (ReqHeaders req) ''If-None-Match'' = etagFor sha256 (w_body w)
       then w_body w' = [] \<and> (hijacked w \<or> w_status w' = 304) else w_body w' = w_body w \<and> w_status w' = 200)"
proof -
  let ?e = "\<lparr>e_key = key, e_body = w_body w, contentType = Headers_Get (w_headers w) ''Content-Type'',
                e_etag = etagFor sha256 (w_body w), expires = now + t\<rparr>"
  have "\<not> now' > expires ?e" using assms(4) by simp
  from cache_store.get_after_put [OF assms(1) this] obtain c where
    c: "cache_put (store g) ?e = Some c" "cache_inv c" "fst (cache_get c key now') = Some ?e" by auto
  then show ?thesis
    using assms(2,3)
    by (auto simp: store_response_def Let_def w_SetHeader_def w_SetBody_def w_WriteHeader_def Values_Set)
qed

theorem stored_then_found_witness:
  "\<exists>w' g' e. store_response id ''/a'' 0 (sample_request ''GET'' ''/a'') (w_WriteString NewResponseWriter ''hi'')
        (sample_world () () (push_front (cache_New 4 Minute) (sample_entry ''/z'' ''Z'' 0)) ())
      = (Returned, sample_request ''GET'' ''/a'', w', g')
    \<and> fst (cache_get (store g') ''/a'' Second) = Some e \<and> e_body e = ''hi''"
proof -
  let ?g = "sample_world () () (push_front (cache_New 4 Minute) (sample_entry ''/z'' ''Z'' 0)) ()"
  let ?w = "w_WriteString NewResponseWriter ''hi''"
  have inv: "cache_inv (store ?g)" using sample_cache_inv by (simp add: sample_world_def)
  have t: "storage_ttl (ttl (store ?g)) (Headers_Get (w_headers ?w) ''Cache-Control'') = Some Minute"
    by (simp add: sample_world_def writer_defs Headers_Get_def map_slice_def storage_ttl_def Contains_def
        push_front_def cache_New_def)
  have s: "w_status ?w = 200" by (simp add: writer_defs)
  show ?thesis
    using stored_then_found [OF inv s t, of Second 0 id "''/a''" "sample_request ''GET'' ''/a''"]
    by (auto simp: Second_def Minute_def writer_defs)
qed

text \<open>
  With requests handled one at a time, a read never survives a write the server saw: after a POST, PUT, DELETE or PATCH whose handler
  returned, the cache has no entry for the request's target nor for its path, and every other entry is
  untouched; so entries of the same path under another query string do survive.
\<close>

theorem write_invalidates:
  assumes "h req w g = (Returned, req', w', g')" "cache_inv (store g')" "same_head req' req"
    and "is_write (Method req)"
  shows "\<exists>g''. Cache_Middleware sha256 h req w g = (Returned, req', w', g'') \<and> cache_inv (store g'')
    \<and> fst (cache_get (store g'') (RawTarget req) now) = None \<and> fst (cache_get (store g'') (Path req) now) = None
    \<and> (\<forall>k. k \<noteq> RawTarget req \<and> k \<noteq> Path req \<longrightarrow> cache_peek (store g'') k = cache_peek (store g') k)"
proof -
  let ?c1 = "cache_invalidate (store g') (Path req)"
  let ?c = "cache_invalidate ?c1 (RawTarget req)"
  have m: "Method req \<noteq> ''GET''" "Method req' = Method req" "Path req' = Path req"
    using assms(3,4) by (auto simp: is_write_def same_head_def)
  have inv: "cache_inv ?c1" "cache_inv ?c" by (intro cache_store.del_inv assms(2))+
  have run: "Cache_Middleware sha256 h req w g = (Returned, req', w', g'\<lparr>store := ?c\<rparr>)"
    using assms(1,4) m by (simp add: Cache_Middleware_def after_write_def)
  have tw: "cache_peek ?c (Path req) = None" "cache_peek ?c (RawTarget req) = None"
    using cache_store.del_twice [OF assms(2)] by blast+
  have none: "fst (cache_get ?c k now) = None" if "cache_peek ?c k = None" for k
    using cache_store.get_result [OF inv(2), of k now] that by simp
  have "cache_peek ?c k = cache_peek (store g') k" if "k \<noteq> RawTarget req" "k \<noteq> Path req" for k
    using cache_store.del_other [OF inv(1), of "RawTarget req" k] cache_store.del_other [OF assms(2), of "Path req" k] that
    by simp
  then show ?thesis using run inv(2) tw none by (intro exI [of _ "g'\<lparr>store := ?c\<rparr>"]) simp
qed

theorem write_invalidates_witness:
  "\<exists>g''. Cache_Middleware id (\<lambda>req w g. (Returned, req, w, g)) (sample_request ''POST'' ''/a'') NewResponseWriter
      (sample_world () () (push_front (cache_New 4 Minute) (sample_entry ''/a?x=1'' ''A'' (1800000000 * Second))) ())
      = (Returned, sample_request ''POST'' ''/a'', NewResponseWriter, g'')
    \<and> fst (cache_get (store g'') ''/a'' 0) = None \<and> cache_peek (store g'') ''/a?x=1'' \<noteq> None"
proof -
  let ?e = "sample_entry ''/a?x=1'' ''A'' (1800000000 * Second)"
  let ?g = "sample_world () () (push_front (cache_New 4 Minute) ?e) ()"
  have inv: "cache_inv (store ?g)" and pk: "cache_peek (store ?g) ''/a?x=1'' = Some ?e"
    using sample_cache_inv [of ?e] by (simp_all add: sample_world_def) (simp add: sample_entry_def)
  have h: "(\<lambda>req w g. (Returned, req, w, g)) (sample_request ''POST'' ''/a'') NewResponseWriter ?g
      = (Returned, sample_request ''POST'' ''/a'', NewResponseWriter, ?g)" by simp
  have w: "is_write (Method (sample_request ''POST'' ''/a''))" by (simp add: sample_request_def is_write_def)
  from write_invalidates [of "\<lambda>req w g. (Returned, req, w, g)", OF h inv same_head_refl w, of id 0] pk
  show ?thesis by (auto simp: sample_request_def)
qed

text \<open>
  Only a \<open>max-age\<close> that ends the header is honoured: followed by another directive, as in the usual
  \<open>max-age=60, public\<close>, the number does not parse and the response is kept for the default time. Before
  trailing blanks, commas and semicolons the number counts, and \<open>no-store\<close> always wins.
\<close>

theorem storage_ttl_cases:
  "storage_ttl dflt ''max-age=60'' = Some (60 * Second)
    \<and> storage_ttl dflt ''public, max-age=60 ;'' = Some (60 * Second)
    \<and> storage_ttl dflt ''max-age=60, public'' = Some dflt
    \<and> storage_ttl dflt ''max-age=0, no-store'' = None"
  by (intro conjI) (simp_all add: go_eval)

lemma serve_hit_sound: "same_head q req \<Longrightarrow> sound req w (ou, q, serve_hit e req w, g)"
  by (simp add: sound_def serve_hit_def Let_def writer_inv)

lemma store_response_sound: "sound req w (store_response sha256 key now req w g)"
  by (simp add: store_response_def Let_def sound_def writer_inv split: option.split)

lemma after_write_sound: "sound req w (after_write key req w g)"
  by (simp add: after_write_def sound_def)

lemma Cache_well_behaved: "well_behaved h \<Longrightarrow> well_behaved (Cache_Middleware sha256 h)"
  by (rule well_behavedI)
     (simp add: Cache_Middleware_def time_Now_def Let_def sound_and_then well_behavedD store_response_sound
        after_write_sound serve_hit_sound split: prod.split option.split)

interpretation response_cache: middleware "Cache_Middleware sha256" for sha256
  by unfold_locales (rule Cache_well_behaved)

end
