(* ===== verification/Cache_Races.thy ===== *)
theory Cache_Races
  imports Http_Cache
begin

text \<open>
  \<open>cache/cache.go\<close> under concurrent requests. The middleware of \<open>Http_Cache\<close> releases the lock
  between its lookup, the handler and its store, so requests interleave there. Each request is a task
  that goes through the stretches of code between these points, and each stretch is one step over the
  definitions of \<open>Http_Cache\<close>. A run of one task without interference is the middleware.

  Two ghosts record what happened: \<open>cruns\<close>, the answers the handler computed for GET requests, in order,
  and \<open>born\<close>, which of them is stored under a key.
\<close>

section \<open>Steps\<close>

datatype cache_task =
    Asked Request ResponseWriter
  | Clocked instant Request ResponseWriter
  | Missed instant Request ResponseWriter
  | Computed bytes instant nat Request ResponseWriter
  | Wrote bytes Request ResponseWriter
  | Done outcome Request ResponseWriter

record ('m, 'r, 'p) cache_run =
  cworld :: "('m, 'r, Cache, 'p) world"
  ctasks :: "nat \<Rightarrow> cache_task option"
  cruns :: "(bytes \<times> bytes) list"
  born :: "bytes \<Rightarrow> nat"

definition advance :: "nat \<Rightarrow> cache_task \<Rightarrow> ('m, 'r, Cache, 'p) world \<Rightarrow> ('m, 'r, 'p) cache_run
    \<Rightarrow> ('m, 'r, 'p) cache_run" where
  "advance i t g s = s\<lparr>ctasks := (ctasks s)(i \<mapsto> t), cworld := g\<rparr>"

definition bypasses :: "Request \<Rightarrow> bool" where
  "bypasses req \<longleftrightarrow> Headers_ContainsToken (ReqHeaders req) ''Cache-Control'' ''no-cache''"

text \<open>Does the code after the handler store this response?\<close>

definition stores :: "ResponseWriter \<Rightarrow> Cache \<Rightarrow> bool" where
  "stores w c \<longleftrightarrow> storage_ttl (ttl c) (Headers_Get (w_headers w) ''Cache-Control'') \<noteq> None \<and> w_status w = StatusOK"

inductive cache_step :: "(bytes \<Rightarrow> bytes) \<Rightarrow> ('m, 'r, Cache, 'p) world handler
    \<Rightarrow> ('m, 'r, 'p) cache_run \<Rightarrow> ('m, 'r, 'p) cache_run \<Rightarrow> bool"
  for sha256 :: "bytes \<Rightarrow> bytes" and h :: "('m, 'r, Cache, 'p) world handler" where
  arrive: "ctasks s i = None \<Longrightarrow> cache_step sha256 h s (advance i (Asked req w) (cworld s) s)"
| clock: "ctasks s i = Some (Asked req w) \<Longrightarrow> Method req = ''GET'' \<Longrightarrow> time_Now (cworld s) = (now, g)
    \<Longrightarrow> cache_step sha256 h s (advance i (Clocked now req w) g s)"
| bypass: "ctasks s i = Some (Clocked now req w) \<Longrightarrow> bypasses req
    \<Longrightarrow> cache_step sha256 h s (advance i (Missed now req w) (cworld s) s)"
| hit: "ctasks s i = Some (Clocked now req w) \<Longrightarrow> \<not> bypasses req
    \<Longrightarrow> lookup (store (cworld s)) (RawTarget req) now = (Some e, c)
    \<Longrightarrow> cache_step sha256 h s (advance i (Done Returned req (serve_hit e req w)) ((cworld s)\<lparr>store := c\<rparr>) s)"
| miss: "ctasks s i = Some (Clocked now req w) \<Longrightarrow> \<not> bypasses req
    \<Longrightarrow> lookup (store (cworld s)) (RawTarget req) now = (None, c)
    \<Longrightarrow> cache_step sha256 h s (advance i (Missed now req w) ((cworld s)\<lparr>store := c\<rparr>) s)"
| run: "ctasks s i = Some (Missed now req w) \<Longrightarrow> h req w (cworld s) = (Returned, q, w', g)
    \<Longrightarrow> cache_step sha256 h s
          (advance i (Computed (RawTarget req) now (length (cruns s)) q w') g
            (s\<lparr>cruns := cruns s @ [(RawTarget req, w_body w')]\<rparr>))"
| run_panics: "ctasks s i = Some (Missed now req w) \<Longrightarrow> h req w (cworld s) = (Panicked, q, w', g)
    \<Longrightarrow> cache_step sha256 h s (advance i (Done Panicked q w') g s)"
| fill: "ctasks s i = Some (Computed key now n req w)
    \<Longrightarrow> store_response sha256 key now req w (cworld s) = (ou, q, w', g)
    \<Longrightarrow> cache_step sha256 h s
          (advance i (Done ou q w') g
            (s\<lparr>born := (if stores w (store (cworld s)) then (born s)(key := n) else born s)\<rparr>))"
| mutate: "ctasks s i = Some (Asked req w) \<Longrightarrow> Method req \<noteq> ''GET''
    \<Longrightarrow> h req w (cworld s) = (Returned, q, w', g)
    \<Longrightarrow> cache_step sha256 h s (advance i (Wrote (RawTarget req) q w') g s)"
| mutate_panics: "ctasks s i = Some (Asked req w) \<Longrightarrow> Method req \<noteq> ''GET''
    \<Longrightarrow> h req w (cworld s) = (Panicked, q, w', g)
    \<Longrightarrow> cache_step sha256 h s (advance i (Done Panicked q w') g s)"
| invalidate: "ctasks s i = Some (Wrote key req w)
    \<Longrightarrow> after_write key req w (cworld s) = (ou, q, w', g)
    \<Longrightarrow> cache_step sha256 h s (advance i (Done ou q w') g s)"

inductive_cases cache_stepE: "cache_step sha256 h s s'"

definition cache_start :: "('m, 'r, Cache, 'p) world \<Rightarrow> ('m, 'r, 'p) cache_run" where
  "cache_start g = \<lparr>cworld = g, ctasks = Map.empty, cruns = [], born = (\<lambda>_. 0)\<rparr>"

lemma advance_simps [simp]:
  "cworld (advance i t g s) = g" "ctasks (advance i t g s) = (ctasks s)(i \<mapsto> t)"
  "cruns (advance i t g s) = cruns s" "born (advance i t g s) = born s"
  by (simp_all add: advance_def)

section \<open>A task on its own is the middleware\<close>

lemma get_alone:
  assumes "ctasks s i = Some (Missed now req w)"
    and "and_then (h req w (cworld s)) (store_response sha256 (RawTarget req) now) = (ou, q, w', g')"
  shows "\<exists>s'. (cache_step sha256 h)\<^sup>*\<^sup>* s s' \<and> ctasks s' i = Some (Done ou q w') \<and> cworld s' = g'"
proof (cases "h req w (cworld s)")
  case (fields o1 q1 w1 g1)
  show ?thesis
  proof (cases o1)
    case Panicked
    then show ?thesis
      using cache_step.run_panics [of s i now req w h q1 w1 g1 sha256] assms fields
      by (intro exI [of _ "advance i (Done Panicked q1 w1) g1 s"]) auto
  next
    case Returned
    let ?s1 = "advance i (Computed (RawTarget req) now (length (cruns s)) q1 w1) g1
        (s\<lparr>cruns := cruns s @ [(RawTarget req, w_body w1)]\<rparr>)"
    have 1: "cache_step sha256 h s ?s1" using assms(1) fields Returned by (intro cache_step.run) simp_all
    have "store_response sha256 (RawTarget req) now q1 w1 (cworld ?s1) = (ou, q, w', g')"
      using assms(2) fields Returned by simp
    then have "cache_step sha256 h ?s1 (advance i (Done ou q w') g'
        (?s1\<lparr>born := (if stores w1 (store (cworld ?s1)) then (born ?s1)(RawTarget req := length (cruns s)) else born ?s1)\<rparr>))"
      by (intro cache_step.fill) simp_all
    with 1 have "(cache_step sha256 h)\<^sup>*\<^sup>* s (advance i (Done ou q w') g'
        (?s1\<lparr>born := (if stores w1 (store (cworld ?s1)) then (born ?s1)(RawTarget req := length (cruns s)) else born ?s1)\<rparr>))"
      by (meson converse_rtranclp_into_rtranclp r_into_rtranclp)
    then show ?thesis by (intro exI conjI, assumption) simp_all
  qed
qed

lemma write_alone:
  assumes "ctasks s i = Some (Asked req w)" "Method req \<noteq> ''GET''"
    and "and_then (h req w (cworld s)) (after_write (RawTarget req)) = (ou, q, w', g')"
  shows "\<exists>s'. (cache_step sha256 h)\<^sup>*\<^sup>* s s' \<and> ctasks s' i = Some (Done ou q w') \<and> cworld s' = g'"
proof (cases "h req w (cworld s)")
  case (fields o1 q1 w1 g1)
  show ?thesis
  proof (cases o1)
    case Panicked
    then show ?thesis
      using cache_step.mutate_panics [of s i req w h q1 w1 g1 sha256] assms fields
      by (intro exI [of _ "advance i (Done Panicked q1 w1) g1 s"]) auto
  next
    case Returned
    let ?s1 = "advance i (Wrote (RawTarget req) q1 w1) g1 s"
    have 1: "cache_step sha256 h s ?s1" using assms(1,2) fields Returned by (intro cache_step.mutate) simp_all
    have "after_write (RawTarget req) q1 w1 (cworld ?s1) = (ou, q, w', g')"
      using assms(3) fields Returned by simp
    then have "cache_step sha256 h ?s1 (advance i (Done ou q w') g' ?s1)"
      by (intro cache_step.invalidate) simp_all
    with 1 have "(cache_step sha256 h)\<^sup>*\<^sup>* s (advance i (Done ou q w') g' ?s1)"
      by (meson converse_rtranclp_into_rtranclp r_into_rtranclp)
    then show ?thesis by (intro exI conjI, assumption) simp_all
  qed
qed

lemma alone:
  assumes "ctasks s i = Some (Asked req w)"
    and "Cache_Middleware sha256 h req w (cworld s) = (ou, q, w', g')"
  shows "\<exists>s'. (cache_step sha256 h)\<^sup>*\<^sup>* s s' \<and> ctasks s' i = Some (Done ou q w') \<and> cworld s' = g'"
proof (cases "Method req = ''GET''")
  case False
  then show ?thesis using write_alone [OF assms(1)] assms(2) by (simp add: Cache_Middleware_def)
next
  case True
  obtain now g where now: "time_Now (cworld s) = (now, g)" by fastforce
  let ?s1 = "advance i (Clocked now req w) g s"
  have 1: "cache_step sha256 h s ?s1" using assms(1) True now by (rule cache_step.clock)
  have task: "ctasks ?s1 i = Some (Clocked now req w)" by simp
  have go: ?thesis if "cache_step sha256 h ?s1 s2" "(cache_step sha256 h)\<^sup>*\<^sup>* s2 s'"
    "ctasks s' i = Some (Done ou q w')" "cworld s' = g'" for s2 s'
    using converse_rtranclp_into_rtranclp [of "cache_step sha256 h", OF 1
      converse_rtranclp_into_rtranclp [of "cache_step sha256 h", OF that(1,2)]] that(3,4) by blast
  show ?thesis
  proof (cases "bypasses req")
    case b: True
    let ?s2 = "advance i (Missed now req w) g ?s1"
    have "cache_step sha256 h ?s1 ?s2" using cache_step.bypass [OF task b] by simp
    moreover have "and_then (h req w (cworld ?s2)) (store_response sha256 (RawTarget req) now) = (ou, q, w', g')"
      using assms(2) True now b by (simp add: Cache_Middleware_def bypasses_def Let_def)
    ultimately show ?thesis using go get_alone [of ?s2 i now req w h sha256] by fastforce
  next
    case b: False
    obtain r c where l: "lookup (store g) (RawTarget req) now = (r, c)" by fastforce
    show ?thesis
    proof (cases r)
      case (Some e)
      then have "cache_step sha256 h ?s1 (advance i (Done Returned req (serve_hit e req w)) (g\<lparr>store := c\<rparr>) ?s1)"
        using cache_step.hit [OF task b, of e c] l by simp
      moreover have "(ou, q, w', g') = (Returned, req, serve_hit e req w, g\<lparr>store := c\<rparr>)"
        using assms(2) True now b l Some by (auto simp: Cache_Middleware_def bypasses_def Let_def)
      ultimately show ?thesis using go by fastforce
    next
      case None
      let ?s2 = "advance i (Missed now req w) (g\<lparr>store := c\<rparr>) ?s1"
      have "cache_step sha256 h ?s1 ?s2" using cache_step.miss [OF task b, of c] l None by simp
      moreover have "and_then (h req w (cworld ?s2)) (store_response sha256 (RawTarget req) now) = (ou, q, w', g')"
        using assms(2) True now b l None by (simp add: Cache_Middleware_def bypasses_def Let_def)
      ultimately show ?thesis using go get_alone [of ?s2 i now req w h sha256] by fastforce
    qed
  qed
qed

text \<open>
  The steps are the code. A request whose steps are not interrupted by another's ends with the
  outcome, the request, the response and the world that the middleware gives.
\<close>

theorem uninterrupted_is_middleware:
  assumes "ctasks s i = Some (Asked req w)"
    and "Cache_Middleware sha256 h req w (cworld s) = (ou, q, w', g')"
  shows "\<exists>s'. (cache_step sha256 h)\<^sup>*\<^sup>* s s' \<and> ctasks s' i = Some (Done ou q w') \<and> cworld s' = g'"
  using assms by (rule alone)

text \<open>
  The handler of the examples keeps a counter, in the slot of the registry, that a POST raises and a GET
  reports.
\<close>

definition counter_handler :: "(nat, unit, Cache, unit) world handler" where
  "counter_handler req w g =
     (if Method req = ''POST'' then (Returned, req, w, g\<lparr>registry := Suc (registry g)\<rparr>)
      else (Returned, req, w_SetBody w (Itoa (int (registry g))), g))"

lemma counter_GET: "Method req = ''GET'' \<Longrightarrow> counter_handler req w g = (Returned, req, w_SetBody w (Itoa (int (registry g))), g)"
  by (simp add: counter_handler_def)

lemma counter_POST: "Method req = ''POST'' \<Longrightarrow> counter_handler req w g = (Returned, req, w, g\<lparr>registry := Suc (registry g)\<rparr>)"
  by (simp add: counter_handler_def)

lemma sample_request_fields [simp]:
  "Method (sample_request m t) = m" "RawTarget (sample_request m t) = t" "\<not> bypasses (sample_request m t)"
  by (simp_all add: sample_request_def bypasses_def Headers_ContainsToken_def map_slice_def)

lemma uninterrupted_is_middleware_witness:
  "\<exists>s'. (cache_step id counter_handler)\<^sup>*\<^sup>*
        (advance 0 (Asked (sample_request ''POST'' ''/a'') NewResponseWriter) (sample_world 0 () (cache_New 4 Minute) ())
          (cache_start (sample_world 0 () (cache_New 4 Minute) ()))) s'
     \<and> ctasks s' 0 = Some (Done Returned (sample_request ''POST'' ''/a'') NewResponseWriter) \<and> registry (cworld s') = 1"
proof -
  let ?g = "sample_world (0 :: nat) () (cache_New 4 Minute) ()" and ?p = "sample_request ''POST'' ''/a''"
  let ?s = "advance 0 (Asked ?p NewResponseWriter) ?g (cache_start ?g)"
  have "Cache_Middleware id counter_handler ?p NewResponseWriter (cworld ?s) = (Returned, ?p, NewResponseWriter, ?g\<lparr>registry := 1\<rparr>)"
    by (simp add: Cache_Middleware_def counter_POST after_write_def cache_invalidate_def) (simp add: sample_world_def cache_New_def)
  from uninterrupted_is_middleware [OF _ this, of 0] show ?thesis by fastforce
qed

section \<open>What is served was computed\<close>

text \<open>A handler that has no access to the cache, as those below the middleware.\<close>

definition leaves_cache :: "('m, 'r, Cache, 'p) world handler \<Rightarrow> bool" where
  "leaves_cache h \<longleftrightarrow> (\<forall>req w g ou q w' g'. h req w g = (ou, q, w', g') \<longrightarrow> store g' = store g)"

definition backed :: "(bytes \<Rightarrow> bytes) \<Rightarrow> ('m, 'r, 'p) cache_run \<Rightarrow> bool" where
  "backed sha256 s \<longleftrightarrow> cache_inv (store (cworld s))
     \<and> (\<forall>k e. cache_peek (store (cworld s)) k = Some e \<longrightarrow>
          born s k < length (cruns s) \<and> cruns s ! born s k = (k, e_body e) \<and> e_etag e = etagFor sha256 (e_body e))
     \<and> (\<forall>i key now n req w. ctasks s i = Some (Computed key now n req w) \<longrightarrow>
          n < length (cruns s) \<and> cruns s ! n = (key, w_body w))"

lemma lookup_peek:
  assumes "cache_inv c" "lookup c k now = (r, c')"
  shows "cache_inv c'" "cache_peek c' j = Some e \<Longrightarrow> cache_peek c j = Some e"
    "r = Some e \<Longrightarrow> cache_peek c k = Some e"
  using assms(2) cache_store.get_inv [OF assms(1), of k now] cache_store.get_peek [OF assms(1), of k now j]
    cache_store.never_stale [OF assms(1), of k now e]
  by (auto simp: lookup_get assms(1) split: if_splits)

lemma store_response_cases:
  assumes "cache_inv (store g)" "store_response sha256 key now req w g = (ou, q, w', g')"
  shows "if stores w (store g)
         then \<exists>e. cache_put (store g) e = Some (store g') \<and> e_key e = key \<and> e_body e = w_body w
                \<and> e_etag e = etagFor sha256 (w_body w)
         else store g' = store g"
proof -
  obtain f where f: "cache_put (store g) e = Some (f e)" for e using cache_store.put_ok [OF assms(1)] by metis
  show ?thesis
    using assms(2) by (auto simp: stores_def store_response_def Let_def f split: option.splits if_splits)
qed

lemma put_result:
  assumes "cache_inv c" "cache_put c e = Some c'"
  shows "cache_inv c'" "cache_peek c' (e_key e) = Some e"
    and "cache_peek c' k = Some e' \<Longrightarrow> k \<noteq> e_key e \<Longrightarrow> cache_peek c k = Some e'"
proof -
  have p: "cache_inv c' \<and> cache_peek c' (e_key e) = Some e \<and> (\<forall>k. k \<noteq> e_key e \<longrightarrow> cache_peek c' k \<in> {None, cache_peek c k})"
    using cache_store.put_ok [OF assms(1), of e] unfolding assms(2) option.inject by metis
  then show "cache_inv c'" "cache_peek c' (e_key e) = Some e" by blast+
  show "cache_peek c' k = Some e' \<Longrightarrow> k \<noteq> e_key e \<Longrightarrow> cache_peek c k = Some e'"
    using p by (metis insertE option.distinct(1) singletonD)
qed

lemma store_response_peek:
  assumes "cache_inv (store g)" "store_response sha256 key now req w g = (ou, q, w', g')"
  shows "cache_inv (store g')"
    and "cache_peek (store g') k = Some e \<Longrightarrow>
      (if k = key \<and> stores w (store g) then e_body e = w_body w \<and> e_etag e = etagFor sha256 (w_body w)
       else cache_peek (store g) k = Some e)"
proof -
  have "(\<exists>e. stores w (store g) \<and> cache_put (store g) e = Some (store g') \<and> e_key e = key \<and> e_body e = w_body w
      \<and> e_etag e = etagFor sha256 (w_body w)) \<or> \<not> stores w (store g) \<and> store g' = store g"
    using store_response_cases [OF assms] by (auto split: if_splits)
  then have "cache_inv (store g') \<and> (cache_peek (store g') k = Some e \<longrightarrow>
      (if k = key \<and> stores w (store g) then e_body e = w_body w \<and> e_etag e = etagFor sha256 (w_body w)
       else cache_peek (store g) k = Some e))"
  proof (elim disjE exE conjE)
    fix d assume d: "cache_put (store g) d = Some (store g')" "e_key d = key" "stores w (store g)"
      "e_body d = w_body w" "e_etag d = etagFor sha256 (w_body w)"
    note p = put_result [OF assms(1) d(1)]
    show ?thesis using p(1) p(2) p(3) [of k e] d by auto
  qed (use assms(1) in simp)
  then show "cache_inv (store g')" "cache_peek (store g') k = Some e \<Longrightarrow>
      (if k = key \<and> stores w (store g) then e_body e = w_body w \<and> e_etag e = etagFor sha256 (w_body w)
       else cache_peek (store g) k = Some e)" by blast+
qed

lemma after_write_peek:
  assumes "cache_inv (store g)" "after_write key req w g = (ou, q, w', g')"
  shows "cache_inv (store g')" "cache_peek (store g') k = Some e \<Longrightarrow> cache_peek (store g) k = Some e"
    and "is_write (Method req) \<Longrightarrow> cache_peek (store g') key = None \<and> cache_peek (store g') (Path req) = None"
proof -
  let ?c = "cache_invalidate (store g) (Path req)"
  have inv: "cache_inv ?c" by (rule cache_store.del_inv [OF assms(1)])
  have g': "store g' = (if is_write (Method req) then cache_invalidate ?c key else store g)"
    using assms(2) by (auto simp: after_write_def)
  note peek = cache_store.del_peek [OF inv, of key] cache_store.del_peek [OF assms(1), of "Path req"]
  show "cache_inv (store g')" using g' assms(1) cache_store.del_inv [OF inv, of key] by simp
  show "cache_peek (store g') k = Some e \<Longrightarrow> cache_peek (store g) k = Some e"
    using g' peek by (simp split: if_splits)
  show "is_write (Method req) \<Longrightarrow> cache_peek (store g') key = None \<and> cache_peek (store g') (Path req) = None"
    using g' peek by simp
qed

lemma nth_append_old: "n < length xs \<Longrightarrow> (xs @ ys) ! n = xs ! n"
  by (simp add: nth_append)

lemma backed_advance:
  assumes "backed sha256 s" "cache_inv (store g)" "\<And>key now n q w. t \<noteq> Computed key now n q w"
    and "\<And>k e. cache_peek (store g) k = Some e \<Longrightarrow> cache_peek (store (cworld s)) k = Some e"
  shows "backed sha256 (advance i t g s)"
proof -
  have "born s k < length (cruns s) \<and> cruns s ! born s k = (k, e_body e) \<and> e_etag e = etagFor sha256 (e_body e)"
    if "cache_peek (store g) k = Some e" for k e
    using assms(1) assms(4) [OF that] unfolding backed_def by blast
  then show ?thesis using assms(1-3) unfolding backed_def by (auto split: if_splits)
qed

lemma time_Now_store: "time_Now g = (now, g') \<Longrightarrow> store g' = store g"
  by (auto simp: time_Now_def)

lemma backed_fill:
  assumes "backed sha256 s" "ctasks s i = Some (Computed key now n req w)"
    and "store_response sha256 key now req w (cworld s) = (ou, q, w', g)"
  shows "backed sha256 (advance i (Done ou q w') g
     (s\<lparr>born := (if stores w (store (cworld s)) then (born s)(key := n) else born s)\<rparr>))"
proof -
  have inv: "cache_inv (store (cworld s))" using assms(1) by (simp add: backed_def)
  have n: "n < length (cruns s)" "cruns s ! n = (key, w_body w)"
    using assms(1,2) unfolding backed_def by blast+
  note p = store_response_peek [OF inv assms(3)]
  have "born s k < length (cruns s) \<and> cruns s ! born s k = (k, e_body e) \<and> e_etag e = etagFor sha256 (e_body e)"
    if "cache_peek (store (cworld s)) k = Some e" for k e
    using assms(1) that unfolding backed_def by blast
  then show ?thesis
    using assms(1) n p unfolding backed_def by (fastforce split: if_splits)
qed

lemma backed_step:
  assumes "backed sha256 s" "cache_step sha256 h s s'" "leaves_cache h"
  shows "backed sha256 s'"
proof -
  have inv: "cache_inv (store (cworld s))" using assms(1) by (simp add: backed_def)
  have quiet: "store g = store (cworld s)" if "h req w (cworld s) = (ou, q, w', g)" for req w ou q w' g
    using assms(3) that by (auto simp: leaves_cache_def)
  note same = backed_advance [OF assms(1)]
  show ?thesis
    using assms(2)
  proof cases
    case (arrive i req w)
    then show ?thesis using inv same by simp
  next
    case (clock i req w now g)
    show ?thesis unfolding clock(1) using inv time_Now_store [OF clock(4)] by (intro same) simp_all
  next
    case (bypass i now req w)
    then show ?thesis using inv same by simp
  next
    case (hit i now req w e c)
    show ?thesis unfolding hit(1) using lookup_peek [OF inv hit(4)] by (intro same) simp_all
  next
    case (miss i now req w c)
    show ?thesis unfolding miss(1) using lookup_peek [OF inv miss(4)] by (intro same) simp_all
  next
    case (run i now req w q w' g)
    then show ?thesis
      using assms(1) quiet [OF run(3)] by (auto simp: backed_def nth_append less_SucI split: if_splits)
  next
    case (run_panics i now req w q w' g)
    show ?thesis unfolding run_panics(1) using inv quiet [OF run_panics(3)] by (intro same) simp_all
  next
    case (fill i key now n req w ou q w' g)
    then show ?thesis using backed_fill [OF assms(1) fill(2,3)] by simp
  next
    case (mutate i req w q w' g)
    show ?thesis unfolding mutate(1) using inv quiet [OF mutate(4)] by (intro same) simp_all
  next
    case (mutate_panics i req w q w' g)
    show ?thesis unfolding mutate_panics(1) using inv quiet [OF mutate_panics(4)] by (intro same) simp_all
  next
    case (invalidate i key req w ou q w' g)
    show ?thesis unfolding invalidate(1) using after_write_peek(1,2) [OF inv invalidate(3)] by (intro same) simp_all
  qed
qed

lemma backed_run:
  assumes "(cache_step sha256 h)\<^sup>*\<^sup>* s s'" "backed sha256 s" "leaves_cache h"
  shows "backed sha256 s'"
  using assms(1,2) by (induction rule: rtranclp_induct) (auto intro: backed_step assms(3))

lemma backed_start: "store g = cache_New cap t \<Longrightarrow> 1 \<le> cap \<Longrightarrow> backed sha256 (cache_start g)"
  by (simp add: backed_def cache_start_def cache_inv_def cache_wf_New cache_peek_def cache_abs_def lru_find_def)
    (simp add: cache_New_def)

text \<open>
  Concurrent requests never mix answers. However the requests of a cache that started empty
  interleave, what is stored under a target is the body that the handler computed for a GET of that
  very target, with its own entity tag.
\<close>

theorem cached_was_computed:
  assumes "(cache_step sha256 h)\<^sup>*\<^sup>* (cache_start g) s" "leaves_cache h"
    and "store g = cache_New cap t" "1 \<le> cap" "cache_peek (store (cworld s)) k = Some e"
  shows "(k, e_body e) \<in> set (cruns s) \<and> e_etag e = etagFor sha256 (e_body e)"
proof -
  have "backed sha256 s" using backed_run [OF assms(1) backed_start [OF assms(3,4)] assms(2)] .
  then have "born s k < length (cruns s)" "cruns s ! born s k = (k, e_body e)" "e_etag e = etagFor sha256 (e_body e)"
    using assms(5) unfolding backed_def by blast+
  then show ?thesis by (metis nth_mem)
qed

lemma counter_leaves_cache: "leaves_cache counter_handler"
  by (auto simp: leaves_cache_def counter_handler_def split: if_splits)

text \<open>A GET of the counter on its own fills the cache.\<close>

lemma counter_fills:
  assumes "cache_inv (store (cworld s))" "ctasks s i = Some (Asked (sample_request ''GET'' ''/a'') NewResponseWriter)"
  obtains s' e where "(cache_step id counter_handler)\<^sup>*\<^sup>* s s'" "cache_peek (store (cworld s')) ''/a'' = Some e"
proof -
  let ?r = "sample_request ''GET'' ''/a''"
  obtain now g where now: "time_Now (cworld s) = (now, g)" by fastforce
  have inv: "cache_inv (store g)" using assms(1) time_Now_store [OF now] by simp
  obtain r c where l: "lookup (store g) ''/a'' now = (r, c)" by fastforce
  have mw: "Cache_Middleware id counter_handler ?r NewResponseWriter (cworld s) =
      (case r of Some e \<Rightarrow> (Returned, ?r, serve_hit e ?r NewResponseWriter, g\<lparr>store := c\<rparr>)
       | None \<Rightarrow> store_response id ''/a'' now ?r (w_SetBody NewResponseWriter (Itoa (int (registry g)))) (g\<lparr>store := c\<rparr>))"
    using now l sample_request_fields(3) [of "''GET''" "''/a''"]
    by (simp add: Cache_Middleware_def counter_GET bypasses_def Let_def split: option.split)
  show ?thesis
  proof (cases r)
    case (Some e)
    have "cache_peek (store (g\<lparr>store := c\<rparr>)) ''/a'' = Some e"
      using cache_store.get_keeps [OF inv, of "''/a''" now] lookup_peek(3) [OF inv l Some] l Some
      by (auto simp: lookup_get split: if_splits)
    then show ?thesis using alone [OF assms(2)] mw Some that by fastforce
  next
    case None
    let ?w = "w_SetBody NewResponseWriter (Itoa (int (registry g)))"
    obtain ou q w' g' where st: "store_response id ''/a'' now ?r ?w (g\<lparr>store := c\<rparr>) = (ou, q, w', g')"
      by (cases "store_response id ''/a'' now ?r ?w (g\<lparr>store := c\<rparr>)") auto
    have "stores ?w (store (g\<lparr>store := c\<rparr>))"
      by (simp add: stores_def writer_defs Headers_Get_def map_slice_def storage_ttl_def Contains_def Index.simps)
    then obtain e where e: "cache_put c e = Some (store g')" "e_key e = ''/a''"
      using store_response_cases [OF _ st] lookup_peek(1) [OF inv l] by auto
    have "cache_peek (store g') ''/a'' = Some e" using put_result(2) [OF lookup_peek(1) [OF inv l] e(1)] e(2) by simp
    then show ?thesis using alone [OF assms(2)] mw None st that by fastforce
  qed
qed

lemma cached_was_computed_witness:
  "\<exists>s e. (cache_step id counter_handler)\<^sup>*\<^sup>* (cache_start (sample_world 0 () (cache_New 4 Minute) ())) s
     \<and> cache_peek (store (cworld s)) ''/a'' = Some e
     \<and> (''/a'', e_body e) \<in> set (cruns s) \<and> e_etag e = etagFor id (e_body e)"
proof -
  let ?g = "sample_world (0 :: nat) () (cache_New 4 Minute) ()"
  let ?s = "advance 0 (Asked (sample_request ''GET'' ''/a'') NewResponseWriter) ?g (cache_start ?g)"
  have g: "store ?g = cache_New 4 Minute" by (simp add: sample_world_def)
  have "cache_inv (store (cworld ?s))" using backed_start [OF g, of id] by (simp add: backed_def cache_start_def)
  then obtain s e where s: "(cache_step id counter_handler)\<^sup>*\<^sup>* ?s s" "cache_peek (store (cworld s)) ''/a'' = Some e"
    by (rule counter_fills [of ?s 0]) auto
  have "cache_step id counter_handler (cache_start ?g) ?s"
    using cache_step.arrive [of "cache_start ?g" 0] by (simp add: cache_start_def)
  then have run: "(cache_step id counter_handler)\<^sup>*\<^sup>* (cache_start ?g) s" using s(1) by (rule converse_rtranclp_into_rtranclp)
  from cached_was_computed [OF this counter_leaves_cache g _ s(2)] s(2) run show ?thesis by auto
qed

section \<open>Reads and writes\<close>

text \<open>From run \<open>t\<close> on: what is stored under \<open>k\<close>, or about to be, was computed then.\<close>

definition fresh_since :: "nat \<Rightarrow> bytes \<Rightarrow> ('m, 'r, 'p) cache_run \<Rightarrow> bool" where
  "fresh_since t k s \<longleftrightarrow> t \<le> length (cruns s)
     \<and> (cache_peek (store (cworld s)) k \<noteq> None \<longrightarrow> t \<le> born s k)
     \<and> (\<forall>i now n req w. ctasks s i = Some (Computed k now n req w) \<longrightarrow> t \<le> n)"

lemma fresh_advance:
  assumes "fresh_since t k s" "\<And>now n q w. t' \<noteq> Computed k now n q w"
    and "\<And>e. cache_peek (store g) k = Some e \<Longrightarrow> cache_peek (store (cworld s)) k = Some e"
  shows "fresh_since t k (advance i t' g s)"
  using assms unfolding fresh_since_def by (auto split: if_splits)

lemma fresh_step:
  assumes "fresh_since t k s" "backed sha256 s" "cache_step sha256 h s s'" "leaves_cache h"
  shows "fresh_since t k s'"
proof -
  have inv: "cache_inv (store (cworld s))" using assms(2) by (simp add: backed_def)
  have quiet: "store g = store (cworld s)" if "h req w (cworld s) = (ou, q, w', g)" for req w ou q w' g
    using assms(4) that by (auto simp: leaves_cache_def)
  note same = fresh_advance [OF assms(1)]
  show ?thesis
    using assms(3)
  proof cases
    case (arrive i req w)
    show ?thesis unfolding arrive(1) by (intro same) simp_all
  next
    case (clock i req w now g)
    show ?thesis unfolding clock(1) using time_Now_store [OF clock(4)] by (intro same) simp_all
  next
    case (bypass i now req w)
    show ?thesis unfolding bypass(1) by (intro same) simp_all
  next
    case (hit i now req w e c)
    show ?thesis unfolding hit(1) using lookup_peek [OF inv hit(4)] by (intro same) simp_all
  next
    case (miss i now req w c)
    show ?thesis unfolding miss(1) using lookup_peek [OF inv miss(4)] by (intro same) simp_all
  next
    case (run i now req w q w' g)
    then show ?thesis
      using assms(1) quiet [OF run(3)] by (auto simp: fresh_since_def split: if_splits)
  next
    case (run_panics i now req w q w' g)
    show ?thesis unfolding run_panics(1) using quiet [OF run_panics(3)] by (intro same) simp_all
  next
    case (fill i key now n req w ou q w' g)
    have n: "t \<le> n" if "key = k" using assms(1) fill(2) that unfolding fresh_since_def by blast
    have "cache_peek (store (cworld s)) k \<noteq> None"
      if "cache_peek (store g) k \<noteq> None" "\<not> (k = key \<and> stores w (store (cworld s)))"
      using store_response_peek(2) [OF inv fill(3), of k] that by fastforce
    then show ?thesis
      using assms(1) n fill(1) unfolding fresh_since_def by (auto split: if_splits)
  next
    case (mutate i req w q w' g)
    show ?thesis unfolding mutate(1) using quiet [OF mutate(4)] by (intro same) simp_all
  next
    case (mutate_panics i req w q w' g)
    show ?thesis unfolding mutate_panics(1) using quiet [OF mutate_panics(4)] by (intro same) simp_all
  next
    case (invalidate i key req w ou q w' g)
    show ?thesis unfolding invalidate(1) using after_write_peek(1,2) [OF inv invalidate(3)] by (intro same) simp_all
  qed
qed

lemma fresh_run:
  assumes "(cache_step sha256 h)\<^sup>*\<^sup>* s s'" "fresh_since t k s" "backed sha256 s" "leaves_cache h"
  shows "fresh_since t k s' \<and> backed sha256 s'"
  using assms(1)
proof (induction rule: rtranclp_induct)
  case base
  show ?case using assms(2,3) by (rule conjI)
next
  case (step y z)
  then have y: "fresh_since t k y" "backed sha256 y" by simp_all
  show ?case using fresh_step [OF y step.hyps(2) assms(4)] backed_step [OF y(2) step.hyps(2) assms(4)] by (rule conjI)
qed



text \<open>The entry that a GET of the counter leaves when it finds the counter at zero.\<close>

definition zero_entry :: entry where
  "zero_entry = \<lparr>e_key = ''/a'', e_body = ''0'', contentType = [], e_etag = etagFor id ''0'',
     expires = 1700000000 * Second + Minute\<rparr>"

lemma stale_facts:
  fixes g :: "(nat, unit, Cache, unit) world"
  defines "c0 \<equiv> cache_New 4 Minute"
  defines "c1 \<equiv> c0\<lparr>misses := 1\<rparr>"
  shows "lookup c0 ''/a'' now = (None, c1)"
    and "store g = c1 \<Longrightarrow> after_write ''/a'' (sample_request ''POST'' ''/a'') w g = (Returned, sample_request ''POST'' ''/a'', w, g)"
    and "store g = c1 \<Longrightarrow> \<exists>w'. store_response id ''/a'' (1700000000 * Second) (sample_request ''GET'' ''/a'')
           (w_SetBody NewResponseWriter ''0'') g = (Returned, sample_request ''GET'' ''/a'', w', g\<lparr>store := push_front c1 zero_entry\<rparr>)"
    and "\<exists>c. lookup (push_front c1 zero_entry) ''/a'' (1700000000 * Second + Millisecond) = (Some zero_entry, c)"
    and "\<not> bypasses (sample_request m ''/a'')"
    and "Headers_Get (w_headers (serve_hit zero_entry (sample_request ''GET'' ''/a'') NewResponseWriter)) ''X-Cache'' = ''HIT''"
    and "w_body (serve_hit zero_entry (sample_request ''GET'' ''/a'') NewResponseWriter) = ''0''"
proof -
  show "lookup c0 ''/a'' now = (None, c1)" by (simp add: c0_def c1_def go_eval)
  show "store g = c1 \<Longrightarrow> after_write ''/a'' (sample_request ''POST'' ''/a'') w g = (Returned, sample_request ''POST'' ''/a'', w, g)"
    by (simp add: c0_def c1_def go_eval)
  show "\<not> bypasses (sample_request m ''/a'')"
    by (simp add: bypasses_def sample_request_def Headers_ContainsToken_def map_slice_def)
  show "store g = c1 \<Longrightarrow> \<exists>w'. store_response id ''/a'' (1700000000 * Second) (sample_request ''GET'' ''/a'')
           (w_SetBody NewResponseWriter ''0'') g = (Returned, sample_request ''GET'' ''/a'', w', g\<lparr>store := push_front c1 zero_entry\<rparr>)"
    by (simp add: c0_def c1_def go_eval evict.simps zero_entry_def)
  show "\<exists>c. lookup (push_front c1 zero_entry) ''/a'' (1700000000 * Second + Millisecond) = (Some zero_entry, c)"
    by (simp add: c0_def c1_def go_eval zero_entry_def)
  show "Headers_Get (w_headers (serve_hit zero_entry (sample_request ''GET'' ''/a'') NewResponseWriter)) ''X-Cache'' = ''HIT''"
    "w_body (serve_hit zero_entry (sample_request ''GET'' ''/a'') NewResponseWriter) = ''0''"
    by (simp_all add: go_eval zero_entry_def)
qed

text \<open>Stretches of a task that nobody interrupts, as single moves: only this task and the world change.\<close>

definition moves :: "(bytes \<Rightarrow> bytes) \<Rightarrow> ('m, 'r, Cache, 'p) world handler \<Rightarrow> nat \<Rightarrow> cache_task
    \<Rightarrow> ('m, 'r, Cache, 'p) world \<Rightarrow> ('m, 'r, 'p) cache_run \<Rightarrow> ('m, 'r, 'p) cache_run \<Rightarrow> bool" where
  "moves sha256 h i t g s s' \<longleftrightarrow>
     (cache_step sha256 h)\<^sup>*\<^sup>* s s' \<and> ctasks s' = (ctasks s)(i \<mapsto> t) \<and> cworld s' = g"

lemma moves_step: "cache_step sha256 h s (advance i t g s1) \<Longrightarrow> ctasks s1 = ctasks s \<Longrightarrow> moves sha256 h i t g s (advance i t g s1)"
  by (simp add: moves_def r_into_rtranclp)

lemma moves_trans: "moves sha256 h i t g s s1 \<Longrightarrow> moves sha256 h i t' g' s1 s2 \<Longrightarrow> moves sha256 h i t' g' s s2"
  by (auto simp: moves_def)

lemma GET_clocked:
  assumes "ctasks s i = None" "Method req = ''GET''" "time_Now (cworld s) = (now, g)"
  shows "\<exists>s'. moves sha256 h i (Clocked now req w) g s s'"
proof -
  let ?s1 = "advance i (Asked req w) (cworld s) s"
  have "moves sha256 h i (Asked req w) (cworld s) s ?s1" using assms(1) by (intro moves_step cache_step.arrive) simp_all
  moreover have "moves sha256 h i (Clocked now req w) g ?s1 (advance i (Clocked now req w) g ?s1)"
    using assms(2,3) by (intro moves_step cache_step.clock) simp_all
  ultimately show ?thesis using moves_trans by blast
qed

lemma GET_computes:
  assumes "ctasks s i = None" "Method req = ''GET''" "time_Now (cworld s) = (now, g)" "\<not> bypasses req"
    and "lookup (store g) (RawTarget req) now = (None, c)" "h req w (g\<lparr>store := c\<rparr>) = (Returned, q, w', g')"
  shows "\<exists>n s'. moves sha256 h i (Computed (RawTarget req) now n q w') g' s s'"
proof -
  obtain s1 where m1: "moves sha256 h i (Clocked now req w) g s s1" using GET_clocked [OF assms(1-3)] by blast
  then have s1: "ctasks s1 i = Some (Clocked now req w)" "cworld s1 = g" by (simp_all add: moves_def)
  let ?s2 = "advance i (Missed now req w) (g\<lparr>store := c\<rparr>) s1"
  have "cache_step sha256 h s1 ?s2" using cache_step.miss [of s1 i now req w c sha256 h] s1 assms(4,5) by simp
  then have m2: "moves sha256 h i (Missed now req w) (g\<lparr>store := c\<rparr>) s1 ?s2" by (intro moves_step) simp_all
  have "moves sha256 h i (Computed (RawTarget req) now (length (cruns ?s2)) q w') g' ?s2
      (advance i (Computed (RawTarget req) now (length (cruns ?s2)) q w') g' (?s2\<lparr>cruns := cruns ?s2 @ [(RawTarget req, w_body w')]\<rparr>))"
    using assms(6) by (intro moves_step cache_step.run) simp_all
  from moves_trans [OF moves_trans [OF m1 m2] this] show ?thesis by blast
qed

lemma GET_hits:
  assumes "ctasks s i = None" "Method req = ''GET''" "time_Now (cworld s) = (now, g)" "\<not> bypasses req"
    and "lookup (store g) (RawTarget req) now = (Some e, c)"
  shows "\<exists>s'. moves sha256 h i (Done Returned req (serve_hit e req w)) (g\<lparr>store := c\<rparr>) s s'"
proof -
  obtain s1 where m1: "moves sha256 h i (Clocked now req w) g s s1" using GET_clocked [OF assms(1-3)] by blast
  then have s1: "ctasks s1 i = Some (Clocked now req w)" "cworld s1 = g" by (simp_all add: moves_def)
  let ?s2 = "advance i (Done Returned req (serve_hit e req w)) (g\<lparr>store := c\<rparr>) s1"
  have "cache_step sha256 h s1 ?s2" using cache_step.hit [of s1 i now req w e c sha256 h] s1 assms(4,5) by simp
  then have "moves sha256 h i (Done Returned req (serve_hit e req w)) (g\<lparr>store := c\<rparr>) s1 ?s2"
    by (intro moves_step) simp_all
  from moves_trans [OF m1 this] show ?thesis by blast
qed

lemma write_moves:
  assumes "ctasks s i = None" "Method req \<noteq> ''GET''" "h req w (cworld s) = (Returned, q, w', g)"
    and "after_write (RawTarget req) q w' g = (ou, q2, w2, g2)"
  shows "\<exists>s'. moves sha256 h i (Done ou q2 w2) g2 s s'"
proof -
  let ?s1 = "advance i (Asked req w) (cworld s) s" and ?s2 = "\<lambda>s. advance i (Wrote (RawTarget req) q w') g s"
  have m1: "moves sha256 h i (Asked req w) (cworld s) s ?s1" using assms(1) by (intro moves_step cache_step.arrive) simp_all
  have m2: "moves sha256 h i (Wrote (RawTarget req) q w') g ?s1 (?s2 ?s1)"
    using assms(2,3) by (intro moves_step cache_step.mutate) simp_all
  have "moves sha256 h i (Done ou q2 w2) g2 (?s2 ?s1) (advance i (Done ou q2 w2) g2 (?s2 ?s1))"
    using assms(4) by (intro moves_step cache_step.invalidate) simp_all
  from moves_trans [OF moves_trans [OF m1 m2] this] show ?thesis by blast
qed

lemma fill_moves:
  assumes "ctasks s i = Some (Computed key now n req w)"
    and "store_response sha256 key now req w (cworld s) = (ou, q, w', g)"
  shows "\<exists>s'. moves sha256 h i (Done ou q w') g s s'"
  using moves_step [OF cache_step.fill [OF assms, of h]] by fastforce

text \<open>
  C29. A stale read can survive a write the server itself observed, against the comment of the
  middleware: a GET whose answer was computed before the write, and stored after its invalidation, is
  served from the cache although the POST has been carried out and answered, and nothing is in flight.
\<close>

theorem stale_read_survives:
  "\<exists>s. (cache_step id counter_handler)\<^sup>*\<^sup>* (cache_start (sample_world 0 () (cache_New 4 Minute) ())) s
    \<and> (\<exists>q w. ctasks s 1 = Some (Done Returned q w) \<and> Method q = ''POST'' \<and> RawTarget q = ''/a'')
    \<and> ran (ctasks s) \<subseteq> {Done Returned q w | q w. True}
    \<and> registry (cworld s) = 1
    \<and> (\<exists>q w. ctasks s 2 = Some (Done Returned q w) \<and> RawTarget q = ''/a''
         \<and> Headers_Get (w_headers w) ''X-Cache'' = ''HIT'' \<and> w_body w = ''0'')"
proof -
  let ?step = "cache_step id counter_handler" and ?moves = "moves id counter_handler"
  let ?r = "sample_request ''GET'' ''/a''" and ?p = "sample_request ''POST'' ''/a''" and ?w = NewResponseWriter
  let ?now = "1700000000 * Second" and ?w1 = "w_SetBody NewResponseWriter ''0''"
  define c1 where "c1 = (cache_New 4 Minute)\<lparr>misses := 1\<rparr>"
  define g0 g1 g3 where g: "g0 = sample_world (0 :: nat) () (cache_New 4 Minute) ()" "g1 = g0\<lparr>ticks := 1\<rparr>"
    "g3 = g1\<lparr>store := c1, registry := Suc 0\<rparr>"
  define g4 where "g4 = g3\<lparr>store := push_front c1 zero_entry\<rparr>"
  note facts = stale_facts [folded c1_def]
  have meth: "Method ?r = ''GET''" "Method ?p = ''POST''" "RawTarget ?r = ''/a''" "RawTarget ?p = ''/a''"
    by (simp_all add: sample_request_def)
  have g': "store g1 = cache_New 4 Minute" "registry g1 = 0" "store g3 = c1" "registry g4 = 1" "store g4 = push_front c1 zero_entry"
    by (simp_all add: g g4_def sample_world_def)
  have zero: "Itoa 0 = ''0''" by code_simp
  define s0 where "s0 = (cache_start g0 :: (nat, unit, unit) cache_run)"
  have s0: "ctasks s0 = Map.empty" "cworld s0 = g0" by (simp_all add: s0_def cache_start_def)
  have "time_Now (cworld s0) = (?now, g1)" by (simp add: s0 time_Now_def g sample_world_def)
  moreover have "counter_handler ?r ?w (g1\<lparr>store := c1\<rparr>) = (Returned, ?r, ?w1, g1\<lparr>store := c1\<rparr>)"
    using meth g' zero by (simp add: counter_GET)
  ultimately obtain n s1 where m1: "?moves 0 (Computed ''/a'' ?now n ?r ?w1) (g1\<lparr>store := c1\<rparr>) s0 s1"
    using GET_computes [of s0 0 ?r ?now g1 c1 counter_handler ?w] facts(1,5) meth g' s0 by fastforce
  then have s1: "ctasks s1 = [0 \<mapsto> Computed ''/a'' ?now n ?r ?w1]" "cworld s1 = g1\<lparr>store := c1\<rparr>" "?step\<^sup>*\<^sup>* s0 s1"
    by (simp_all add: moves_def s0)
  have "counter_handler ?p ?w (cworld s1) = (Returned, ?p, ?w, g3)" using meth g' by (simp add: counter_POST s1 g(3))
  then obtain s2 where "?moves 1 (Done Returned ?p ?w) g3 s1 s2"
    using write_moves [of s1 1 ?p counter_handler ?w ?p ?w g3 Returned ?p ?w g3 id] facts(2) [OF g'(3)] meth s1 by auto
  then have s2: "ctasks s2 = (ctasks s1)(1 \<mapsto> Done Returned ?p ?w)" "cworld s2 = g3" "?step\<^sup>*\<^sup>* s1 s2"
    by (simp_all add: moves_def)
  obtain w2 where "store_response id ''/a'' ?now ?r ?w1 (cworld s2) = (Returned, ?r, w2, g4)"
    using facts(3) [OF g'(3)] by (auto simp: s2 g4_def)
  then obtain s3 where "?moves 0 (Done Returned ?r w2) g4 s2 s3"
    using fill_moves [of s2 0 "''/a''" ?now n ?r ?w1 id Returned ?r w2 g4 counter_handler] s1 s2 by auto
  then have s3: "ctasks s3 = (ctasks s2)(0 \<mapsto> Done Returned ?r w2)" "cworld s3 = g4" "?step\<^sup>*\<^sup>* s2 s3"
    by (simp_all add: moves_def)
  have "time_Now (cworld s3) = (?now + Millisecond, g4\<lparr>ticks := 2\<rparr>)" by (simp add: s3 time_Now_def g4_def g sample_world_def)
  then obtain c2 s4 where "?moves 2 (Done Returned ?r (serve_hit zero_entry ?r ?w)) (g4\<lparr>ticks := 2, store := c2\<rparr>) s3 s4"
    using GET_hits [of s3 2 ?r] facts(4,5) meth g' s1 s2 s3 by fastforce
  then have s4: "ctasks s4 = (ctasks s3)(2 \<mapsto> Done Returned ?r (serve_hit zero_entry ?r ?w))"
      "cworld s4 = g4\<lparr>ticks := 2, store := c2\<rparr>" "?step\<^sup>*\<^sup>* s3 s4"
    by (simp_all add: moves_def)
  have "?step\<^sup>*\<^sup>* s0 s4" using s1(3) s2(3) s3(3) s4(3) by simp
  then show ?thesis
    using meth facts(6,7) g'(4) by (intro exI [of _ s4]) (auto simp: s0_def g(1) s1 s2 s3 s4 ran_def split: if_splits)
qed

end
