(* ===== verification/Http_Metrics.thy ===== *)
theory Http_Metrics
  imports Http_Middleware
begin

text \<open>
  \<open>metrics/metrics.go\<close>: request counters, the latency histogram and its percentiles. Unsigned
  counters are 64-bit words and signed ones wrap explicitly. Floating-point results are real
  numbers with \<open>rnd\<close> for the rounding after each operation; \<open>json.MarshalIndent\<close> of a snapshot (which
  prints these numbers) is a parameter of the handler. A handler runs \<open>Observe\<close> as one step: the
  source updates the atomic counters and the locked tables separately, and only a reader that runs in
  between can tell (\<^theory_text>\<open>Metrics_Races\<close>).
\<close>

section \<open>The registry\<close>

definition bucketBoundsUS :: "int list" where
  "bucketBoundsUS =
     [100, 250, 500, 1000, 2500, 5000, 10000, 25000, 50000, 100000, 250000, 1000000]"

record Registry =
  started :: instant
  total :: "64 word"
  inflight :: int
  sumUS :: int
  byStatus :: "int \<rightharpoonup> 64 word"
  histogram :: "64 word list"

definition NewRegistry :: "instant \<Rightarrow> Registry" where
  "NewRegistry now =
     \<lparr>started = now, total = 0, inflight = 0, sumUS = 0, byStatus = Map.empty,
      histogram = replicate (length bucketBoundsUS + 1) 0\<rparr>"

text \<open>\<open>sort.Search\<close>: binary search for the first index at which a predicate holds.\<close>

function search_loop :: "nat \<Rightarrow> nat \<Rightarrow> (nat \<Rightarrow> bool) \<Rightarrow> nat" where
  "search_loop i j f =
     (if i < j
      then let h = (i + j) div 2
           in if \<not> f h then search_loop (h + 1) j f else search_loop i h f
      else i)"
  by pat_completeness auto
termination
  by (relation "measure (\<lambda>(i, j, f). j - i)") auto

declare search_loop.simps [simp del]

definition sort_Search :: "nat \<Rightarrow> (nat \<Rightarrow> bool) \<Rightarrow> nat" where
  "sort_Search n f = search_loop 0 n f"

definition bucket_index :: "int \<Rightarrow> nat" where
  "bucket_index us = sort_Search (length bucketBoundsUS) (\<lambda>i. us \<le> bucketBoundsUS ! i)"

definition Observe :: "Registry \<Rightarrow> int \<Rightarrow> duration \<Rightarrow> Registry" where
  "Observe r s dur =
     (let us = Microseconds dur;
          idx = bucket_index us
      in r\<lparr>total := total r + 1, sumUS := wrap64 (sumUS r + us),
           byStatus := (byStatus r)(s \<mapsto> (case byStatus r s of None \<Rightarrow> 0 | Some n \<Rightarrow> n) + 1),
           histogram := (histogram r)[idx := histogram r ! idx + 1]\<rparr>)"

section \<open>Percentiles\<close>

definition bucket_lo :: "nat \<Rightarrow> int" where
  "bucket_lo i = (if i > 0 then bucketBoundsUS ! (i - 1) else 0)"

definition bucket_hi :: "nat \<Rightarrow> int" where
  "bucket_hi i = (if i < length bucketBoundsUS then bucketBoundsUS ! i else 2000000)"

definition float_of :: "(real \<Rightarrow> real) \<Rightarrow> 64 word \<Rightarrow> real" where
  "float_of rnd n = rnd (of_nat (unat n))"

definition interpolate :: "(real \<Rightarrow> real) \<Rightarrow> real \<Rightarrow> 64 word \<Rightarrow> 64 word \<Rightarrow> nat \<Rightarrow> real" where
  "interpolate rnd rank prev cnt i =
     (if cnt = 0 then rnd (of_int (bucket_hi i))
      else let frac = rnd (rnd (rank - float_of rnd prev) / float_of rnd cnt)
           in rnd (rnd (of_int (bucket_lo i)) + rnd (frac * rnd (of_int (bucket_hi i - bucket_lo i)))))"

fun percentile_loop :: "(real \<Rightarrow> real) \<Rightarrow> real \<Rightarrow> nat \<Rightarrow> 64 word \<Rightarrow> 64 word list \<Rightarrow> real" where
  "percentile_loop rnd rank i cum [] = rnd (of_int (last bucketBoundsUS))"
| "percentile_loop rnd rank i cum (cnt # cnts) =
     (if float_of rnd (cum + cnt) \<ge> rank then interpolate rnd rank cum cnt i
      else percentile_loop rnd rank (i + 1) (cum + cnt) cnts)"

definition percentile :: "(real \<Rightarrow> real) \<Rightarrow> real \<Rightarrow> 64 word list \<Rightarrow> 64 word \<Rightarrow> real" where
  "percentile rnd p cnts n =
     (if n = 0 then 0 else percentile_loop rnd (rnd (p * float_of rnd n)) 0 0 cnts)"

section \<open>Snapshots, the middleware and the handler\<close>

record Snapshot =
  UptimeSec :: real
  sn_Total :: "64 word"
  InFlight :: int
  ByStatus :: "bytes \<rightharpoonup> 64 word"
  AvgLatencyMS :: real
  P50MS :: real
  P90MS :: real
  P99MS :: real

text \<open>The table under its printed keys: the code of a key is the one whose decimal form it is.\<close>

definition status_table :: "(int \<rightharpoonup> 64 word) \<Rightarrow> bytes \<rightharpoonup> 64 word" where
  "status_table m k = (case Atoi k of (s, err) \<Rightarrow> if err = None \<and> Itoa s = k then m s else None)"

definition snapshot :: "(real \<Rightarrow> real) \<Rightarrow> Registry \<Rightarrow> instant \<Rightarrow> Snapshot" where
  "snapshot rnd r now =
     (let pct = (\<lambda>p. if total r > 0 then rnd (percentile rnd p (histogram r) (total r) / 1000) else 0)
      in \<lparr>UptimeSec = Seconds rnd (time_Sub now (started r)),
          sn_Total = total r, InFlight = inflight r, ByStatus = status_table (byStatus r),
          AvgLatencyMS = (if total r > 0
             then rnd (rnd (rnd (of_int (sumUS r)) / float_of rnd (total r)) / 1000) else 0),
          P50MS = pct (1 / 2), P90MS = pct (rnd (9 / 10)), P99MS = pct (rnd (99 / 100))\<rparr>)"

definition inflight_Add :: "int \<Rightarrow> (Registry, 'r, 'c, 'p) world \<Rightarrow> (Registry, 'r, 'c, 'p) world" where
  "inflight_Add d g = g\<lparr>registry := (registry g)\<lparr>inflight := wrap64 (inflight (registry g) + d)\<rparr>\<rparr>"

definition observe_exchange :: "instant \<Rightarrow> (Registry, 'r, 'c, 'p) world handler" where
  "observe_exchange start req w g =
     (let g = inflight_Add (- 1) g;
          (now, g) = time_Now g
      in (Returned, req, w,
          g\<lparr>registry := Observe (registry g) (w_status w) (time_Sub now start)\<rparr>))"

definition Metrics_Middleware :: "(Registry, 'r, 'c, 'p) world handler \<Rightarrow> (Registry, 'r, 'c, 'p) world handler" where
  "Metrics_Middleware next req w g =
     (let g = inflight_Add 1 g;
          (start, g) = time_Now g
      in and_then (next req w g) (observe_exchange start))"

definition Metrics_Handler :: "(real \<Rightarrow> real) \<Rightarrow> (Snapshot \<Rightarrow> bytes) \<Rightarrow> (Registry, 'r, 'c, 'p) world handler" where
  "Metrics_Handler rnd marshal req w g =
     (case time_Now g of (now, g) \<Rightarrow>
        (Returned, req, w_JSON w StatusOK (marshal (snapshot rnd (registry g) now)), g))"

lemmas metrics_defs [go_eval] =
  bucketBoundsUS_def NewRegistry_def sort_Search_def bucket_index_def Observe_def bucket_lo_def
  bucket_hi_def float_of_def interpolate_def percentile_def status_table_def snapshot_def
  inflight_Add_def observe_exchange_def Metrics_Middleware_def Metrics_Handler_def

section \<open>Binary search\<close>

definition up_closed :: "(nat \<Rightarrow> bool) \<Rightarrow> nat \<Rightarrow> bool" where
  "up_closed f n \<longleftrightarrow> (\<forall>a b. a \<le> b \<and> b < n \<and> f a \<longrightarrow> f b)"

definition first_at :: "(nat \<Rightarrow> bool) \<Rightarrow> nat \<Rightarrow> nat \<Rightarrow> bool" where
  "first_at f n k \<longleftrightarrow> (\<forall>a < k. \<not> f a) \<and> (\<forall>a. k \<le> a \<and> a < n \<longrightarrow> f a)"

lemma search_loop_spec:
  assumes "up_closed f n" "i \<le> j" "j \<le> n" "\<forall>k < i. \<not> f k" "\<forall>k. j \<le> k \<and> k < n \<longrightarrow> f k"
  shows "search_loop i j f \<le> j \<and> first_at f n (search_loop i j f)"
  using assms
proof (induction i j f rule: search_loop.induct)
  case (1 i j f)
  show ?case
  proof (cases "i < j")
    case True
    let ?h = "(i + j) div 2"
    have h: "i \<le> ?h" "?h < j" using True by auto
    show ?thesis
    proof (cases "f ?h")
      case False
      have "\<not> f k" if "k < ?h + 1" for k
        using False 1(3) h 1(5) that unfolding up_closed_def by (metis Suc_eq_plus1 less_Suc_eq_le order_less_le_trans)
      then have "search_loop (?h + 1) j f \<le> j \<and> first_at f n (search_loop (?h + 1) j f)"
        using 1(3-) h by (intro 1(1) [OF True refl False]) auto
      then show ?thesis using True False by (simp add: search_loop.simps [of i j f])
    next
      case fh: True
      then have "\<not> \<not> f ?h" by simp
      have "\<forall>k. ?h \<le> k \<and> k < n \<longrightarrow> f k" using fh 1(3) unfolding up_closed_def by blast
      then have "search_loop i ?h f \<le> ?h \<and> first_at f n (search_loop i ?h f)"
        using 1(3-) h by (intro 1(2) [OF True refl \<open>\<not> \<not> f ?h\<close>]) auto
      then show ?thesis using True fh h by (simp add: search_loop.simps [of i j f])
    qed
  next
    case False
    then have "search_loop i j f = i" by (simp add: search_loop.simps [of i j f])
    with 1 False show ?thesis by (simp add: first_at_def)
  qed
qed

lemma bounds_sorted: "sorted_wrt (<) bucketBoundsUS"
  by (simp add: bucketBoundsUS_def)

lemma bucket_index_spec:
  "bucket_index us \<le> 12 \<and> (\<forall>k < bucket_index us. bucketBoundsUS ! k < us)
    \<and> (bucket_index us < 12 \<longrightarrow> us \<le> bucketBoundsUS ! bucket_index us)"
proof -
  have len: "length bucketBoundsUS = 12" by (simp add: bucketBoundsUS_def)
  have "up_closed (\<lambda>i. us \<le> bucketBoundsUS ! i) 12"
    unfolding up_closed_def
  proof (intro allI impI)
    fix a b :: nat assume "a \<le> b \<and> b < 12 \<and> us \<le> bucketBoundsUS ! a"
    then show "us \<le> bucketBoundsUS ! b"
      using bounds_sorted len sorted_wrt_nth_less [of "(<)" bucketBoundsUS a b] by (cases "a = b") auto
  qed
  from search_loop_spec [OF this, of 0 12] show ?thesis
    by (auto simp: bucket_index_def sort_Search_def len not_le first_at_def)
qed

section \<open>Counting\<close>

definition metrics_ok :: "Registry \<Rightarrow> bool" where
  "metrics_ok r \<longleftrightarrow> length (histogram r) = 13 \<and> sum_list (histogram r) = total r
     \<and> finite (dom (byStatus r)) \<and> (\<Sum>s \<in> dom (byStatus r). the (byStatus r s)) = total r"

lemma sum_list_bump: "i < length xs \<Longrightarrow> sum_list (xs[i := xs ! i + 1]) = sum_list xs + (1 :: 64 word)"
  by (induction xs arbitrary: i) (auto split: nat.split simp: add.assoc add.commute)

lemma metrics_ok_New: "metrics_ok (NewRegistry now)"
  by (simp add: metrics_ok_def NewRegistry_def bucketBoundsUS_def)

lemma Observe_ok: "metrics_ok r \<Longrightarrow> metrics_ok (Observe r s d)"
  using bucket_index_spec [of "Microseconds d"] sum_bump [of "byStatus r" s]
  by (simp add: metrics_ok_def Observe_def Let_def sum_list_bump)

lemma Observe_total: "total (Observe r s d) = total r + 1"
  by (simp add: Observe_def Let_def)

text \<open>
  The registry's books balance after any number of observations: the total equals the sum over the
  status codes and the sum over the latency buckets (even when the 64-bit counters wrap), each
  observation raises the total by one, and it lands in the one bucket whose bounds enclose it: the
  binary search finds the least upper bound, and what exceeds all of them goes to the overflow bucket.
\<close>

theorem Observe_balances:
  assumes "metrics_ok r"
  shows "metrics_ok (foldl (\<lambda>r (s, d). Observe r s d) r obs)
    \<and> total (foldl (\<lambda>r (s, d). Observe r s d) r obs) = total r + of_nat (length obs)
    \<and> (0 \<le> us \<longrightarrow> bucket_index us < 13
         \<and> (bucket_index us = 0 \<or> bucket_lo (bucket_index us) < us)
         \<and> (bucket_index us = 12 \<or> us \<le> bucket_hi (bucket_index us)))"
proof -
  have "metrics_ok (foldl (\<lambda>r (s, d). Observe r s d) r obs)
    \<and> total (foldl (\<lambda>r (s, d). Observe r s d) r obs) = total r + of_nat (length obs)"
  proof (induction obs rule: rev_induct)
    case (snoc x xs)
    then show ?case
      using Observe_ok [of "foldl (\<lambda>r (s, d). Observe r s d) r xs" "fst x" "snd x"]
      by (cases x) (simp add: Observe_total)
  qed (use assms in simp)
  moreover have "length bucketBoundsUS = 12" by (simp add: bucketBoundsUS_def)
  ultimately show ?thesis
    using bucket_index_spec [of us] by (auto simp: bucket_lo_def bucket_hi_def)
qed

theorem Observe_balances_witness:
  "metrics_ok (foldl (\<lambda>r (s, d). Observe r s d) (NewRegistry 0) [(200, 5 * Millisecond), (404, Second)])
    \<and> bucket_lo (bucket_index 300) < 300"
proof -
  have "bucket_index 300 \<noteq> 0"
  proof
    assume "bucket_index 300 = 0"
    with bucket_index_spec [of 300] show False by (simp add: bucketBoundsUS_def)
  qed
  then show ?thesis
    using Observe_balances [OF metrics_ok_New, of 0 "[(200, 5 * Millisecond), (404, Second)]" 300] by auto
qed

text \<open>
  The middleware observes at the edge: a wrapped handler that returns is counted exactly once, with
  the status it ended with and the time it took, and leaves the in-flight gauge where it was; one that
  panics through the middleware is not counted and leaves the gauge one too high.
\<close>

theorem Metrics_counts_once:
  assumes "h req w ((inflight_Add 1 g)\<lparr>ticks := Suc (ticks g)\<rparr>) = (ou, req', w', g')"
  shows "ou = Returned \<and> (\<exists>g''. Metrics_Middleware h req w g = (Returned, req', w', g'')
        \<and> registry g'' = Observe ((registry g')\<lparr>inflight := wrap64 (inflight (registry g') - 1)\<rparr>)
             (w_status w') (time_Sub (clock g' (ticks g')) (clock g (ticks g)))
        \<and> total (registry g'') = total (registry g') + 1)
    \<or> ou = Panicked \<and> Metrics_Middleware h req w g = (Panicked, req', w', g')"
  using assms
  by (cases ou) (simp_all add: Metrics_Middleware_def inflight_Add_def time_Now_def observe_exchange_def
      Observe_def Let_def)

theorem Metrics_counts_once_witness:
  "\<exists>g''. Metrics_Middleware (\<lambda>req w g. (Returned, req, w, g)) (sample_request ''GET'' ''/'') NewResponseWriter
      (sample_world (NewRegistry 0) () () ()) = (Returned, sample_request ''GET'' ''/'', NewResponseWriter, g'')
    \<and> total (registry g'') = 1 \<and> inflight (registry g'') = 0"
  using Metrics_counts_once [of "\<lambda>req w g. (Returned, req, w, g)" "sample_request ''GET'' ''/''" NewResponseWriter
      "sample_world (NewRegistry 0) () () ()", OF refl]
  by (auto simp: sample_world_def inflight_Add_def NewRegistry_def wrap64_def Observe_def Let_def)

lemma Metrics_well_behaved: "well_behaved h \<Longrightarrow> well_behaved (Metrics_Middleware h)"
  by (rule well_behavedI)
     (simp add: Metrics_Middleware_def time_Now_def Let_def sound_and_then well_behavedD
        observe_exchange_def sound_def [of _ _ "(Returned, _)"])

interpretation metrics: middleware Metrics_Middleware
  by unfold_locales (rule Metrics_well_behaved)

section \<open>Percentiles stay in their bucket\<close>

lemma bucket_hi_lo: "i < 12 \<Longrightarrow> bucket_lo (Suc i) = bucket_hi i"
  by (simp add: bucket_lo_def bucket_hi_def bucketBoundsUS_def)

lemma bucket_lo_less_hi: "i \<le> 12 \<Longrightarrow> bucket_lo i < bucket_hi i"
proof -
  assume "i \<le> 12"
  then have "i \<in> set [0..<13]" by auto
  moreover have "list_all (\<lambda>i. bucket_lo i < bucket_hi i) [0..<13]"
    by (simp add: upt_rec bucket_lo_def bucket_hi_def bucketBoundsUS_def)
  ultimately show ?thesis by (simp add: list_all_iff)
qed

lemma interpolate_id:
  assumes "i \<le> 12" "cnt \<noteq> 0" "real (unat prev) < rank" "rank \<le> real (unat prev) + real (unat cnt)"
  shows "real_of_int (bucket_lo i) < interpolate id rank prev cnt i"
    and "interpolate id rank prev cnt i \<le> of_int (bucket_hi i)"
    and "rank \<le> rank' \<Longrightarrow> interpolate id rank prev cnt i \<le> interpolate id rank' prev cnt i"
proof -
  let ?f = "(rank - real (unat prev)) / real (unat cnt)" and ?w = "real_of_int (bucket_hi i - bucket_lo i)"
  have c: "0 < real (unat cnt)" using assms(2) by (simp only: of_nat_0_less_iff unat_gt_0 not_False_eq_True)
  have f: "0 < ?f" "?f \<le> 1" using assms c by (simp_all add: pos_divide_le_eq)
  have w: "0 < ?w" using bucket_lo_less_hi [OF assms(1)] by simp
  have eq: "interpolate id r prev cnt i = of_int (bucket_lo i) + (r - real (unat prev)) / real (unat cnt) * ?w" for r
    using assms(2) by (simp add: interpolate_def float_of_def)
  show "real_of_int (bucket_lo i) < interpolate id rank prev cnt i" using mult_pos_pos [OF f(1) w] unfolding eq by linarith
  have "?f * ?w \<le> 1 * ?w" using f w by (intro mult_right_mono) simp_all
  then show "interpolate id rank prev cnt i \<le> of_int (bucket_hi i)" unfolding eq by (simp only: of_int_diff mult_1)
  show "interpolate id rank prev cnt i \<le> interpolate id rank' prev cnt i" if "rank \<le> rank'"
    unfolding eq using that c w by (intro add_left_mono mult_right_mono divide_right_mono) simp_all
qed

text \<open>The rank \<open>r\<close> falls into bucket \<open>j\<close> of the counts.\<close>

definition falls_in :: "real \<Rightarrow> 64 word list \<Rightarrow> nat \<Rightarrow> bool" where
  "falls_in r cnts j \<longleftrightarrow> j < length cnts \<and> real (sum_list (map unat (take j cnts))) < r
     \<and> r \<le> real (sum_list (map unat (take (Suc j) cnts)))"

lemma percentile_loop_bounds:
  assumes "real (unat cum) < rank" "rank \<le> real (unat cum + sum_list (map unat cnts))"
    and "unat cum + sum_list (map unat cnts) < 2 ^ 64" "i + length cnts \<le> 13"
  shows "\<exists>j. falls_in (rank - real (unat cum)) cnts j
    \<and> real_of_int (bucket_lo (i + j)) < percentile_loop id rank i cum cnts
    \<and> percentile_loop id rank i cum cnts \<le> of_int (bucket_hi (i + j))"
  using assms
proof (induction cnts arbitrary: i cum)
  case (Cons cnt cnts)
  have s: "unat (cum + cnt) = unat cum + unat cnt" using Cons.prems(3) by (simp add: unat_word_ariths)
  show ?case
  proof (cases "rank \<le> real (unat (cum + cnt))")
    case True
    then have "cnt \<noteq> 0" using Cons.prems(1) by (cases "cnt = 0") auto
    with interpolate_id [of i cnt cum rank] True Cons.prems s show ?thesis
      by (intro exI [of _ 0]) (simp add: falls_in_def float_of_def id_def)
  next
    case False
    have "\<exists>j. falls_in (rank - real (unat (cum + cnt))) cnts j
      \<and> real_of_int (bucket_lo (Suc i + j)) < percentile_loop id rank (Suc i) (cum + cnt) cnts
      \<and> percentile_loop id rank (Suc i) (cum + cnt) cnts \<le> of_int (bucket_hi (Suc i + j))"
      using False Cons.prems s by (intro Cons.IH) auto
    then obtain j where "falls_in (rank - real (unat (cum + cnt))) cnts j"
      "real_of_int (bucket_lo (Suc i + j)) < percentile_loop id rank (Suc i) (cum + cnt) cnts"
      "percentile_loop id rank (Suc i) (cum + cnt) cnts \<le> of_int (bucket_hi (Suc i + j))" by blast
    with False s show ?thesis
      by (intro exI [of _ "Suc j"]) (auto simp: falls_in_def float_of_def id_def)
  qed
qed simp

lemma percentile_loop_mono:
  assumes "real (unat cum) < rank" "rank \<le> rank'" "rank' \<le> real (unat cum + sum_list (map unat cnts))"
    and "unat cum + sum_list (map unat cnts) < 2 ^ 64" "i + length cnts \<le> 13"
  shows "percentile_loop id rank i cum cnts \<le> percentile_loop id rank' i cum cnts"
  using assms
proof (induction cnts arbitrary: i cum)
  case (Cons cnt cnts)
  have s: "unat (cum + cnt) = unat cum + unat cnt" using Cons.prems(4) by (simp add: unat_word_ariths)
  consider "rank' \<le> real (unat (cum + cnt))" | "rank \<le> real (unat (cum + cnt))" "real (unat (cum + cnt)) < rank'"
    | "real (unat (cum + cnt)) < rank" using Cons.prems(2) by linarith
  then show ?case
  proof cases
    case 1
    then have "cnt \<noteq> 0" using Cons.prems(1,2) by (cases "cnt = 0") auto
    with interpolate_id(3) [of i cnt cum rank rank'] 1 Cons.prems s show ?thesis by (simp add: float_of_def id_def)
  next
    case 2
    then have "cnt \<noteq> 0" using Cons.prems(1) by (cases "cnt = 0") auto
    with interpolate_id(2) [of i cnt cum rank] 2 Cons.prems s
    have l: "percentile_loop id rank i cum (cnt # cnts) \<le> of_int (bucket_hi i)" by (simp add: float_of_def)
    obtain j where j: "falls_in (rank' - real (unat (cum + cnt))) cnts j"
      "real_of_int (bucket_lo (Suc i + j)) < percentile_loop id rank' (Suc i) (cum + cnt) cnts"
      using percentile_loop_bounds [of "cum + cnt" rank' cnts "Suc i"] 2 Cons.prems s by auto
    have "i + j < 12" using j(1) Cons.prems(5) by (simp add: falls_in_def)
    then have "bucket_hi i \<le> bucket_lo (Suc i + j)"
    proof (induction j)
      case 0
      then show ?case by (simp add: bucket_hi_lo)
    next
      case (Suc j)
      then have "bucket_hi i \<le> bucket_lo (Suc (i + j))" by simp
      also have "\<dots> < bucket_hi (Suc (i + j))" using Suc by (intro bucket_lo_less_hi) simp
      also have "\<dots> = bucket_lo (Suc i + Suc j)" using Suc by (simp add: bucket_hi_lo)
      finally show ?case by simp
    qed
    with l j(2) 2 show ?thesis by (simp add: float_of_def id_def)
  next
    case 3
    have "percentile_loop id rank (Suc i) (cum + cnt) cnts \<le> percentile_loop id rank' (Suc i) (cum + cnt) cnts"
      using 3 Cons.prems s by (intro Cons.IH) auto
    with 3 Cons.prems(2) show ?thesis by (simp add: float_of_def id_def)
  qed
qed simp

text \<open>
  A reported percentile is never outside the bucket its rank falls into, and percentiles are ordered:
  for balanced counts below the 64-bit range and exact arithmetic, the value for \<open>p\<close> lies above the
  lower and at most at the upper bound of the bucket that holds the \<open>p\<close>-th part of the observations,
  and a larger \<open>p\<close> never gives a smaller value (so p50, p90 and p99 come out in order).
\<close>

theorem percentile_sound:
  assumes "length cnts = 13" "unat n = sum_list (map unat cnts)" "n \<noteq> 0" "0 < p" "p \<le> q" "q \<le> 1"
  shows "(\<exists>j. falls_in (p * real (unat n)) cnts j \<and> of_int (bucket_lo j) < percentile id p cnts n
            \<and> percentile id p cnts n \<le> of_int (bucket_hi j))
    \<and> percentile id p cnts n \<le> percentile id q cnts n"
proof -
  have n: "0 < real (unat n)" using assms(3) by (simp only: of_nat_0_less_iff unat_gt_0 not_False_eq_True)
  have r: "0 < p * real (unat n)" "p * real (unat n) \<le> q * real (unat n)" "q * real (unat n) \<le> 1 * real (unat n)"
    using assms(4-6) n by (auto intro!: mult_right_mono)
  have lt: "sum_list (map unat cnts) < 2 ^ 64" using assms(2) unsigned_less [of n, where ?'a = nat] by simp
  have "\<exists>j. falls_in (p * real (unat n) - real (unat (0 :: 64 word))) cnts j
      \<and> real_of_int (bucket_lo (0 + j)) < percentile_loop id (p * real (unat n)) 0 0 cnts
      \<and> percentile_loop id (p * real (unat n)) 0 0 cnts \<le> of_int (bucket_hi (0 + j))"
    using r lt assms(1,2,5,6) by (intro percentile_loop_bounds) auto
  moreover have "percentile_loop id (p * real (unat n)) 0 0 cnts \<le> percentile_loop id (q * real (unat n)) 0 0 cnts"
    using r lt assms(1,2) by (intro percentile_loop_mono) auto
  ultimately show ?thesis using assms(3) by (simp add: percentile_def float_of_def)
qed

theorem percentile_sound_witness:
  "percentile id (1 / 2) [0, 4, 0, 0, 4, 0, 0, 0, 0, 0, 0, 0, 0] 8
     \<le> percentile id (9 / 10) [0, 4, 0, 0, 4, 0, 0, 0, 0, 0, 0, 0, 0] 8"
  using percentile_sound [of "[0, 4, 0, 0, 4, 0, 0, 0, 0, 0, 0, 0, 0]" 8 "1 / 2" "9 / 10"] by simp

end
