(* ===== verification/Metrics_Races.thy ===== *)
theory Metrics_Races
  imports Http_Metrics
begin

text \<open>
  The registry of \<open>metrics/metrics.go\<close> under concurrent requests. Its gauge and its totals are atomics
  and its tables are under a lock, but an observation is three such operations and a snapshot four, so
  requests and snapshots interleave between them. Each operation is one step; the uninterrupted sequence
  is \<open>Observe\<close> and \<open>snapshot\<close>.
\<close>

section \<open>The operations of an observation and of a snapshot\<close>

definition gauge_Add :: "int \<Rightarrow> Registry \<Rightarrow> Registry" where
  "gauge_Add d r = r\<lparr>inflight := wrap64 (inflight r + d)\<rparr>"

definition total_Add :: "Registry \<Rightarrow> Registry" where
  "total_Add r = r\<lparr>total := total r + 1\<rparr>"

definition sumUS_Add :: "int \<Rightarrow> Registry \<Rightarrow> Registry" where
  "sumUS_Add us r = r\<lparr>sumUS := wrap64 (sumUS r + us)\<rparr>"

definition tally :: "int \<Rightarrow> int \<Rightarrow> Registry \<Rightarrow> Registry" where
  "tally s us r =
     r\<lparr>byStatus := (byStatus r)(s \<mapsto> (case byStatus r s of None \<Rightarrow> 0 | Some n \<Rightarrow> n) + 1),
       histogram := (histogram r)[bucket_index us := histogram r ! bucket_index us + 1]\<rparr>"

lemma Observe_steps: "Observe r s d = tally s (Microseconds d) (sumUS_Add (Microseconds d) (total_Add r))"
  by (simp add: Observe_def tally_def sumUS_Add_def total_Add_def Let_def)

definition snapshot_of :: "(real \<Rightarrow> real) \<Rightarrow> duration \<Rightarrow> 64 word \<Rightarrow> (int \<rightharpoonup> 64 word) \<Rightarrow> 64 word list \<Rightarrow> int \<Rightarrow> int \<Rightarrow> Snapshot" where
  "snapshot_of rnd uptime n st hist gauge us =
     (let pct = (\<lambda>p. if n > 0 then rnd (percentile rnd p hist n / 1000) else 0)
      in \<lparr>UptimeSec = Seconds rnd uptime, sn_Total = n, InFlight = gauge, ByStatus = status_table st,
          AvgLatencyMS = (if n > 0 then rnd (rnd (rnd (of_int us) / float_of rnd n) / 1000) else 0),
          P50MS = pct (1 / 2), P90MS = pct (rnd (9 / 10)), P99MS = pct (rnd (99 / 100))\<rparr>)"

lemma inflight_Add_gauge: "inflight_Add d g = g\<lparr>registry := gauge_Add d (registry g)\<rparr>"
  by (simp add: inflight_Add_def gauge_Add_def)

lemma snapshot_parts:
  "snapshot rnd r now = snapshot_of rnd (time_Sub now (started r)) (total r) (byStatus r) (histogram r) (inflight r) (sumUS r)"
  by (simp add: snapshot_def snapshot_of_def)

section \<open>Steps\<close>

text \<open>Where a request is on its way through the middleware, or a snapshot on its way through the fields.\<close>

datatype metrics_task =
    Inside
  | Left int duration
  | Totalled int duration
  | Summed int duration
  | Recorded int duration
  | Loaded "64 word"
  | Copied "64 word" "int \<rightharpoonup> 64 word" "64 word list"
  | Gauged instant "64 word" "int \<rightharpoonup> 64 word" "64 word list" int
  | Shown Snapshot

record metrics_run =
  mreg :: Registry
  mtasks :: "metrics_task list"

definition becomes :: "metrics_run \<Rightarrow> nat \<Rightarrow> metrics_task \<Rightarrow> Registry \<Rightarrow> metrics_run" where
  "becomes s i t r = \<lparr>mreg = r, mtasks = (mtasks s)[i := t]\<rparr>"

definition task_at :: "metrics_run \<Rightarrow> nat \<Rightarrow> metrics_task \<Rightarrow> bool" where
  "task_at s i t \<longleftrightarrow> i < length (mtasks s) \<and> mtasks s ! i = t"

inductive metrics_step :: "(real \<Rightarrow> real) \<Rightarrow> metrics_run \<Rightarrow> metrics_run \<Rightarrow> bool" for rnd where
  enter: "metrics_step rnd s \<lparr>mreg = gauge_Add 1 (mreg s), mtasks = mtasks s @ [Inside]\<rparr>"
| leave: "task_at s i Inside \<Longrightarrow> metrics_step rnd s (becomes s i (Left st d) (gauge_Add (- 1) (mreg s)))"
| totals: "task_at s i (Left st d) \<Longrightarrow> metrics_step rnd s (becomes s i (Totalled st d) (total_Add (mreg s)))"
| sums: "task_at s i (Totalled st d) \<Longrightarrow>
    metrics_step rnd s (becomes s i (Summed st d) (sumUS_Add (Microseconds d) (mreg s)))"
| records: "task_at s i (Summed st d) \<Longrightarrow>
    metrics_step rnd s (becomes s i (Recorded st d) (tally st (Microseconds d) (mreg s)))"
| ask: "metrics_step rnd s \<lparr>mreg = mreg s, mtasks = mtasks s @ [Loaded (total (mreg s))]\<rparr>"
| copy: "task_at s i (Loaded n) \<Longrightarrow>
    metrics_step rnd s (becomes s i (Copied n (byStatus (mreg s)) (histogram (mreg s))) (mreg s))"
| gauge: "task_at s i (Copied n m h) \<Longrightarrow> metrics_step rnd s (becomes s i (Gauged now n m h (inflight (mreg s))) (mreg s))"
| shown: "task_at s i (Gauged now n m h g) \<Longrightarrow>
    metrics_step rnd s (becomes s i
      (Shown (snapshot_of rnd (time_Sub now (started (mreg s))) n m h g (sumUS (mreg s)))) (mreg s))"

inductive_cases metrics_stepE: "metrics_step rnd s s'"

definition metrics_start :: "instant \<Rightarrow> metrics_run" where
  "metrics_start now = \<lparr>mreg = NewRegistry now, mtasks = []\<rparr>"

section \<open>The books are exact at every moment\<close>

text \<open>How many tasks are inside, have been counted, have been added up, and have been recorded under a status or in a bucket.\<close>

fun inside :: "metrics_task \<Rightarrow> int" where
  "inside Inside = 1" | "inside _ = 0"

fun counted :: "metrics_task \<Rightarrow> int" where
  "counted (Totalled _ _) = 1" | "counted (Summed _ _) = 1" | "counted (Recorded _ _) = 1" | "counted _ = 0"

fun spent :: "metrics_task \<Rightarrow> int" where
  "spent (Summed _ d) = Microseconds d" | "spent (Recorded _ d) = Microseconds d" | "spent _ = 0"

fun with_status :: "int \<Rightarrow> metrics_task \<Rightarrow> int" where
  "with_status st (Recorded s _) = (if s = st then 1 else 0)" | "with_status st _ = 0"

text \<open>The bucket of a latency by its bounds, without the search: the bounds are increasing, so there is one.\<close>

definition encloses :: "nat \<Rightarrow> int \<Rightarrow> bool" where
  "encloses b us \<longleftrightarrow> (b = 0 \<or> bucketBoundsUS ! (b - 1) < us) \<and> (b = 12 \<or> us \<le> bucketBoundsUS ! b)"

lemma encloses_bucket_index: "b < 13 \<Longrightarrow> encloses b us \<longleftrightarrow> bucket_index us = b"
proof -
  assume b: "b < 13"
  have len: "length bucketBoundsUS = 12" by (simp add: bucketBoundsUS_def)
  note spec = bucket_index_spec [of us]
  have "encloses (bucket_index us) us" using spec by (cases "bucket_index us") (auto simp: encloses_def)
  moreover have "\<not> encloses b us" if below: "bucket_index us < b"
  proof -
    have "bucketBoundsUS ! bucket_index us \<le> bucketBoundsUS ! (b - 1)"
    proof (cases "bucket_index us = b - 1")
      case False
      with below b show ?thesis
        using sorted_wrt_nth_less [OF bounds_sorted, of "bucket_index us" "b - 1"] len by linarith
    qed simp
    with below b spec show ?thesis by (auto simp: encloses_def)
  qed
  moreover have "\<not> encloses b us" if "b < bucket_index us"
    using that spec by (auto simp: encloses_def)
  ultimately show ?thesis by (metis linorder_neqE_nat)
qed

fun in_bucket :: "nat \<Rightarrow> metrics_task \<Rightarrow> int" where
  "in_bucket b (Recorded _ d) = (if encloses b (Microseconds d) then 1 else 0)" | "in_bucket b _ = 0"

definition how_many :: "(metrics_task \<Rightarrow> int) \<Rightarrow> metrics_run \<Rightarrow> int" where
  "how_many f s = (\<Sum>t \<leftarrow> mtasks s. f t)"

lemma how_many_becomes: "task_at s i t \<Longrightarrow> how_many f (becomes s i t' r) = how_many f s + f t' - f t"
  by (auto simp: how_many_def becomes_def task_at_def sum_list_exchange)

lemma how_many_spawn: "how_many f \<lparr>mreg = r, mtasks = mtasks s @ [t]\<rparr> = how_many f s + f t"
  by (simp add: how_many_def)

definition books_exact :: "metrics_run \<Rightarrow> bool" where
  "books_exact s \<longleftrightarrow>
     inflight (mreg s) = wrap64 (how_many inside s)
     \<and> total (mreg s) = of_int (how_many counted s)
     \<and> sumUS (mreg s) = wrap64 (how_many spent s)
     \<and> (\<forall>st. (case byStatus (mreg s) st of None \<Rightarrow> 0 | Some n \<Rightarrow> n) = of_int (how_many (with_status st) s))
     \<and> length (histogram (mreg s)) = 13
     \<and> (\<forall>b < 13. histogram (mreg s) ! b = of_int (how_many (in_bucket b) s))"

lemma wrap64_add: "wrap64 (wrap64 a + b) = wrap64 (a + b)"
proof -
  have "wrap64 a + b + 2 ^ 63 = (a + 2 ^ 63) mod 2 ^ 64 + b" by (simp add: wrap64_def)
  then show ?thesis unfolding wrap64_def by (simp only: mod_add_left_eq) (simp add: ac_simps)
qed

lemma wrap64_sub: "wrap64 (wrap64 a - b) = wrap64 (a - b)"
  using wrap64_add [of a "- b"] by simp

lemma books_start: "books_exact (metrics_start now)"
proof -
  have "length bucketBoundsUS = 12" by (simp add: bucketBoundsUS_def)
  then show ?thesis
    by (simp add: books_exact_def metrics_start_def how_many_def NewRegistry_def wrap64_def del: replicate.simps)
qed

lemma mreg_becomes [simp]: "mreg (becomes s i t r) = r"
  by (simp add: becomes_def)

lemmas metrics_ops = gauge_Add_def total_Add_def sumUS_Add_def tally_def

lemma books_step: "metrics_step rnd s s' \<Longrightarrow> books_exact s \<Longrightarrow> books_exact s'"
proof (induction rule: metrics_step.induct)
  case (records s i st d)
  have "bucket_index (Microseconds d) < 13" using bucket_index_spec [of "Microseconds d"] by simp
  with records show ?case
    by (auto simp: books_exact_def how_many_becomes [OF records(1)] tally_def nth_list_update encloses_bucket_index
        split: option.splits)
qed (auto simp: books_exact_def how_many_becomes how_many_spawn metrics_ops wrap64_add wrap64_sub)

lemma books_reachable:
  assumes "(metrics_step rnd)\<^sup>*\<^sup>* (metrics_start now) s"
  shows "books_exact s"
  using assms by (induction rule: rtranclp_induct) (auto simp: books_start books_step)


section \<open>A snapshot can be torn\<close>

lemma empty_percentile: "percentile id (1 / 2) (replicate 13 0) 1 = 1000000"
  by (simp add: percentile_def float_of_def bucketBoundsUS_def numeral_eq_Suc)

text \<open>
  A snapshot can be torn. A snapshot that loads the total while the only request ever served, which took
  five milliseconds, is between its own counters reports one request with no status at all, and a
  median of a whole second: the total and the tables are not read together, and a rank beyond the sum
  of the buckets falls through to the last bound.
\<close>

theorem torn_snapshot:
  "\<exists>s snap. (metrics_step id)\<^sup>*\<^sup>* (metrics_start 0) s
    \<and> mtasks s = [Recorded 200 (5 * Millisecond), Shown snap]
    \<and> sn_Total snap = 1 \<and> ByStatus snap = Map.empty \<and> P50MS snap = 1000"
proof -
  let ?d = "5 * Millisecond" and ?step = "metrics_step id"
  let ?s0 = "metrics_start 0"
  let ?s1 = "\<lparr>mreg = gauge_Add 1 (mreg ?s0), mtasks = mtasks ?s0 @ [Inside]\<rparr>"
  let ?s2 = "becomes ?s1 0 (Left 200 ?d) (gauge_Add (- 1) (mreg ?s1))"
  let ?s3 = "becomes ?s2 0 (Totalled 200 ?d) (total_Add (mreg ?s2))"
  let ?s4 = "\<lparr>mreg = mreg ?s3, mtasks = mtasks ?s3 @ [Loaded (total (mreg ?s3))]\<rparr>"
  let ?s5 = "becomes ?s4 1 (Copied (total (mreg ?s3)) (byStatus (mreg ?s4)) (histogram (mreg ?s4))) (mreg ?s4)"
  let ?s6 = "becomes ?s5 1 (Gauged 0 (total (mreg ?s3)) (byStatus (mreg ?s4)) (histogram (mreg ?s4)) (inflight (mreg ?s5))) (mreg ?s5)"
  let ?snap = "snapshot_of id (time_Sub 0 (started (mreg ?s6))) (total (mreg ?s3)) (byStatus (mreg ?s4))
      (histogram (mreg ?s4)) (inflight (mreg ?s5)) (sumUS (mreg ?s6))"
  let ?s7 = "becomes ?s6 1 (Shown ?snap) (mreg ?s6)"
  let ?s8 = "becomes ?s7 0 (Summed 200 ?d) (sumUS_Add (Microseconds ?d) (mreg ?s7))"
  let ?s9 = "becomes ?s8 0 (Recorded 200 ?d) (tally 200 (Microseconds ?d) (mreg ?s8))"
  note place = task_at_def becomes_def metrics_start_def
  have "?step ?s0 ?s1" by (rule metrics_step.enter)
  moreover have "?step ?s1 ?s2" by (rule metrics_step.leave) (simp add: place)
  moreover have "?step ?s2 ?s3" by (rule metrics_step.totals) (simp add: place)
  moreover have "?step ?s3 ?s4" by (rule metrics_step.ask)
  moreover have "?step ?s4 ?s5" by (rule metrics_step.copy) (simp add: place)
  moreover have "?step ?s5 ?s6" by (rule metrics_step.gauge) (simp add: place)
  moreover have "?step ?s6 ?s7" by (rule metrics_step.shown) (simp add: place)
  moreover have "?step ?s7 ?s8" by (rule metrics_step.sums) (simp add: place)
  moreover have "?step ?s8 ?s9" by (rule metrics_step.records) (simp add: place)
  ultimately have "?step\<^sup>*\<^sup>* ?s0 ?s9" by (meson rtranclp.rtrancl_into_rtrancl rtranclp.rtrancl_refl)
  moreover have "mtasks ?s9 = [Recorded 200 ?d, Shown ?snap]" by (simp add: place)
  moreover have "total (mreg ?s3) = 1" "byStatus (mreg ?s4) = Map.empty" "histogram (mreg ?s4) = replicate 13 0"
    by (simp_all add: place total_Add_def gauge_Add_def NewRegistry_def bucketBoundsUS_def numeral_eq_Suc)
  then have "sn_Total ?snap = 1" "ByStatus ?snap = Map.empty" "P50MS ?snap = 1000"
    using empty_percentile by (simp_all add: snapshot_of_def Let_def status_table_def fun_eq_iff split: prod.split)
  ultimately show ?thesis by blast
qed


end
