(* ===== verification/Proxy_Pool.thy ===== *)
theory Proxy_Pool
  imports Http_Middleware
begin

text \<open>
  \<open>proxy/proxy.go\<close>: the upstream pool with its selection strategies, the bounded pool of idle
  connections per upstream, the relay of one exchange, the failover loop of the handler, the health
  check and \<open>Stop\<close>.

  An upstream is reached through its index in the pool (its pointer in the source). The network is a
  script in the pool's state: whether the next dial succeeds, and for the next exchange whether the
  request can be written and what bytes come back before the response deadline (and how the stream
  ends after them). The log of what was sent on which connection and the set of closed connections
  are part of the state too, so that theorems can speak about them. Error texts (with the operating
  system's part in them) are a parameter; the errors themselves are a datatype.
\<close>

section \<open>State\<close>

datatype Strategy = RoundRobin | LeastConnections | OtherStrategy

record PoolConfig =
  px_Strategy :: Strategy
  DialTimeout :: duration
  ResponseTimeout :: duration
  HealthInterval :: duration
  MaxAttempts :: int
  px_MaxBodyBytes :: int
  PoolSize :: int

definition DefaultPoolConfig :: PoolConfig where
  "DefaultPoolConfig =
     \<lparr>px_Strategy = RoundRobin, DialTimeout = 2 * Second, ResponseTimeout = 10 * Second,
      HealthInterval = 2 * Second, MaxAttempts = 3, px_MaxBodyBytes = 8 * 2 ^ 20, PoolSize = 32\<rparr>"

definition pool_withDefaults :: "PoolConfig \<Rightarrow> PoolConfig" where
  "pool_withDefaults c =
     (let c = (if DialTimeout c = 0 then c\<lparr>DialTimeout := 2 * Second\<rparr> else c);
          c = (if ResponseTimeout c = 0 then c\<lparr>ResponseTimeout := 10 * Second\<rparr> else c);
          c = (if HealthInterval c = 0 then c\<lparr>HealthInterval := 2 * Second\<rparr> else c);
          c = (if MaxAttempts c = 0 then c\<lparr>MaxAttempts := 3\<rparr> else c);
          c = (if px_MaxBodyBytes c = 0 then c\<lparr>px_MaxBodyBytes := 8 * 2 ^ 20\<rparr> else c)
      in if PoolSize c = 0 then c\<lparr>PoolSize := 32\<rparr> else c)"

text \<open>A connection: the number of the dial that opened it, and the upstream it leads to.\<close>

type_synonym net_conn = "nat \<times> nat"

record Upstream =
  Addr :: bytes
  healthy :: bool
  active :: int
  idle :: "net_conn list" \<comment> \<open>the buffered channel, next to be received first\<close>

record reply =
  rp_write_ok :: bool
  rp_data :: bytes
  rp_end :: go_error

record Pool =
  px_cfg :: PoolConfig
  ups :: "Upstream list"
  next_pick :: "64 word"
  net_dial :: "nat \<Rightarrow> bytes \<Rightarrow> bool" \<comment> \<open>does this dial of this address succeed\<close>
  net_reply :: "nat \<Rightarrow> reply"
  dials :: nat
  exchanges :: nat
  opened :: "net_conn list"
  closed_conns :: "net_conn list"
  sent :: "(net_conn \<times> bytes) list"

text \<open>\<open>make(chan net.Conn, n)\<close> panics on a negative size, and on one beyond the address space.\<close>

definition make_chan_panics :: "int \<Rightarrow> bool" where
  "make_chan_panics n \<longleftrightarrow> n < 0 \<or> 16 * n > maxAlloc - 96"

definition NewPool :: "PoolConfig \<Rightarrow> bytes list \<Rightarrow> (nat \<Rightarrow> bytes \<Rightarrow> bool) \<Rightarrow> (nat \<Rightarrow> reply) \<Rightarrow> Pool option" where
  "NewPool cfg addrs dial rep =
     (let cfg = pool_withDefaults cfg
      in if addrs \<noteq> [] \<and> make_chan_panics (PoolSize cfg) then None
         else Some
           \<lparr>px_cfg = cfg,
            ups = map (\<lambda>a. \<lparr>Addr = a, healthy = True, active = 0, idle = []\<rparr>) addrs,
            next_pick = 0, net_dial = dial, net_reply = rep, dials = 0, exchanges = 0, opened = [],
            closed_conns = [], sent = []\<rparr>)"

definition upd_up :: "nat \<Rightarrow> (Upstream \<Rightarrow> Upstream) \<Rightarrow> Pool \<Rightarrow> Pool" where
  "upd_up u f p = p\<lparr>ups := (ups p)[u := f (ups p ! u)]\<rparr>"

section \<open>Connections\<close>

definition close_net :: "net_conn \<Rightarrow> Pool \<Rightarrow> Pool" where
  "close_net c p = p\<lparr>closed_conns := closed_conns p @ [c]\<rparr>"

text \<open>\<open>net.DialTimeout\<close> on the address of an upstream; a new connection is numbered by its dial.\<close>

definition dial :: "Pool \<Rightarrow> nat \<Rightarrow> net_conn option \<times> Pool" where
  "dial p u =
     (if net_dial p (dials p) (Addr (ups p ! u))
      then (Some (dials p, u), p\<lparr>dials := Suc (dials p), opened := opened p @ [(dials p, u)]\<rparr>)
      else (None, p\<lparr>dials := Suc (dials p)\<rparr>))"

definition getConn :: "Pool \<Rightarrow> nat \<Rightarrow> (net_conn \<times> bool) option \<times> Pool" where
  "getConn p u =
     (case idle (ups p ! u) of
        c # cs \<Rightarrow> (Some (c, True), upd_up u (\<lambda>x. x\<lparr>idle := cs\<rparr>) p)
      | [] \<Rightarrow> (case dial p u of (Some c, p) \<Rightarrow> (Some (c, False), p) | (None, p) \<Rightarrow> (None, p)))"

definition putConn :: "Pool \<Rightarrow> nat \<Rightarrow> net_conn \<Rightarrow> Pool" where
  "putConn p u c =
     (if int (length (idle (ups p ! u))) < PoolSize (px_cfg p)
      then upd_up u (\<lambda>x. x\<lparr>idle := idle x @ [c]\<rparr>) p
      else close_net c p)"

definition pool_Stop :: "Pool \<Rightarrow> Pool" where
  "pool_Stop p =
     p\<lparr>closed_conns := closed_conns p @ concat (map idle (ups p)),
       ups := map (\<lambda>u. u\<lparr>idle := []\<rparr>) (ups p)\<rparr>"

text \<open>One round of the health loop: dial every upstream in turn, and close again what was opened.\<close>

fun health_check :: "nat list \<Rightarrow> Pool \<Rightarrow> Pool" where
  "health_check [] p = p"
| "health_check (u # us) p =
     (case dial p u of
        (None, p) \<Rightarrow> health_check us (upd_up u (\<lambda>x. x\<lparr>healthy := False\<rparr>) p)
      | (Some c, p) \<Rightarrow> health_check us (upd_up u (\<lambda>x. x\<lparr>healthy := True\<rparr>) (close_net c p)))"

definition check_all :: "Pool \<Rightarrow> Pool" where
  "check_all p = health_check [0..<length (ups p)] p"

section \<open>Selection\<close>

definition healthy_ups :: "Pool \<Rightarrow> nat list" where
  "healthy_ups p = filter (\<lambda>u. healthy (ups p ! u)) [0..<length (ups p)]"

definition least_active :: "Pool \<Rightarrow> nat \<Rightarrow> nat list \<Rightarrow> nat" where
  "least_active p u us =
     foldl (\<lambda>l u. if active (ups p ! u) < active (ups p ! l) then u else l) u us"

text \<open>Go's remainder has the sign of the dividend; a negative index panics.\<close>

definition rotation :: "int \<Rightarrow> nat list \<Rightarrow> nat list option" where
  "rotation start hs =
     (let n = int (length hs);
          ix = (\<lambda>i. (start + int i) - go_div (start + int i) n * n)
      in if list_ex (\<lambda>i. ix i < 0) [0..<length hs] then None
         else Some (map (\<lambda>i. hs ! nat (ix i)) [0..<length hs]))"

text \<open>
  The preference order; the empty list is the source's nil. \<open>int(p.next.Add(1)-1)\<close> reads the 64-bit
  counter as a signed number.
\<close>

definition pick :: "Pool \<Rightarrow> nat list option \<times> Pool" where
  "pick p =
     (case healthy_ups p of
        [] \<Rightarrow> (Some [], p)
      | h # hs \<Rightarrow>
          if px_Strategy (px_cfg p) = LeastConnections
          then (let l = least_active p h hs in (Some (l # filter (\<lambda>u. u \<noteq> l) (h # hs)), p))
          else
            let n = int (length (h # hs));
                v = sint (next_pick p);
                start = v - go_div v n * n
            in (rotation start (h # hs), p\<lparr>next_pick := next_pick p + 1\<rparr>))"

section \<open>One exchange\<close>

datatype relay_error =
    DialFailed
  | StaleDialFailed
  | WriteFailed
  | ReadStatusFailed go_error
  | BadStatusLine
  | BadStatusCode
  | ReadHeadersFailed go_error
  | RelayBodyTooLarge
  | ReadBodyFailed go_error

definition remote_host :: "Request \<Rightarrow> bytes" where
  "remote_host req = (case SplitHostPort (RemoteAddr req) of None \<Rightarrow> [] | Some h \<Rightarrow> h)"

definition hop_by_hop :: "bytes \<Rightarrow> bool" where
  "hop_by_hop k \<longleftrightarrow> ToLower_is k ''connection'' \<or> ToLower_is k ''keep-alive''
     \<or> ToLower_is k ''transfer-encoding'' \<or> ToLower_is k ''content-length''"

definition relay_header :: "Request \<Rightarrow> bytes \<times> bytes \<Rightarrow> bytes" where
  "relay_header req kv =
     (case kv of (k, v) \<Rightarrow>
        if hop_by_hop k then []
        else if ToLower_is k ''x-forwarded-for'' then header_line k (v @ '', '' @ remote_host req)
        else header_line k v)"

definition wroteXFF :: "Request \<Rightarrow> bool" where
  "wroteXFF req \<longleftrightarrow> list_ex (\<lambda>(k, v). \<not> hop_by_hop k \<and> ToLower_is k ''x-forwarded-for'') (Headers_Range (ReqHeaders req))"

definition relay_request :: "Request \<Rightarrow> bytes" where
  "relay_request req =
     Method req @ '' '' @ RawTarget req @ '' HTTP/1.1'' @ CRLF
     @ concat (map (relay_header req) (Headers_Range (ReqHeaders req)))
     @ (if wroteXFF req then [] else header_line ''X-Forwarded-For'' (remote_host req))
     @ header_line ''Content-Length'' (Itoa (int (length (ReqBody req))))
     @ ''Connection: keep-alive'' @ CRLF @ CRLF
     @ ReqBody req"

text \<open>The status line of the response: its code.\<close>

definition relay_status :: "Reader \<Rightarrow> relay_error + int \<times> Reader" where
  "relay_status br =
     (case ReadString br of
        Inl e \<Rightarrow> Inl (ReadStatusFailed e)
      | Inr (line, br) \<Rightarrow>
          (case SplitN 3 (CHR '' '') (TrimRight line CRLF) of
             p0 # p1 # _ \<Rightarrow>
               if \<not> HasPrefix p0 ''HTTP/1.'' then Inl BadStatusLine
               else (case Atoi p1 of (s, err) \<Rightarrow> if err \<noteq> None then Inl BadStatusCode else Inr (s, br))
           | _ \<Rightarrow> Inl BadStatusLine))"

definition dropped_header :: "bytes \<Rightarrow> bool" where
  "dropped_header k \<longleftrightarrow> ToLower_is k ''connection'' \<or> ToLower_is k ''keep-alive''
     \<or> ToLower_is k ''transfer-encoding'' \<or> ToLower_is k ''date'' \<or> ToLower_is k ''server''"

lemma ReadString_shrinks: "ReadString r = Inr (l, r') \<Longrightarrow> length (rd_data r') < length (rd_data r)"
  by (cases "rd_data r") (auto simp: ReadString_def Let_def split: if_splits)

function relay_headers :: "Reader \<Rightarrow> int \<Rightarrow> (bytes \<times> bytes) list
    \<Rightarrow> relay_error + int \<times> (bytes \<times> bytes) list \<times> Reader" where
  "relay_headers br cl acc =
     (case ReadString br of
        Inl e \<Rightarrow> Inl (ReadHeadersFailed e)
      | Inr (line, br') \<Rightarrow>
          let line = TrimRight line CRLF
          in if line = [] then Inr (cl, acc, br')
             else (case Cut (CHR '':'') line of
                 (name, value, ok) \<Rightarrow>
                   if \<not> ok then relay_headers br' cl acc
                   else if ToLower_is name ''content-length''
                     then relay_headers br' (fst (ParseInt 10 (TrimSpace value))) acc
                   else if dropped_header name then relay_headers br' cl acc
                   else relay_headers br' cl (acc @ [(name, TrimSpace value)])))"
  by pat_completeness auto
termination
  by (relation "measure (\<lambda>(br, cl, acc). length (rd_data br))") (auto dest: ReadString_shrinks)

declare relay_headers.simps [simp del]

text \<open>\<open>io.ReadAll(io.LimitReader(br, n))\<close>\<close>

definition ReadAll_limited :: "Reader \<Rightarrow> int \<Rightarrow> go_error + bytes" where
  "ReadAll_limited br n =
     (if n \<le> int (length (rd_data br)) then Inr (take (nat n) (rd_data br))
      else if rd_err br = EOF then Inr (rd_data br)
      else Inl (rd_err br))"

datatype relay_outcome = RelayOk bool | RelayErr relay_error | RelayPanic

text \<open>The body, and whether the connection may be kept.\<close>

definition relay_body :: "PoolConfig \<Rightarrow> Reader \<Rightarrow> int \<Rightarrow> relay_outcome \<times> bytes" where
  "relay_body cfg br cl =
     (if cl \<ge> 0 then
        if cl > px_MaxBodyBytes cfg then (RelayErr RelayBodyTooLarge, [])
        else if make_panics cl then (RelayPanic, [])
        else (case ReadFull br (nat cl) of
                Inl e \<Rightarrow> (RelayErr (ReadBodyFailed e), [])
              | Inr (b, _) \<Rightarrow> (RelayOk True, b))
      else (case ReadAll_limited br (wrap64 (px_MaxBodyBytes cfg + 1)) of
              Inl e \<Rightarrow> (RelayErr (ReadBodyFailed e), [])
            | Inr b \<Rightarrow> if int (length b) > px_MaxBodyBytes cfg then (RelayErr RelayBodyTooLarge, [])
                       else (RelayOk False, b)))"

definition relay_response :: "PoolConfig \<Rightarrow> Reader \<Rightarrow> ResponseWriter \<Rightarrow> relay_outcome \<times> ResponseWriter" where
  "relay_response cfg br w =
     (case relay_status br of
        Inl e \<Rightarrow> (RelayErr e, w)
      | Inr (s, br) \<Rightarrow>
          (case relay_headers br (- 1) [] of
             Inl e \<Rightarrow> (RelayErr e, w)
           | Inr (cl, hs, br) \<Rightarrow>
               (case relay_body cfg br cl of
                  (RelayOk keep, body) \<Rightarrow>
                    (RelayOk keep,
                     w_SetBody (foldl (\<lambda>w (k, v). w_SetHeader w k v) (w_WriteHeader w s) hs) body)
                | (r, _) \<Rightarrow> (r, w))))"

definition relayConn :: "Pool \<Rightarrow> net_conn \<Rightarrow> nat \<Rightarrow> Request \<Rightarrow> ResponseWriter
    \<Rightarrow> relay_outcome \<times> ResponseWriter \<times> Pool" where
  "relayConn p c u req w =
     (let rp = net_reply p (exchanges p);
          p = p\<lparr>exchanges := Suc (exchanges p), sent := sent p @ [(c, relay_request req)]\<rparr>
      in if \<not> rp_write_ok rp then (RelayErr WriteFailed, w, close_net c p)
         else
           let br = \<lparr>rd_data = rp_data rp, rd_err = rp_end rp, rd_size = 4096\<rparr>
           in (case relay_response (px_cfg p) br w of
                 (RelayOk True, w) \<Rightarrow> (RelayOk True, w, putConn p u c)
               | (r, w) \<Rightarrow> (r, w, close_net c p)))"

definition relay :: "Pool \<Rightarrow> nat \<Rightarrow> Request \<Rightarrow> ResponseWriter \<Rightarrow> relay_outcome \<times> ResponseWriter \<times> Pool" where
  "relay p u req w =
     (case getConn p u of
        (None, p) \<Rightarrow> (RelayErr DialFailed, w, p)
      | (Some (c, reused), p) \<Rightarrow>
          (case relayConn p c u req w of
             (RelayErr e, w, p) \<Rightarrow>
               if reused then
                 (case dial p u of
                    (None, p) \<Rightarrow> (RelayErr StaleDialFailed, w, p)
                  | (Some c, p) \<Rightarrow> relayConn p c u req w)
               else (RelayErr e, w, p)
           | r \<Rightarrow> r))"

section \<open>The handler\<close>

datatype attempts_end = Answered | AllFailed "relay_error option" | AttemptPanicked

text \<open>The attempts in order, with the load counter around each and the passive health mark after a failure.\<close>

fun try_upstreams :: "Pool \<Rightarrow> nat list \<Rightarrow> relay_error option \<Rightarrow> Request \<Rightarrow> ResponseWriter
    \<Rightarrow> attempts_end \<times> ResponseWriter \<times> Pool" where
  "try_upstreams p [] lastErr req w = (AllFailed lastErr, w, p)"
| "try_upstreams p (u # us) lastErr req w =
     (let p = upd_up u (\<lambda>x. x\<lparr>active := active x + 1\<rparr>) p
      in (case relay p u req w of
            (RelayPanic, w, p) \<Rightarrow> (AttemptPanicked, w, p)
          | (RelayOk _, w, p) \<Rightarrow>
              let p = upd_up u (\<lambda>x. x\<lparr>active := active x - 1\<rparr>) p
              in (Answered, w_SetHeader w ''X-Upstream'' (Addr (ups p ! u)), p)
          | (RelayErr e, w, p) \<Rightarrow>
              let p = upd_up u (\<lambda>x. x\<lparr>active := active x - 1\<rparr>) p;
                  p = upd_up u (\<lambda>x. x\<lparr>healthy := False\<rparr>) p
              in try_upstreams p us (Some e) req w))"

definition proxy_exchange :: "(int \<Rightarrow> relay_error option \<Rightarrow> bytes) \<Rightarrow> Pool \<Rightarrow> Request \<Rightarrow> ResponseWriter
    \<Rightarrow> outcome \<times> ResponseWriter \<times> Pool" where
  "proxy_exchange failure_text p req w =
     (case pick p of
        (None, p) \<Rightarrow> (Panicked, w, p)
      | (Some [], p) \<Rightarrow>
          (Returned, w_Error (w_SetHeader w ''Retry-After'' ''2'') StatusServiceUnavailable ''no healthy upstreams'', p)
      | (Some candidates, p) \<Rightarrow>
          let attempts = min (MaxAttempts (px_cfg p)) (int (length candidates))
          in (case try_upstreams p (take (nat attempts) candidates) None req w of
                (Answered, w, p) \<Rightarrow> (Returned, w, p)
              | (AttemptPanicked, w, p) \<Rightarrow> (Panicked, w, p)
              | (AllFailed e, w, p) \<Rightarrow>
                  (Returned, w_Error w StatusBadGateway (failure_text attempts e), p)))"

definition Proxy_Handler :: "(int \<Rightarrow> relay_error option \<Rightarrow> bytes) \<Rightarrow> ('m, 'r, 'c, Pool) world handler" where
  "Proxy_Handler failure_text req w g =
     (case proxy_exchange failure_text (pool g) req w of
        (ou, w, p) \<Rightarrow> (ou, req, w, g\<lparr>pool := p\<rparr>))"

lemmas pool_defs [go_eval] =
  DefaultPoolConfig_def pool_withDefaults_def make_chan_panics_def NewPool_def upd_up_def close_net_def dial_def
  getConn_def putConn_def pool_Stop_def check_all_def healthy_ups_def least_active_def rotation_def
  pick_def remote_host_def hop_by_hop_def relay_header_def wroteXFF_def relay_request_def
  relay_status_def dropped_header_def ReadAll_limited_def relay_body_def relay_response_def
  relayConn_def relay_def proxy_exchange_def Proxy_Handler_def

section \<open>Selection is a rotation or a least-loaded permutation\<close>

lemma go_rem_nonneg: "0 \<le> v \<Longrightarrow> 0 < n \<Longrightarrow> v - go_div v n * n = v mod n"
  by (cases "v = 0") (simp_all add: go_div_def minus_div_mult_eq_mod)

lemma go_rem_less: "0 < n \<Longrightarrow> v - go_div v n * n < n"
proof (cases "0 \<le> v")
  case False
  assume "0 < n"
  then have "go_div v n = - ((- v) div n)" using False by (simp add: go_div_def)
  moreover have "0 \<le> (- v) mod n" using \<open>0 < n\<close> by simp
  ultimately show ?thesis using \<open>0 < n\<close> div_mult_mod_eq [of "- v" n] by (simp only: mult_minus_left)
qed (simp add: go_rem_nonneg)

lemma rotation_nonneg:
  assumes "0 \<le> start" "hs \<noteq> []"
  shows "rotation start hs = Some (rotate (nat start) hs)"
proof -
  let ?n = "int (length hs)"
  have n: "0 < ?n" using assms(2) by simp
  have ix: "(start + int i) - go_div (start + int i) ?n * ?n = (start + int i) mod ?n" for i
    using go_rem_nonneg [of "start + int i" ?n] assms(1) n by simp
  have "map (\<lambda>i. hs ! nat ((start + int i) mod ?n)) [0..<length hs] = rotate (nat start) hs"
  proof (rule nth_equalityI)
    fix i assume "i < length (map (\<lambda>i. hs ! nat ((start + int i) mod ?n)) [0..<length hs])"
    then have i: "i < length hs" by simp
    have "nat ((start + int i) mod ?n) = (nat start + i) mod length hs"
      using assms(1) by (simp add: nat_mod_distrib nat_add_distrib)
    with i show "map (\<lambda>i. hs ! nat ((start + int i) mod ?n)) [0..<length hs] ! i = rotate (nat start) hs ! i"
      by (simp add: nth_rotate)
  qed simp
  moreover have "\<not> list_ex (\<lambda>i. (start + int i) mod ?n < 0) [0..<length hs]"
    using n by (simp add: list_ex_iff not_less)
  ultimately show ?thesis unfolding rotation_def Let_def ix by simp
qed

lemma healthy_ups_props:
  "distinct (healthy_ups p)" "set (healthy_ups p) = {u. u < length (ups p) \<and> healthy (ups p ! u)}"
  by (auto simp: healthy_ups_def)

lemma least_active_props:
  "least_active p u us \<in> set (u # us) \<and> (\<forall>x \<in> set (u # us). active (ups p ! least_active p u us) \<le> active (ups p ! x))"
proof (induction us rule: rev_induct)
  case (snoc x xs)
  then show ?case by (fastforce simp: least_active_def)
qed (simp add: least_active_def)

definition least_first :: "Pool \<Rightarrow> nat list \<Rightarrow> bool" where
  "least_first p cs \<longleftrightarrow> (\<forall>u \<in> set cs. active (ups p ! hd cs) \<le> active (ups p ! u))"

lemma pick_props:
  assumes "0 \<le> sint (next_pick p)" "healthy_ups p \<noteq> []"
  obtains cs p' where "pick p = (Some cs, p')" "cs \<noteq> []" "distinct cs" "set cs = set (healthy_ups p)"
    "px_Strategy (px_cfg p) = LeastConnections \<longrightarrow> least_first p cs \<and> p' = p"
    "px_Strategy (px_cfg p) \<noteq> LeastConnections \<longrightarrow>
       cs = rotate (nat (sint (next_pick p) mod int (length (healthy_ups p)))) (healthy_ups p)
       \<and> p' = p\<lparr>next_pick := next_pick p + 1\<rparr>"
proof -
  obtain h hs where hs: "healthy_ups p = h # hs" using assms(2) by (cases "healthy_ups p") auto
  have d: "distinct (h # hs)" using healthy_ups_props(1) [of p] hs by simp
  show thesis
  proof (cases "px_Strategy (px_cfg p) = LeastConnections")
    case True
    let ?l = "least_active p h hs"
    note la = least_active_props [of p h hs]
    show thesis
      by (rule that [of "?l # filter (\<lambda>u. u \<noteq> ?l) (h # hs)" p])
         (use True hs d la in \<open>auto simp: pick_def Let_def least_first_def\<close>)
  next
    case False
    let ?n = "int (length (h # hs))"
    have "rotation (sint (next_pick p) mod ?n) (h # hs) = Some (rotate (nat (sint (next_pick p) mod ?n)) (h # hs))"
      by (rule rotation_nonneg) simp_all
    then show thesis
      using False hs d go_rem_nonneg [OF assms(1), of ?n]
      by (intro that [of "rotate (nat (sint (next_pick p) mod ?n)) (h # hs)"
            "p\<lparr>next_pick := next_pick p + 1\<rparr>"]) (simp_all add: pick_def Let_def)
  qed
qed

text \<open>
  Selection considers every healthy upstream exactly once and no other: under round-robin the list
  of healthy upstreams rotated by the running counter (so with an unchanged list of \<open>n\<close>, each is first
  once in every \<open>n\<close> picks), under least-connections one with the fewest requests in flight first.
\<close>

theorem pick_sound:
  assumes "0 \<le> sint (next_pick p)"
  shows "\<exists>cs p'. pick p = (Some cs, p') \<and> distinct cs
    \<and> set cs = {u. u < length (ups p) \<and> healthy (ups p ! u)}
    \<and> (if px_Strategy (px_cfg p) = LeastConnections then least_first p cs \<and> p' = p
       else cs = rotate (nat (sint (next_pick p) mod int (length (healthy_ups p)))) (healthy_ups p)
            \<and> (healthy_ups p \<noteq> [] \<longrightarrow> next_pick p' = next_pick p + 1))"
proof (cases "healthy_ups p = []")
  case True
  then have "pick p = (Some [], p)" by (simp add: pick_def)
  then show ?thesis using True healthy_ups_props [of p] by (auto simp: least_first_def)
next
  case False
  show ?thesis
  proof (rule pick_props [OF assms False])
    fix cs p'
    assume "pick p = (Some cs, p')" "cs \<noteq> []" "distinct cs" "set cs = set (healthy_ups p)"
      "px_Strategy (px_cfg p) = LeastConnections \<longrightarrow> least_first p cs \<and> p' = p"
      "px_Strategy (px_cfg p) \<noteq> LeastConnections \<longrightarrow>
         cs = rotate (nat (sint (next_pick p) mod int (length (healthy_ups p)))) (healthy_ups p)
         \<and> p' = p\<lparr>next_pick := next_pick p + 1\<rparr>"
    with healthy_ups_props(2) [of p] show ?thesis
      by (intro exI [of _ cs] exI [of _ p'] conjI) simp_all
  qed
qed

definition sample_pool :: "Strategy \<Rightarrow> (nat \<Rightarrow> reply) \<Rightarrow> Pool" where
  "sample_pool s rep =
     the (NewPool (DefaultPoolConfig\<lparr>px_Strategy := s\<rparr>) [''a:1'', ''b:2'', ''c:3''] (\<lambda>_ _. True) rep)"

lemma sample_pool_sel [simp]:
  "ups (sample_pool s rep) = map (\<lambda>a. \<lparr>Addr = a, healthy = True, active = 0, idle = []\<rparr>) [''a:1'', ''b:2'', ''c:3'']"
  "px_Strategy (px_cfg (sample_pool s rep)) = s" "px_MaxBodyBytes (px_cfg (sample_pool s rep)) = 8 * 2 ^ 20"
  "MaxAttempts (px_cfg (sample_pool s rep)) = 3" "PoolSize (px_cfg (sample_pool s rep)) = 32"
  "next_pick (sample_pool s rep) = 0" "net_reply (sample_pool s rep) = rep"
  "net_dial (sample_pool s rep) = (\<lambda>_ _. True)" "dials (sample_pool s rep) = 0"
  "exchanges (sample_pool s rep) = 0" "opened (sample_pool s rep) = []"
  "closed_conns (sample_pool s rep) = []" "sent (sample_pool s rep) = []"
  by (simp_all add: sample_pool_def NewPool_def make_chan_panics_def maxAlloc_def
      pool_withDefaults_def DefaultPoolConfig_def Let_def)

definition silent :: "nat \<Rightarrow> reply" where
  "silent n = \<lparr>rp_write_ok = True, rp_data = [], rp_end = NetTimeout\<rparr>"

lemma pick_sound_witness:
  "\<exists>cs p'. pick ((sample_pool RoundRobin silent)\<lparr>next_pick := 5\<rparr>) = (Some cs, p')
    \<and> cs = [2, 0, 1]"
proof -
  let ?p = "(sample_pool RoundRobin silent)\<lparr>next_pick := 5\<rparr>"
  have h: "healthy_ups ?p = [0, 1, 2]"
    by (simp add: healthy_ups_def numeral_3_eq_3)
  have v: "sint (next_pick ?p) = 5" by simp
  have r: "rotate (nat (5 mod int (length [0, 1, 2 :: nat]))) [0, 1, 2 :: nat] = [2, 0, 1]"
    by (simp add: numeral_2_eq_2)
  have s: "(px_Strategy (px_cfg ?p) = LeastConnections) = False"
    by simp
  show ?thesis
    using pick_sound [of ?p] unfolding h v r s by auto
qed

end
