(* ===== verification/Proxy_Conns.thy ===== *)
theory Proxy_Conns
  imports Proxy_Pool "HOL-Library.Multiset"
begin

text \<open>
  The resources of the upstream pool: no operation of \<open>proxy/proxy.go\<close> loses or duplicates a
  connection, a parked connection leads to the upstream it is parked at, the parking lots stay within
  \<open>PoolSize\<close>, and the load counters return to what they were. The invariant carries the multiset of
  connections that the running code holds in its variables.
\<close>

section \<open>The invariant\<close>

lemma mset_concat_update:
  "u < length xs \<Longrightarrow>
     mset (concat (map f (xs[u := x]))) + mset (f (xs ! u)) = mset (concat (map f xs)) + mset (f x)"
proof (induction xs arbitrary: u)
  case (Cons y ys)
  then show ?case by (cases u) (auto simp: ac_simps)
qed simp

definition parked :: "Pool \<Rightarrow> net_conn multiset" where
  "parked p = mset (concat (map idle (ups p)))"

definition lots_ok :: "Pool \<Rightarrow> bool" where
  "lots_ok p \<longleftrightarrow> (\<forall>u < length (ups p). int (length (idle (ups p ! u))) \<le> max 0 (PoolSize (px_cfg p))
      \<and> (\<forall>c \<in> set (idle (ups p ! u)). snd c = u))"

definition conserved :: "Pool \<Rightarrow> net_conn multiset \<Rightarrow> bool" where
  "conserved p inhand \<longleftrightarrow>
     mset (opened p) = mset (closed_conns p) + parked p + inhand
     \<and> distinct (opened p) \<and> (\<forall>c \<in> set (opened p). fst c < dials p)"

definition pool_inv :: "Pool \<Rightarrow> net_conn multiset \<Rightarrow> bool" where
  "pool_inv p inhand \<longleftrightarrow> conserved p inhand \<and> lots_ok p"

text \<open>What no operation touches: the configuration, the addresses, the scripts.\<close>

definition same_shape :: "Pool \<Rightarrow> Pool \<Rightarrow> bool" where
  "same_shape p q \<longleftrightarrow> px_cfg q = px_cfg p \<and> map Addr (ups q) = map Addr (ups p)
     \<and> net_dial q = net_dial p \<and> net_reply q = net_reply p"

lemma same_shape_refl [simp]: "same_shape p p"
  by (simp add: same_shape_def)

lemma same_shape_trans [trans]: "same_shape p q \<Longrightarrow> same_shape q r \<Longrightarrow> same_shape p r"
  by (simp add: same_shape_def)

lemma same_shape_length: "same_shape p q \<Longrightarrow> length (ups q) = length (ups p)"
  unfolding same_shape_def by (metis length_map)

section \<open>Each operation keeps it\<close>

lemma map_update_same: "f (x) = f (xs ! u) \<Longrightarrow> map f (xs[u := x]) = map f xs"
  by (metis list_update_id map_update)

lemma upd_up_shape: "(\<And>x. Addr (f x) = Addr x) \<Longrightarrow> same_shape p (upd_up u f p)"
  by (simp add: same_shape_def upd_up_def map_update_same)

lemma upd_up_inv:
  assumes "\<And>x. idle (f x) = idle x"
  shows "pool_inv (upd_up u f p) X \<longleftrightarrow> pool_inv p X"
proof -
  have "map idle ((ups p)[u := f (ups p ! u)]) = map idle (ups p)"
    by (rule map_update_same) (rule assms)
  moreover have "idle ((ups p)[u := f (ups p ! u)] ! v) = idle (ups p ! v)" for v
    using assms by (cases "u = v"; cases "u < length (ups p)") (auto simp: list_update_beyond)
  ultimately show ?thesis
    by (simp add: pool_inv_def conserved_def lots_ok_def parked_def upd_up_def)
qed

lemma close_net_inv: "pool_inv p (add_mset c X) \<Longrightarrow> pool_inv (close_net c p) X \<and> same_shape p (close_net c p)"
  by (simp add: pool_inv_def conserved_def lots_ok_def parked_def close_net_def same_shape_def)

lemma dial_inv:
  assumes "pool_inv p X" "dial p u = (r, q)"
  shows "(case r of None \<Rightarrow> pool_inv q X | Some c \<Rightarrow> pool_inv q (add_mset c X) \<and> snd c = u)
    \<and> same_shape p q"
proof -
  have new: "(dials p, u) \<notin> set (opened p)"
    using assms(1) by (force simp: pool_inv_def conserved_def)
  have old: "\<forall>c \<in> set (opened p). fst c < Suc (dials p)"
    using assms(1) by (auto simp: pool_inv_def conserved_def intro: less_SucI)
  show ?thesis
  proof (cases "net_dial p (dials p) (Addr (ups p ! u))")
    case True
    then have "r = Some (dials p, u)" "q = p\<lparr>dials := Suc (dials p), opened := opened p @ [(dials p, u)]\<rparr>"
      using assms(2) by (simp_all add: dial_def)
    then show ?thesis
      using assms(1) new old by (simp add: pool_inv_def conserved_def lots_ok_def parked_def same_shape_def)
  next
    case False
    then have "r = None" "q = p\<lparr>dials := Suc (dials p)\<rparr>"
      using assms(2) by (simp_all add: dial_def)
    then show ?thesis
      using assms(1) old by (simp add: pool_inv_def conserved_def lots_ok_def parked_def same_shape_def)
  qed
qed

lemma getConn_inv:
  assumes "pool_inv p X" "u < length (ups p)" "getConn p u = (r, q)"
  shows "(case r of None \<Rightarrow> pool_inv q X | Some (c, _) \<Rightarrow> pool_inv q (add_mset c X) \<and> snd c = u)
    \<and> same_shape p q"
proof (cases "idle (ups p ! u)")
  case Nil
  then show ?thesis
    using assms dial_inv [OF assms(1), of u "fst (dial p u)" "snd (dial p u)"]
    by (auto simp: getConn_def split: prod.splits option.splits)
next
  case (Cons c cs)
  let ?x = "(ups p ! u)\<lparr>idle := cs\<rparr>"
  have q: "r = Some (c, True)" "q = p\<lparr>ups := (ups p)[u := ?x]\<rparr>"
    using assms(3) Cons by (simp_all add: getConn_def upd_up_def)
  have "parked p = parked q + {#c#}"
    using mset_concat_update [OF assms(2), of idle ?x] Cons by (simp add: q parked_def)
  then show ?thesis
    using assms(1,2) Cons
    by (auto simp: q pool_inv_def conserved_def lots_ok_def same_shape_def map_update_same nth_list_update)
qed

lemma putConn_inv:
  assumes "pool_inv p (add_mset c X)" "u < length (ups p)" "snd c = u"
  shows "pool_inv (putConn p u c) X \<and> same_shape p (putConn p u c)"
proof (cases "int (length (idle (ups p ! u))) < PoolSize (px_cfg p)")
  case True
  let ?x = "(ups p ! u)\<lparr>idle := idle (ups p ! u) @ [c]\<rparr>"
  have q: "putConn p u c = p\<lparr>ups := (ups p)[u := ?x]\<rparr>"
    using True by (simp add: putConn_def upd_up_def)
  have "parked (putConn p u c) = parked p + {#c#}"
    using mset_concat_update [OF assms(2), of idle ?x] by (simp add: q parked_def)
  then show ?thesis
    using assms True
    by (auto simp: q pool_inv_def conserved_def lots_ok_def same_shape_def map_update_same nth_list_update)
next
  case False
  then show ?thesis using close_net_inv [OF assms(1)] by (simp add: putConn_def)
qed

lemma exchange_inv:
  "pool_inv (p\<lparr>exchanges := n, sent := s\<rparr>) X \<longleftrightarrow> pool_inv p X"
  "same_shape p (p\<lparr>exchanges := n, sent := s\<rparr>)"
  by (simp_all add: pool_inv_def conserved_def lots_ok_def parked_def same_shape_def)

text \<open>The three ends of \<open>relayConn\<close>: the deferred closure parks the connection or closes it.\<close>

lemma relayConn_cases:
  obtains (wfail) "relayConn p c u req w =
      (RelayErr WriteFailed, w,
       close_net c (p\<lparr>exchanges := Suc (exchanges p), sent := sent p @ [(c, relay_request req)]\<rparr>))"
  | (keep) w' where "relayConn p c u req w =
      (RelayOk True, w', putConn (p\<lparr>exchanges := Suc (exchanges p), sent := sent p @ [(c, relay_request req)]\<rparr>) u c)"
  | (drop) r w' where "relayConn p c u req w =
      (r, w', close_net c (p\<lparr>exchanges := Suc (exchanges p), sent := sent p @ [(c, relay_request req)]\<rparr>))"
      "r \<noteq> RelayOk True"
proof (cases "rp_write_ok (net_reply p (exchanges p))")
  case False
  then show thesis using wfail by (simp add: relayConn_def Let_def)
next
  case True
  let ?br = "\<lparr>rd_data = rp_data (net_reply p (exchanges p)), rd_err = rp_end (net_reply p (exchanges p)), rd_size = 4096\<rparr>"
  obtain r w' where rw: "relay_response (px_cfg p) ?br w = (r, w')" by fastforce
  show thesis
  proof (cases "r = RelayOk True")
    case True
    with \<open>rp_write_ok _\<close> rw show thesis by (intro keep [of w']) (simp add: relayConn_def Let_def)
  next
    case False
    with True rw show thesis
      by (intro drop [of r w']) (auto simp: relayConn_def Let_def split: relay_outcome.splits bool.splits)
  qed
qed

lemma relayConn_inv:
  assumes "pool_inv p (add_mset c X)" "u < length (ups p)" "snd c = u" "relayConn p c u req w = (r, w', q)"
  shows "pool_inv q X \<and> same_shape p q"
proof -
  let ?p = "p\<lparr>exchanges := Suc (exchanges p), sent := sent p @ [(c, relay_request req)]\<rparr>"
  have p: "pool_inv ?p (add_mset c X)" using assms(1) by (simp add: exchange_inv)
  have "q \<in> {close_net c ?p, putConn ?p u c}"
    by (rule relayConn_cases [of p c u req w]) (use assms(4) in auto)
  then have "pool_inv q X \<and> same_shape ?p q"
    using close_net_inv [OF p] putConn_inv [OF p _ assms(3)] assms(2) by auto
  then show ?thesis using same_shape_trans exchange_inv(2) by blast
qed

lemma relay_eq:
  assumes "getConn p u = (Some (c, reused), p1)" "relayConn p1 c u req w = (r, w', p2)"
  shows "relay p u req w =
    (if reused \<and> (\<exists>e. r = RelayErr e)
     then (case dial p2 u of (None, q) \<Rightarrow> (RelayErr StaleDialFailed, w', q) | (Some c, q) \<Rightarrow> relayConn q c u req w')
     else (r, w', p2))"
  by (cases r) (simp_all add: relay_def assms)

lemma relay_inv:
  assumes "pool_inv p X" "u < length (ups p)" "relay p u req w = (r, w', q)"
  shows "pool_inv q X \<and> same_shape p q"
proof -
  obtain cr p1 where g: "getConn p u = (cr, p1)" by fastforce
  note gi = getConn_inv [OF assms(1,2) g]
  then have s1: "same_shape p p1" by simp
  show ?thesis
  proof (cases cr)
    case None
    with g gi assms(3) show ?thesis by (simp add: relay_def)
  next
    case (Some cb)
    then obtain c reused where cb: "cr = Some (c, reused)" by (cases cb) auto
    with gi have p1: "pool_inv p1 (add_mset c X)" "snd c = u" by simp_all
    have u1: "u < length (ups p1)" using same_shape_length [OF s1] assms(2) by simp
    obtain r1 w1 p2 where rc: "relayConn p1 c u req w = (r1, w1, p2)" by (rule prod_cases3)
    note i2 = relayConn_inv [OF p1(1) u1 p1(2) rc]
    have s2: "same_shape p p2" using same_shape_trans [OF s1] i2 by simp
    show ?thesis
    proof (cases "reused \<and> (\<exists>e. r1 = RelayErr e)")
      case False
      with relay_eq [OF g [unfolded cb] rc] assms(3) have "q = p2" by auto
      with i2 s2 show ?thesis by simp
    next
      case True
      obtain d p3 where d: "dial p2 u = (d, p3)" by fastforce
      note di = dial_inv [OF conjunct1 [OF i2] d]
      then have s3: "same_shape p p3" using same_shape_trans [OF s2] by simp
      have u3: "u < length (ups p3)" using same_shape_length [OF s3] assms(2) by simp
      show ?thesis
      proof (cases d)
        case None
        with relay_eq [OF g [unfolded cb] rc] True d assms(3) have "q = p3" by simp
        with di s3 None show ?thesis by simp
      next
        case (Some c')
        with relay_eq [OF g [unfolded cb] rc] True d assms(3)
        have rc': "relayConn p3 c' u req w1 = (r, w', q)" by simp
        from di Some have "pool_inv p3 (add_mset c' X)" "snd c' = u" by simp_all
        from relayConn_inv [OF this(1) u3 this(2) rc'] show ?thesis
          using same_shape_trans [OF s3] by simp
      qed
    qed
  qed
qed

lemma try_upstreams_inv:
  assumes "pool_inv p X" "\<forall>u \<in> set us. u < length (ups p)" "try_upstreams p us e req w = (r, w', q)"
  shows "pool_inv q X \<and> same_shape p q"
  using assms
proof (induction us arbitrary: p e w)
  case (Cons u us)
  let ?p = "upd_up u (\<lambda>x. x\<lparr>active := active x + 1\<rparr>) p"
  have p: "pool_inv ?p X" "same_shape p ?p" using Cons.prems(1) by (simp_all add: upd_up_inv upd_up_shape)
  obtain r1 w1 p1 where rl: "relay ?p u req w = (r1, w1, p1)" by (metis prod_cases3)
  have "u < length (ups ?p)" using Cons.prems(2) by (simp add: upd_up_def)
  from relay_inv [OF p(1) this rl] have p1: "pool_inv p1 X" "same_shape p p1"
    using p(2) same_shape_trans by blast+
  let ?p2 = "upd_up u (\<lambda>x. x\<lparr>active := active x - 1\<rparr>) p1"
  let ?p3 = "upd_up u (\<lambda>x. x\<lparr>healthy := False\<rparr>) ?p2"
  have p2: "pool_inv ?p2 X" "same_shape p ?p2"
    using p1 same_shape_trans upd_up_shape by (simp_all add: upd_up_inv)
  have p3: "pool_inv ?p3 X" "same_shape p ?p3"
    using p2 same_shape_trans upd_up_shape by (simp_all add: upd_up_inv)
  show ?case
  proof (cases r1)
    case (RelayErr e')
    with Cons.prems(3) rl have "try_upstreams ?p3 us (Some e') req w1 = (r, w', q)" by (simp add: Let_def)
    moreover have "\<forall>v \<in> set us. v < length (ups ?p3)"
      using Cons.prems(2) same_shape_length [OF p3(2)] by simp
    ultimately have "pool_inv q X \<and> same_shape ?p3 q" using Cons.IH [OF p3(1)] by blast
    with p3(2) show ?thesis using same_shape_trans by blast
  next
    case (RelayOk k)
    with Cons.prems(3) rl have "q = ?p2" by (simp add: Let_def)
    with p2 show ?thesis by simp
  next
    case RelayPanic
    with Cons.prems(3) rl have "q = p1" by (simp add: Let_def)
    with p1 show ?thesis by simp
  qed
qed simp

lemma pick_inv:
  assumes "pick p = (cs, q)"
  shows "q = p \<or> q = p\<lparr>next_pick := next_pick p + 1\<rparr>"
  using assms by (auto simp: pick_def Let_def split: list.splits if_splits)

lemma rotation_subset:
  assumes "rotation s hs = Some cs"
  shows "set cs \<subseteq> set hs"
proof -
  let ?ix = "\<lambda>i. (s + int i) - go_div (s + int i) (int (length hs)) * int (length hs)"
  have cs: "cs = map (\<lambda>i. hs ! nat (?ix i)) [0..<length hs]" and nn: "\<forall>i < length hs. 0 \<le> ?ix i"
    using assms by (simp_all add: rotation_def Let_def list_ex_iff not_less split: if_splits)
  have "nat (?ix i) < length hs" if "i < length hs" for i
  proof -
    have "?ix i < int (length hs)" using that by (intro go_rem_less) auto
    with nn that show ?thesis by (metis zless_nat_conj int_nat_eq nat_less_iff)
  qed
  with cs show ?thesis by auto
qed

lemma pick_range:
  assumes "pick p = (Some cs, q)" "u \<in> set cs"
  shows "u < length (ups p) \<and> healthy (ups p ! u)"
proof -
  have h: "set (healthy_ups p) = {u. u < length (ups p) \<and> healthy (ups p ! u)}"
    by (rule healthy_ups_props(2))
  have "set cs \<subseteq> set (healthy_ups p)"
  proof (cases "healthy_ups p")
    case Nil
    then show ?thesis using assms(1) by (simp add: pick_def)
  next
    case (Cons x xs)
    show ?thesis
    proof (cases "px_Strategy (px_cfg p) = LeastConnections")
      case True
      with Cons assms(1) show ?thesis
        using least_active_props [of p x xs] by (auto simp: pick_def Let_def split: if_splits)
    next
      case False
      with Cons assms(1) obtain s where "rotation s (x # xs) = Some cs"
        by (auto simp: pick_def Let_def)
      from rotation_subset [OF this] Cons show ?thesis by simp
    qed
  qed
  with h assms(2) show ?thesis by auto
qed

lemma next_pick_inv: "pool_inv (p\<lparr>next_pick := n\<rparr>) X \<longleftrightarrow> pool_inv p X"
  "same_shape p (p\<lparr>next_pick := n\<rparr>)"
  by (simp_all add: pool_inv_def conserved_def lots_ok_def parked_def same_shape_def)

lemma pick_pool:
  assumes "pick p = (cs, q)"
  shows "(pool_inv q X \<longleftrightarrow> pool_inv p X) \<and> same_shape p q"
  using pick_inv [OF assms] next_pick_inv by auto

lemma proxy_exchange_inv:
  assumes "pool_inv p X" "proxy_exchange ft p req w = (ou, w', q)"
  shows "pool_inv q X \<and> same_shape p q"
proof -
  obtain cs p1 where pk: "pick p = (cs, p1)" by fastforce
  note p1 = pick_pool [OF pk, of X]
  show ?thesis
  proof (cases "cs = None \<or> cs = Some []")
    case True
    then have "q = p1" using assms(2) pk by (auto simp: proxy_exchange_def)
    with p1 assms(1) show ?thesis by simp
  next
    case False
    then obtain c cs' where cs: "cs = Some (c # cs')" by (metis list.exhaust option.exhaust)
    let ?us = "take (nat (min (MaxAttempts (px_cfg p1)) (int (length (c # cs'))))) (c # cs')"
    obtain e w1 p2 where tr: "try_upstreams p1 ?us None req w = (e, w1, p2)" by (metis prod_cases3)
    have "\<forall>u \<in> set ?us. u < length (ups p1)"
      using pick_range [OF pk [unfolded cs]] same_shape_length p1 by (metis in_set_takeD)
    then have "pool_inv p2 X \<and> same_shape p1 p2"
      using try_upstreams_inv [OF _ _ tr] p1 assms(1) by blast
    moreover have "q = p2"
      using assms(2) pk cs tr by (auto simp: proxy_exchange_def Let_def split: attempts_end.splits)
    ultimately show ?thesis using p1 same_shape_trans by blast
  qed
qed

lemma health_check_inv:
  assumes "pool_inv p X"
  shows "pool_inv (health_check us p) X \<and> same_shape p (health_check us p)"
  using assms
proof (induction us arbitrary: p)
  case (Cons u us)
  obtain d p1 where d: "dial p u = (d, p1)" by fastforce
  note di = dial_inv [OF Cons.prems d]
  define p2 where "p2 = (case d of None \<Rightarrow> upd_up u (\<lambda>x. x\<lparr>healthy := False\<rparr>) p1
      | Some c \<Rightarrow> upd_up u (\<lambda>x. x\<lparr>healthy := True\<rparr>) (close_net c p1))"
  have s: "health_check (u # us) p = health_check us p2"
    using d by (simp add: p2_def split: option.splits)
  have "pool_inv p2 X \<and> same_shape p p2"
  proof (cases d)
    case None
    with di show ?thesis
      using same_shape_trans [OF _ upd_up_shape] by (simp add: p2_def upd_up_inv)
  next
    case (Some c)
    with di close_net_inv [of p1 c X] have "pool_inv (close_net c p1) X" "same_shape p (close_net c p1)"
      using same_shape_trans by auto
    with Some show ?thesis
      using same_shape_trans [OF _ upd_up_shape] by (simp add: p2_def upd_up_inv)
  qed
  with Cons.IH [of p2] s show ?case using same_shape_trans by auto
qed simp

lemma Stop_inv:
  assumes "pool_inv p X"
  shows "pool_inv (pool_Stop p) X \<and> parked (pool_Stop p) = {#} \<and> same_shape p (pool_Stop p)"
  using assms
  by (auto simp: pool_inv_def conserved_def lots_ok_def parked_def same_shape_def pool_Stop_def comp_def)

lemma NewPool_inv:
  assumes "NewPool cfg addrs dl rep = Some p"
  shows "pool_inv p {#} \<and> 0 \<le> PoolSize (px_cfg p) \<or> addrs = []"
  using assms
  by (auto simp: NewPool_def Let_def make_chan_panics_def pool_inv_def conserved_def lots_ok_def parked_def
      comp_def split: if_splits)

section \<open>Runs of the pool\<close>

text \<open>
  What happens to a pool, one thing at a time: a request is proxied, the health loop makes a round, the
  scripted network changes, the pool is stopped.
\<close>

datatype pool_op = Exchange Request ResponseWriter | HealthRound | Network "nat \<Rightarrow> bytes \<Rightarrow> bool" "nat \<Rightarrow> reply" | StopPool

fun pool_step :: "(int \<Rightarrow> relay_error option \<Rightarrow> bytes) \<Rightarrow> Pool \<Rightarrow> pool_op \<Rightarrow> Pool" where
  "pool_step ft p (Exchange req w) = snd (snd (proxy_exchange ft p req w))"
| "pool_step ft p HealthRound = check_all p"
| "pool_step ft p (Network dl rep) = p\<lparr>net_dial := dl, net_reply := rep\<rparr>"
| "pool_step ft p StopPool = pool_Stop p"

definition pool_run :: "(int \<Rightarrow> relay_error option \<Rightarrow> bytes) \<Rightarrow> Pool \<Rightarrow> pool_op list \<Rightarrow> Pool" where
  "pool_run ft p ops = foldl (pool_step ft) p ops"

lemma pool_step_inv:
  assumes "pool_inv p {#}"
  shows "pool_inv (pool_step ft p x) {#} \<and> px_cfg (pool_step ft p x) = px_cfg p
    \<and> length (ups (pool_step ft p x)) = length (ups p)"
proof (cases x)
  case (Exchange req w)
  obtain ou w' q where e: "proxy_exchange ft p req w = (ou, w', q)" by (metis prod_cases3)
  from proxy_exchange_inv [OF assms this] Exchange e show ?thesis
    by (simp add: same_shape_length) (simp add: same_shape_def)
next
  case HealthRound
  with health_check_inv [OF assms] show ?thesis
    by (simp add: check_all_def same_shape_length) (simp add: same_shape_def)
next
  case (Network dl rep)
  with assms show ?thesis by (simp add: pool_inv_def conserved_def lots_ok_def parked_def)
next
  case StopPool
  with Stop_inv [OF assms] show ?thesis
    by (simp add: same_shape_length) (simp add: same_shape_def)
qed

lemma pool_run_inv:
  assumes "pool_inv p {#}"
  shows "pool_inv (pool_run ft p ops) {#} \<and> px_cfg (pool_run ft p ops) = px_cfg p
    \<and> length (ups (pool_run ft p ops)) = length (ups p)"
proof -
  have "pool_inv (foldl (pool_step ft) p ops) {#} \<and> px_cfg (foldl (pool_step ft) p ops) = px_cfg p
    \<and> length (ups (foldl (pool_step ft) p ops)) = length (ups p)"
    using assms
  proof (induction ops arbitrary: p)
    case (Cons x ops)
    from Cons.IH [of "pool_step ft p x"] pool_step_inv [OF Cons.prems] show ?case by simp
  qed simp
  then show ?thesis by (simp add: pool_run_def)
qed

text \<open>
  Connections are neither leaked nor shared. Whatever happens to a new pool (requests
  that fail or succeed, health rounds, a changing network, \<open>Stop\<close>), between operations every
  connection ever opened is exactly once either parked at one upstream or closed, it is parked only
  at the upstream it leads to, and no upstream parks more than \<open>PoolSize\<close>.
\<close>

theorem pool_conserves_connections:
  assumes "NewPool cfg addrs dl rep = Some p0" "addrs \<noteq> []" "p = pool_run ft p0 ops"
  shows "mset (opened p) = mset (closed_conns p) + mset (concat (map idle (ups p)))
    \<and> distinct (opened p)
    \<and> (\<forall>u < length addrs. int (length (idle (ups p ! u))) \<le> PoolSize (px_cfg p)
          \<and> (\<forall>c \<in> set (idle (ups p ! u)). snd c = u))"
proof -
  have p0: "pool_inv p0 {#}" "0 \<le> PoolSize (px_cfg p0)" "length (ups p0) = length addrs"
    using NewPool_inv [OF assms(1)] assms(1,2) by (auto simp: NewPool_def Let_def split: if_splits)
  from pool_run_inv [OF p0(1), of ft ops] p0(2,3) assms(3) show ?thesis
    by (auto simp: pool_inv_def conserved_def lots_ok_def parked_def max_def)
qed

theorem pool_conserves_connections_witness:
  "mset (opened (pool_run (\<lambda>_ _. []) (sample_pool RoundRobin silent) [HealthRound, StopPool]))
     = mset (closed_conns (pool_run (\<lambda>_ _. []) (sample_pool RoundRobin silent) [HealthRound, StopPool]))
       + mset (concat (map idle (ups (pool_run (\<lambda>_ _. []) (sample_pool RoundRobin silent) [HealthRound, StopPool]))))"
proof -
  have "NewPool (DefaultPoolConfig\<lparr>px_Strategy := RoundRobin\<rparr>) [''a:1'', ''b:2'', ''c:3''] (\<lambda>_ _. True) silent
      = Some (sample_pool RoundRobin silent)"
    by (simp add: sample_pool_def NewPool_def Let_def make_chan_panics_def maxAlloc_def
        pool_withDefaults_def DefaultPoolConfig_def)
  from pool_conserves_connections [OF this _ refl, of "\<lambda>_ _. []" "[HealthRound, StopPool]"] show ?thesis by simp
qed

end
