(* ===== verification/Proxy_Failover.thy ===== *)
theory Proxy_Failover
  imports Proxy_Conns
begin

text \<open>
  The failover of \<open>proxy/proxy.go\<close>: what one attempt does to the response, to the health marks and to
  the load counters, and from it what the handler answers. Also what a request may cause on the
  upstream side: which bytes are sent, where, and how often.
\<close>

section \<open>One attempt\<close>

text \<open>The health marks and load counters of the upstreams.\<close>

definition marks :: "Pool \<Rightarrow> (bool \<times> int) list" where
  "marks p = map (\<lambda>x. (healthy x, active x)) (ups p)"

definition reply_reader :: "reply \<Rightarrow> Reader" where
  "reply_reader rp = \<lparr>rd_data = rp_data rp, rd_err = rp_end rp, rd_size = 4096\<rparr>"

text \<open>The writer after relaying a reply that could be relayed.\<close>

definition relayed :: "PoolConfig \<Rightarrow> reply \<Rightarrow> ResponseWriter \<Rightarrow> ResponseWriter \<Rightarrow> bool" where
  "relayed cfg rp w w' \<longleftrightarrow> rp_write_ok rp \<and> (\<exists>k. relay_response cfg (reply_reader rp) w = (RelayOk k, w'))"

lemma relay_response_fail:
  "relay_response cfg br w = (r, w') \<Longrightarrow> \<not> (\<exists>k. r = RelayOk k) \<Longrightarrow> w' = w"
  by (auto simp: relay_response_def split: sum.splits prod.splits relay_outcome.splits)

lemma marks_upd: "(\<And>x. healthy (f x) = healthy x \<and> active (f x) = active x) \<Longrightarrow> marks (upd_up u f p) = marks p"
  by (simp add: marks_def upd_up_def map_update_same)

lemma conn_ops_marks:
  "marks (close_net c p) = marks p" "sent (close_net c p) = sent p"
  "marks (putConn p u c) = marks p" "sent (putConn p u c) = sent p"
  by (simp_all add: close_net_def putConn_def marks_upd) (simp_all add: marks_def upd_up_def)

lemma dial_marks:
  "dial p u = (d, q) \<Longrightarrow> marks q = marks p \<and> sent q = sent p \<and> (\<forall>c. d = Some c \<longrightarrow> snd c = u)"
  by (auto simp: dial_def marks_def split: if_splits)

lemma getConn_marks:
  assumes "getConn p u = (cr, q)"
  shows "marks q = marks p \<and> sent q = sent p"
proof (cases "idle (ups p ! u)")
  case Nil
  then show ?thesis using assms dial_marks [of p u] by (auto simp: getConn_def split: prod.splits option.splits)
next
  case (Cons c cs)
  have "marks (upd_up u (\<lambda>x. x\<lparr>idle := cs\<rparr>) p) = marks p" by (rule marks_upd) simp
  then show ?thesis using assms Cons by (auto simp: getConn_def upd_up_def)
qed

lemma relayConn_facts:
  assumes "relayConn p c u req w = (r, w', q)"
  shows "marks q = marks p" "sent q = sent p @ [(c, relay_request req)]"
    "\<not> (\<exists>k. r = RelayOk k) \<Longrightarrow> w' = w"
    "r = RelayOk k \<Longrightarrow> relayed (px_cfg p) (net_reply p (exchanges p)) w w'"
proof -
  let ?p = "p\<lparr>exchanges := Suc (exchanges p), sent := sent p @ [(c, relay_request req)]\<rparr>"
  have "q \<in> {close_net c ?p, putConn ?p u c}"
    by (rule relayConn_cases [of p c u req w]) (use assms in auto)
  moreover have "marks ?p = marks p" by (simp add: marks_def)
  ultimately show "marks q = marks p" "sent q = sent p @ [(c, relay_request req)]"
    by (auto simp: conn_ops_marks)
  show "w' = w" if "\<not> (\<exists>k. r = RelayOk k)"
    using assms that relay_response_fail
    by (fastforce simp: relayConn_def Let_def split: if_splits prod.splits relay_outcome.splits bool.splits)
  show "relayed (px_cfg p) (net_reply p (exchanges p)) w w'" if "r = RelayOk k"
    using assms that
    by (auto simp: relayConn_def relayed_def reply_reader_def Let_def
        split: if_splits prod.splits relay_outcome.splits bool.splits)
qed

text \<open>
  What \<open>relay\<close> does: at most two exchanges, of the same bytes, on connections to this upstream; the
  health marks and load counters are not its business; a failed attempt leaves the response alone.
\<close>

definition resends :: "Pool \<Rightarrow> Pool \<Rightarrow> nat \<Rightarrow> nat set \<Rightarrow> Request \<Rightarrow> bool" where
  "resends p q n us req \<longleftrightarrow> (\<exists>cs. sent q = sent p @ map (\<lambda>c. (c, relay_request req)) cs
      \<and> length cs \<le> n \<and> snd ` set cs \<subseteq> us)"

lemma resends_refl [simp]: "sent q = sent p \<Longrightarrow> resends p q n us req"
  by (auto simp: resends_def)

lemma resends_trans:
  assumes "resends p q m us req" "resends q r n vs req"
  shows "resends p r (m + n) (us \<union> vs) req"
proof -
  from assms obtain cs ds where
    "sent q = sent p @ map (\<lambda>c. (c, relay_request req)) cs" "length cs \<le> m" "snd ` set cs \<subseteq> us"
    "sent r = sent q @ map (\<lambda>c. (c, relay_request req)) ds" "length ds \<le> n" "snd ` set ds \<subseteq> vs"
    by (auto simp: resends_def)
  then show ?thesis unfolding resends_def by (intro exI [of _ "cs @ ds"]) auto
qed

lemma resends_cong: "resends p q n us req \<Longrightarrow> sent p' = sent p \<Longrightarrow> sent q' = sent q \<Longrightarrow> resends p' q' n us req"
  by (simp add: resends_def)

lemma relay_facts:
  assumes "pool_inv p X" "u < length (ups p)" "relay p u req w = (r, w', q)"
  shows "marks q = marks p \<and> resends p q 2 {u} req
    \<and> ((\<exists>k. r = RelayOk k) \<longrightarrow> (\<exists>n. relayed (px_cfg p) (net_reply p n) w w'))
    \<and> (\<not> (\<exists>k. r = RelayOk k) \<longrightarrow> w' = w)"
proof -
  obtain cr p1 where g: "getConn p u = (cr, p1)" by fastforce
  note gi = getConn_inv [OF assms(1,2) g] and gm = getConn_marks [OF g]
  show ?thesis
  proof (cases cr)
    case None
    with g gm assms(3) show ?thesis by (auto simp: relay_def)
  next
    case (Some cb)
    then obtain c reused where cb: "cr = Some (c, reused)" by (cases cb) auto
    have c: "snd c = u" and s1: "px_cfg p1 = px_cfg p" "net_reply p1 = net_reply p"
      using gi cb by (auto simp: same_shape_def)
    obtain r1 w1 p2 where rc: "relayConn p1 c u req w = (r1, w1, p2)" by (metis prod_cases3)
    note f1 = relayConn_facts [OF rc]
    have m2: "marks p2 = marks p" using f1(1) gm by simp
    have n2: "resends p p2 1 {u} req"
      unfolding resends_def using f1(2) gm c by (intro exI [of _ "[c]"]) simp
    show ?thesis
    proof (cases "reused \<and> (\<exists>e. r1 = RelayErr e)")
      case False
      with relay_eq [OF g [unfolded cb] rc] assms(3) have "r = r1" "w' = w1" "q = p2" by auto
      moreover have "resends p p2 2 {u} req" using n2 by (auto simp: resends_def)
      ultimately show ?thesis using m2 f1(3,4) s1 by auto
    next
      case True
      then have w1: "w1 = w" using f1(3) by auto
      obtain d p3 where d: "dial p2 u = (d, p3)" by fastforce
      note dm = dial_marks [OF d]
      have "same_shape p1 p2"
        using relayConn_inv [OF _ _ c rc, of X] gi cb assms(2) same_shape_length by fastforce
      moreover have "same_shape p2 p3" using d by (auto simp: same_shape_def dial_def split: if_splits)
      ultimately have s3: "px_cfg p3 = px_cfg p" "net_reply p3 = net_reply p"
        using s1 by (simp_all add: same_shape_def)
      show ?thesis
      proof (cases d)
        case None
        with relay_eq [OF g [unfolded cb] rc] True d assms(3)
        have "r = RelayErr StaleDialFailed" "w' = w1" "q = p3" by simp_all
        with m2 w1 dm n2 show ?thesis by (auto simp: resends_def)
      next
        case (Some c')
        with relay_eq [OF g [unfolded cb] rc] True d assms(3) w1
        have rc2: "relayConn p3 c' u req w = (r, w', q)" by simp
        note f2 = relayConn_facts [OF rc2]
        have "resends p2 q 1 {u} req"
          unfolding resends_def using f2(2) dm Some by (intro exI [of _ "[c']"]) simp
        from resends_trans [OF n2 this] have "resends p q 2 {u} req" by (simp add: numeral_2_eq_2)
        then show ?thesis using f2(1,3,4) dm m2 s3 by auto
      qed
    qed
  qed
qed

section \<open>The attempts\<close>

text \<open>From \<open>p\<close> to \<open>q\<close> exactly the upstreams in \<open>F\<close> were marked down, and all load counters are back.\<close>

definition marked_down :: "Pool \<Rightarrow> Pool \<Rightarrow> nat set \<Rightarrow> bool" where
  "marked_down p q F \<longleftrightarrow> length (ups q) = length (ups p)
     \<and> (\<forall>u < length (ups p). (healthy (ups q ! u) \<longleftrightarrow> healthy (ups p ! u) \<and> u \<notin> F)
          \<and> active (ups q ! u) = active (ups p ! u))"

lemma marked_down_trans: "marked_down p q F \<Longrightarrow> marked_down q r G \<Longrightarrow> marked_down p r (F \<union> G)"
  by (simp add: marked_down_def)

lemma attempt_marks:
  assumes "u < length (ups p)" "marks p1 = marks (upd_up u (\<lambda>x. x\<lparr>active := active x + 1\<rparr>) p)"
  shows "marked_down p (upd_up u (\<lambda>x. x\<lparr>active := active x - 1\<rparr>) p1) {}"
    "marked_down p (upd_up u (\<lambda>x. x\<lparr>healthy := False\<rparr>) (upd_up u (\<lambda>x. x\<lparr>active := active x - 1\<rparr>) p1)) {u}"
proof -
  from assms(2) have len: "length (ups p1) = length (ups p)"
    using map_eq_imp_length_eq [OF assms(2) [unfolded marks_def]] by (simp add: upd_up_def)
  have at: "healthy (ups p1 ! v) = healthy (ups p ! v)
      \<and> active (ups p1 ! v) = (if v = u then active (ups p ! v) + 1 else active (ups p ! v))"
    if "v < length (ups p)" for v
    using arg_cong [OF assms(2), of "\<lambda>xs. xs ! v"] that len
    by (auto simp: marks_def upd_up_def nth_list_update)
  show "marked_down p (upd_up u (\<lambda>x. x\<lparr>active := active x - 1\<rparr>) p1) {}"
    "marked_down p (upd_up u (\<lambda>x. x\<lparr>healthy := False\<rparr>) (upd_up u (\<lambda>x. x\<lparr>active := active x - 1\<rparr>) p1)) {u}"
    using at len assms(1) by (auto simp: marked_down_def upd_up_def nth_list_update)
qed

definition answered_by :: "Pool \<Rightarrow> nat \<Rightarrow> ResponseWriter \<Rightarrow> ResponseWriter \<Rightarrow> bool" where
  "answered_by p u w w' \<longleftrightarrow> (\<exists>n w1. relayed (px_cfg p) (net_reply p n) w w1
      \<and> w' = w_SetHeader w1 ''X-Upstream'' (Addr (ups p ! u)))"

lemma same_shape_Addr:
  assumes "same_shape p q" "u < length (ups p)"
  shows "Addr (ups q ! u) = Addr (ups p ! u)"
proof -
  have "map Addr (ups q) ! u = map Addr (ups p) ! u" using assms(1) by (simp add: same_shape_def)
  then show ?thesis using assms(2) same_shape_length [OF assms(1)] by simp
qed

lemma answered_by_shape: "same_shape p q \<Longrightarrow> u < length (ups p) \<Longrightarrow> answered_by q u w w' \<longleftrightarrow> answered_by p u w w'"
  by (simp add: answered_by_def same_shape_Addr) (simp add: same_shape_def)

lemma try_upstreams_facts:
  assumes "pool_inv p X" "\<forall>u \<in> set us. u < length (ups p)"
    "try_upstreams p us e req w = (r, w', q)" "r \<noteq> AttemptPanicked"
  shows "\<exists>failed rest. us = failed @ rest \<and> marked_down p q (set failed)
    \<and> resends p q (2 * length (failed @ take 1 rest)) (set (failed @ take 1 rest)) req
    \<and> (case r of Answered \<Rightarrow> rest \<noteq> [] \<and> answered_by p (hd rest) w w' | _ \<Rightarrow> rest = [] \<and> w' = w)"
  using assms
proof (induction us arbitrary: p e)
  case Nil
  then show ?case by (auto simp: marked_down_def)
next
  case (Cons u us)
  let ?p = "upd_up u (\<lambda>x. x\<lparr>active := active x + 1\<rparr>) p"
  have p: "pool_inv ?p X" "same_shape p ?p" "sent ?p = sent p"
    using Cons.prems(1) by (simp_all add: upd_up_inv upd_up_shape) (simp add: upd_up_def)
  obtain r1 w1 p1 where rl: "relay ?p u req w = (r1, w1, p1)" by (rule prod_cases3)
  have u: "u < length (ups p)" "u < length (ups ?p)" using Cons.prems(2) by (simp_all add: upd_up_def)
  note f = relay_facts [OF p(1) u(2) rl]
  let ?p2 = "upd_up u (\<lambda>x. x\<lparr>active := active x - 1\<rparr>) p1"
  let ?p3 = "upd_up u (\<lambda>x. x\<lparr>healthy := False\<rparr>) ?p2"
  note m = attempt_marks [OF u(1) conjunct1 [OF f]]
  have shp: "same_shape p p1" using relay_inv [OF p(1) u(2) rl] same_shape_trans [OF p(2)] by blast
  have s: "resends p ?p2 2 {u} req" "resends p ?p3 2 {u} req"
    using f p(3) by (auto intro: resends_cong simp: upd_up_def)
  show ?case
  proof (cases r1)
    case (RelayOk k)
    with Cons.prems(3) rl have e: "r = Answered" "w' = w_SetHeader w1 ''X-Upstream'' (Addr (ups ?p2 ! u))" "q = ?p2"
      by (auto simp: Let_def)
    have "same_shape p ?p2" using same_shape_trans [OF shp upd_up_shape] by simp
    from same_shape_Addr [OF this u(1)] have "Addr (ups ?p2 ! u) = Addr (ups p ! u)" .
    moreover have "\<exists>n. relayed (px_cfg p) (net_reply p n) w w1"
      using f RelayOk p(2) by (simp add: same_shape_def)
    ultimately have "answered_by p u w w'" using e(2) unfolding answered_by_def by auto
    with e m s show ?thesis by (intro exI [of _ "[]"] exI [of _ "u # us"]) simp
  next
    case (RelayErr e')
    with f have w1: "w1 = w" by simp
    have p3: "same_shape p ?p3" "pool_inv ?p3 X"
      using same_shape_trans [OF same_shape_trans [OF shp upd_up_shape] upd_up_shape] relay_inv [OF p(1) u(2) rl]
      by (simp_all add: upd_up_inv)
    have "try_upstreams ?p3 us (Some e') req w = (r, w', q)"
      using Cons.prems(3) rl RelayErr w1 by (simp add: Let_def)
    from Cons.IH [OF p3(2) _ this Cons.prems(4)] Cons.prems(2) same_shape_length [OF p3(1)]
    obtain failed rest where fr: "us = failed @ rest" "marked_down ?p3 q (set failed)"
      "resends ?p3 q (2 * length (failed @ take 1 rest)) (set (failed @ take 1 rest)) req"
      "case r of Answered \<Rightarrow> rest \<noteq> [] \<and> answered_by ?p3 (hd rest) w w' | _ \<Rightarrow> rest = [] \<and> w' = w"
      by auto
    have "rest \<noteq> [] \<Longrightarrow> hd rest < length (ups p)" using fr(1) Cons.prems(2) by (cases rest) auto
    then have "case r of Answered \<Rightarrow> rest \<noteq> [] \<and> answered_by p (hd rest) w w' | _ \<Rightarrow> rest = [] \<and> w' = w"
      using fr(4) answered_by_shape [OF p3(1)] by (auto split: attempts_end.splits)
    then show ?thesis
      using fr(1) marked_down_trans [OF m(2) fr(2)] resends_trans [OF s(2) fr(3)]
      by (intro exI [of _ "u # failed"] exI [of _ rest]) simp
  next
    case RelayPanic
    with Cons.prems(3,4) rl show ?thesis by (simp add: Let_def)
  qed
qed

section \<open>The handler's answer\<close>

lemma exchange_cases:
  assumes "pool_inv p {#}" "proxy_exchange ft p req w = (Returned, w', q)" "pick p = (Some cs, p1)"
    "\<not> hijacked w"
  shows "if cs = [] then w_status w' = 503 \<and> Headers_Get (w_headers w') ''Retry-After'' = ''2'' \<and> q = p1
    else \<exists>failed rest.
      take (nat (MaxAttempts (px_cfg p))) cs = failed @ rest
      \<and> marked_down p q (set failed)
      \<and> resends p q (2 * length (failed @ take 1 rest)) (set (failed @ take 1 rest)) req
      \<and> (if rest = [] then \<exists>msg. w' = w_Error w 502 msg else answered_by p (hd rest) w w')"
proof (cases "cs = []")
  case True
  then have "w' = w_Error (w_SetHeader w ''Retry-After'' ''2'') 503 ''no healthy upstreams''" "q = p1"
    using assms(2,3) by (simp_all add: proxy_exchange_def)
  then show ?thesis using True assms(4) by (simp add: writer_defs Headers_Get_Set)
next
  case False
  then obtain c cs' where cs: "cs = c # cs'" by (cases cs) auto
  let ?n = "min (MaxAttempts (px_cfg p)) (int (length cs))"
  have tk: "take (nat ?n) cs = take (nat (MaxAttempts (px_cfg p))) cs"
    by (cases "MaxAttempts (px_cfg p) \<le> int (length cs)") (simp_all add: min_def)
  have p1: "pool_inv p1 {#}" "same_shape p p1" using pick_pool [OF assms(3), of "{#}"] assms(1) by auto
  have same: "ups p1 = ups p" "sent p1 = sent p" "px_cfg p1 = px_cfg p" "net_reply p1 = net_reply p"
    using pick_inv [OF assms(3)] by auto
  obtain e w1 p2 where tr: "try_upstreams p1 (take (nat ?n) cs) None req w = (e, w1, p2)" by (rule prod_cases3)
  have range: "\<forall>u \<in> set (take (nat ?n) cs). u < length (ups p1)"
    using pick_range [OF assms(3)] same(1) by (auto dest: in_set_takeD)
  have ex: "proxy_exchange ft p req w = (case e of Answered \<Rightarrow> (Returned, w1, p2)
      | AttemptPanicked \<Rightarrow> (Panicked, w1, p2)
      | AllFailed er \<Rightarrow> (Returned, w_Error w1 StatusBadGateway (ft ?n er), p2))"
    using assms(3) tr same(3) unfolding proxy_exchange_def cs by (cases e) (simp_all add: Let_def)
  with assms(2) have e: "e \<noteq> AttemptPanicked" by auto
  from try_upstreams_facts [OF p1(1) range tr e] obtain failed rest where fr:
    "take (nat ?n) cs = failed @ rest" "marked_down p1 p2 (set failed)"
    "resends p1 p2 (2 * length (failed @ take 1 rest)) (set (failed @ take 1 rest)) req"
    "case e of Answered \<Rightarrow> rest \<noteq> [] \<and> answered_by p1 (hd rest) w w1 | _ \<Rightarrow> rest = [] \<and> w1 = w" by auto
  have q: "q = p2" using ex assms(2) e by (cases e) auto
  have ans: "if rest = [] then \<exists>msg. w' = w_Error w 502 msg else answered_by p (hd rest) w w'"
  proof (cases e)
    case Answered
    with fr(4) ex assms(2) same show ?thesis by (simp add: answered_by_def)
  next
    case (AllFailed er)
    with fr(4) ex assms(2) have "w' = w_Error w 502 (ft ?n er)" "rest = []" by simp_all
    then show ?thesis by auto
  next
    case AttemptPanicked
    with e show ?thesis by simp
  qed
  have "marked_down p q (set failed)" using fr(2) q same(1) by (simp add: marked_down_def)
  moreover have "resends p q (2 * length (failed @ take 1 rest)) (set (failed @ take 1 rest)) req"
    using fr(3) q same(2) by (simp add: resends_def)
  ultimately show ?thesis
    unfolding if_not_P [OF False] using fr(1) tk ans by (intro exI [of _ failed] exI [of _ rest]) simp
qed

text \<open>
  C20. Failover. With no healthy upstream the answer is 503 with \<open>Retry-After: 2\<close> and nothing
  is sent. Otherwise the candidates are tried in order of preference, at most \<open>MaxAttempts\<close> of them:
  each one that fails is marked down (and only those), the first one that does not gives the whole
  answer, with its address in \<open>X-Upstream\<close>, and no trace of the failed attempts in it; if all fail the
  answer is 502. The load counters are balanced afterwards, and a candidate is sent the request at
  most twice.
\<close>

theorem failover:
  assumes "pool_inv p {#}" "proxy_exchange ft p req w = (Returned, w', q)" "pick p = (Some cs, p1)"
    "\<not> hijacked w"
  shows "if cs = [] then w_status w' = 503 \<and> Headers_Get (w_headers w') ''Retry-After'' = ''2'' \<and> q = p1
    else \<exists>failed rest.
      take (nat (MaxAttempts (px_cfg p))) cs = failed @ rest
      \<and> marked_down p q (set failed)
      \<and> resends p q (2 * length (failed @ take 1 rest)) (set (failed @ take 1 rest)) req
      \<and> (if rest = [] then \<exists>msg. w' = w_Error w 502 msg else answered_by p (hd rest) w w')"
  by (rule exchange_cases [OF assms])

section \<open>When the handler returns\<close>

lemma relay_body_no_panic:
  "px_MaxBodyBytes cfg \<le> maxAlloc \<Longrightarrow> fst (relay_body cfg br cl) \<noteq> RelayPanic"
  by (auto simp: relay_body_def make_panics_def split: sum.splits)

lemma relay_response_no_panic:
  assumes "px_MaxBodyBytes cfg \<le> maxAlloc" "relay_response cfg br w = (r, w')"
  shows "r \<noteq> RelayPanic"
proof
  assume "r = RelayPanic"
  with assms(2) obtain br' cl where "fst (relay_body cfg br' cl) = RelayPanic"
    by (auto simp: relay_response_def split: sum.splits prod.splits relay_outcome.splits) (metis fst_conv)+
  with relay_body_no_panic [OF assms(1)] show False by simp
qed

lemma relayConn_no_panic:
  assumes "px_MaxBodyBytes (px_cfg p) \<le> maxAlloc" "relayConn p c u req w = (r, w', q)"
  shows "r \<noteq> RelayPanic"
proof (cases "rp_write_ok (net_reply p (exchanges p))")
  case True
  let ?br = "\<lparr>rd_data = rp_data (net_reply p (exchanges p)), rd_err = rp_end (net_reply p (exchanges p)), rd_size = 4096\<rparr>"
  obtain r1 w1 where rr: "relay_response (px_cfg p) ?br w = (r1, w1)" by fastforce
  have "r = r1"
    using assms(2) True rr by (auto simp: relayConn_def Let_def split: relay_outcome.splits bool.splits)
  with relay_response_no_panic [OF assms(1) rr] show ?thesis by simp
qed (use assms(2) in \<open>auto simp: relayConn_def Let_def\<close>)

lemma relay_no_panic:
  assumes "pool_inv p X" "u < length (ups p)" "px_MaxBodyBytes (px_cfg p) \<le> maxAlloc"
    "relay p u req w = (r, w', q)"
  shows "r \<noteq> RelayPanic"
proof -
  obtain cr p1 where g: "getConn p u = (cr, p1)" by fastforce
  note gi = getConn_inv [OF assms(1,2) g]
  then have s1: "same_shape p p1" by simp
  show ?thesis
  proof (cases cr)
    case None
    with g assms(4) show ?thesis by (auto simp: relay_def)
  next
    case (Some cb)
    then obtain c reused where cb: "cr = Some (c, reused)" by (cases cb) auto
    with gi have p1: "pool_inv p1 (add_mset c X)" "snd c = u" by simp_all
    obtain r1 w1 p2 where rc: "relayConn p1 c u req w = (r1, w1, p2)" by (rule prod_cases3)
    have cap: "px_MaxBodyBytes (px_cfg p1) \<le> maxAlloc" using s1 assms(3) by (simp add: same_shape_def)
    have "u < length (ups p1)" using same_shape_length [OF s1] assms(2) by simp
    from relayConn_inv [OF p1(1) this p1(2) rc] have s2: "same_shape p1 p2" by simp
    obtain d p3 where d: "dial p2 u = (d, p3)" by fastforce
    then have "px_cfg p3 = px_cfg p1" using s2 by (auto simp: same_shape_def dial_def split: if_splits)
    then have cap3: "px_MaxBodyBytes (px_cfg p3) \<le> maxAlloc" using cap by simp
    note eq = relay_eq [OF g [unfolded cb] rc]
    show ?thesis
    proof (cases "reused \<and> (\<exists>e. r1 = RelayErr e)")
      case False
      then show ?thesis using eq assms(4) relayConn_no_panic [OF cap rc] by auto
    next
      case True
      show ?thesis
      proof (cases d)
        case None
        with eq True d assms(4) show ?thesis by auto
      next
        case (Some c')
        with eq True d assms(4) have "relayConn p3 c' u req w1 = (r, w', q)" by simp
        then show ?thesis by (rule relayConn_no_panic [OF cap3])
      qed
    qed
  qed
qed

lemma try_upstreams_no_panic:
  assumes "pool_inv p X" "\<forall>u \<in> set us. u < length (ups p)" "px_MaxBodyBytes (px_cfg p) \<le> maxAlloc"
    "try_upstreams p us e req w = (r, w', q)"
  shows "r \<noteq> AttemptPanicked"
  using assms
proof (induction us arbitrary: p e w)
  case (Cons u us)
  let ?p = "upd_up u (\<lambda>x. x\<lparr>active := active x + 1\<rparr>) p"
  obtain r1 w1 p1 where rl: "relay ?p u req w = (r1, w1, p1)" by (rule prod_cases3)
  have p: "pool_inv ?p X" "u < length (ups ?p)" "px_MaxBodyBytes (px_cfg ?p) \<le> maxAlloc"
    using Cons.prems by (simp_all add: upd_up_inv) (simp_all add: upd_up_def)
  note np = relay_no_panic [OF p rl]
  let ?p3 = "upd_up u (\<lambda>x. x\<lparr>healthy := False\<rparr>) (upd_up u (\<lambda>x. x\<lparr>active := active x - 1\<rparr>) p1)"
  have "same_shape p ?p" by (simp add: upd_up_shape)
  from same_shape_trans [OF this] relay_inv [OF p(1,2) rl] have s1: "same_shape p p1" by simp
  from same_shape_trans [OF same_shape_trans [OF s1 upd_up_shape] upd_up_shape]
  have s3: "same_shape p ?p3" by simp
  have i3: "pool_inv ?p3 X" using relay_inv [OF p(1,2) rl] by (simp add: upd_up_inv)
  show ?case
  proof (cases r1)
    case (RelayErr e')
    then have "try_upstreams ?p3 us (Some e') req w1 = (r, w', q)" using Cons.prems(4) rl by (simp add: Let_def)
    moreover have "\<forall>v \<in> set us. v < length (ups ?p3)" using Cons.prems(2) same_shape_length [OF s3] by simp
    moreover have "px_MaxBodyBytes (px_cfg ?p3) \<le> maxAlloc" using Cons.prems(3) s3 by (simp add: same_shape_def)
    ultimately show ?thesis using Cons.IH [OF i3] by blast
  qed (use Cons.prems(4) rl np in \<open>auto simp: Let_def\<close>)
qed auto

lemma exchange_returns:
  assumes "pool_inv p X" "px_MaxBodyBytes (px_cfg p) \<le> maxAlloc" "pick p = (Some cs, p1)"
  shows "fst (proxy_exchange ft p req w) = Returned"
proof (cases cs)
  case Nil
  then show ?thesis using assms(3) by (simp add: proxy_exchange_def)
next
  case (Cons c cs')
  let ?us = "take (nat (min (MaxAttempts (px_cfg p1)) (int (length cs)))) cs"
  obtain e w1 p2 where tr: "try_upstreams p1 ?us None req w = (e, w1, p2)" by (rule prod_cases3)
  have p1: "pool_inv p1 X" "ups p1 = ups p" "px_cfg p1 = px_cfg p"
    using pick_pool [OF assms(3), of X] assms(1) pick_inv [OF assms(3)] by auto
  have "\<forall>u \<in> set ?us. u < length (ups p1)"
    using pick_range [OF assms(3)] p1(2) by (auto dest: in_set_takeD)
  from try_upstreams_no_panic [OF p1(1) this _ tr] assms(2) p1(3) have "e \<noteq> AttemptPanicked" by simp
  then show ?thesis
    using assms(3) tr unfolding proxy_exchange_def Cons by (cases e) (simp_all add: Let_def)
qed

lemma go_rem_neg:
  assumes "v < 0" "0 < n"
  shows "v - go_div v n * n = - ((- v) mod n)"
proof -
  have "go_div v n = - ((- v) div n)" using assms by (simp add: go_div_def)
  then show ?thesis using div_mult_mod_eq [of "- v" n] by (simp only: mult_minus_left)
qed

lemma rotation_None:
  assumes "hs \<noteq> []" "- int (length hs) < s" "s < 0"
  shows "rotation s hs = None"
proof -
  have "(s + int 0) - go_div (s + int 0) (int (length hs)) * int (length hs) < 0"
    using assms by (simp add: go_rem_neg)
  moreover have "0 \<in> set [0..<length hs]" using assms(1) by simp
  ultimately have "list_ex (\<lambda>i. (s + int i) - go_div (s + int i) (int (length hs)) * int (length hs) < 0) [0..<length hs]"
    unfolding list_ex_iff by blast
  then show ?thesis by (simp only: rotation_def Let_def if_True)
qed

lemma pick_None:
  "fst (pick p) = None \<longleftrightarrow> px_Strategy (px_cfg p) \<noteq> LeastConnections \<and> healthy_ups p \<noteq> []
     \<and> sint (next_pick p) < 0 \<and> \<not> int (length (healthy_ups p)) dvd sint (next_pick p)"
proof (cases "px_Strategy (px_cfg p) = LeastConnections \<or> healthy_ups p = []")
  case True
  then show ?thesis by (auto simp: pick_def Let_def split: list.splits)
next
  case False
  then obtain h hs where hs: "healthy_ups p = h # hs" by (cases "healthy_ups p") auto
  let ?n = "int (length (h # hs))" and ?v = "sint (next_pick p)"
  have n: "0 < ?n" by simp
  have pk: "fst (pick p) = rotation (?v - go_div ?v ?n * ?n) (h # hs)"
    using False hs by (simp add: pick_def Let_def)
  show ?thesis
  proof (cases "0 \<le> ?v")
    case True
    with pk go_rem_nonneg [OF True n] rotation_nonneg [of "?v mod ?n" "h # hs"] n
    show ?thesis by (simp del: length_Cons)
  next
    case v: False
    let ?m = "(- ?v) mod ?n"
    have s: "?v - go_div ?v ?n * ?n = - ?m" using v n by (intro go_rem_neg) auto
    have m: "0 \<le> ?m" "?m < ?n" using n by (simp_all del: length_Cons)
    have d: "?n dvd ?v \<longleftrightarrow> ?m = 0" by (metis dvd_eq_mod_eq_0 dvd_minus_iff)
    show ?thesis
    proof (cases "?m = 0")
      case True
      then show ?thesis using pk s d rotation_nonneg [of 0 "h # hs"] hs False by simp
    next
      case neg: False
      have "rotation (- ?m) (h # hs) = None"
        by (rule rotation_None) (use neg m in \<open>simp_all only: neg_less_iff_less order_le_less, auto\<close>)
      then show ?thesis using pk s d neg v hs False by simp
    qed
  qed
qed

text \<open>
  The handler always returns: as long as the round-robin counter has not passed \<open>2\<^sup>6\<^sup>3\<close> and the
  relay cap is within one allocation, no behaviour of the upstreams makes it panic. Past that point
  it panics: the counter read as \<open>int\<close> is negative, and so is the first index, unless the number of
  healthy upstreams divides it.
\<close>

theorem proxy_panics_only_past_overflow:
  assumes "pool_inv p {#}" "px_MaxBodyBytes (px_cfg p) \<le> maxAlloc"
  shows "fst (proxy_exchange ft p req w) =
    (if px_Strategy (px_cfg p) \<noteq> LeastConnections \<and> healthy_ups p \<noteq> [] \<and> sint (next_pick p) < 0
        \<and> \<not> int (length (healthy_ups p)) dvd sint (next_pick p)
     then Panicked else Returned)"
proof -
  let ?bad = "px_Strategy (px_cfg p) \<noteq> LeastConnections \<and> healthy_ups p \<noteq> [] \<and> sint (next_pick p) < 0
        \<and> \<not> int (length (healthy_ups p)) dvd sint (next_pick p)"
  obtain cs p1 where pk: "pick p = (cs, p1)" by fastforce
  show ?thesis
  proof (cases cs)
    case None
    with pk pick_None [of p] have ?bad by simp
    with None pk show ?thesis by (simp add: proxy_exchange_def)
  next
    case (Some xs)
    with pk pick_None [of p] have "\<not> ?bad" by simp
    then show ?thesis using exchange_returns [OF assms] pk Some by (simp only: if_not_P) simp
  qed
qed

section \<open>Replays\<close>

text \<open>
  A request can reach an upstream twice, whatever its method. When the exchange on a
  parked connection breaks after the request was written (here: the upstream closes or stalls before
  the first byte of an answer), the same bytes are sent again on a fresh connection to the same
  upstream; nothing asks whether the first copy was carried out or whether the method is idempotent.
\<close>

theorem relay_replays:
  assumes "u < length (ups p)" "idle (ups p ! u) = c # cs"
    and "rp_write_ok (net_reply p (exchanges p))" "rp_data (net_reply p (exchanges p)) = []"
    and "net_dial p (dials p) (Addr (ups p ! u))"
  shows "sent (snd (snd (relay p u req w))) = sent p @ [(c, relay_request req), ((dials p, u), relay_request req)]"
proof -
  let ?p1 = "upd_up u (\<lambda>x. x\<lparr>idle := cs\<rparr>) p"
  have g: "getConn p u = (Some (c, True), ?p1)" using assms(2) by (simp add: getConn_def)
  have p1: "sent ?p1 = sent p" "dials ?p1 = dials p" "net_dial ?p1 = net_dial p"
    "net_reply ?p1 = net_reply p" "exchanges ?p1 = exchanges p" "Addr (ups ?p1 ! u) = Addr (ups p ! u)"
    using assms(1) by (simp_all add: upd_up_def)
  let ?p2 = "close_net c (?p1\<lparr>exchanges := Suc (exchanges ?p1), sent := sent ?p1 @ [(c, relay_request req)]\<rparr>)"
  have rc: "relayConn ?p1 c u req w = (RelayErr (ReadStatusFailed (rp_end (net_reply p (exchanges p)))), w, ?p2)"
    using assms(3,4) p1 by (simp add: relayConn_def Let_def relay_response_def relay_status_def ReadString_def)
  let ?p3 = "?p2\<lparr>dials := Suc (dials p), opened := opened ?p2 @ [(dials p, u)]\<rparr>"
  have d: "dial ?p2 u = (Some (dials p, u), ?p3)"
    using assms(5) p1 by (simp add: dial_def close_net_def)
  obtain r' w' q where rc2: "relayConn ?p3 (dials p, u) u req w = (r', w', q)" by (rule prod_cases3)
  have "relay p u req w = (r', w', q)" using relay_eq [OF g rc] d rc2 by simp
  with relayConn_facts(2) [OF rc2] p1(1) show ?thesis by (simp add: close_net_def)
qed

section \<open>Samples\<close>

lemma sample_pool_inv: "pool_inv (sample_pool s rep) {#}"
  by (auto simp: pool_inv_def conserved_def lots_ok_def parked_def less_Suc_eq numeral_3_eq_3)

lemma sample_healthy: "healthy_ups (sample_pool s rep) = [0, 1, 2]"
  by (simp add: healthy_ups_def numeral_3_eq_3)

lemma sample_pick: "pick (sample_pool RoundRobin rep) = (Some [0, 1, 2], (sample_pool RoundRobin rep)\<lparr>next_pick := 1\<rparr>)"
proof -
  have "rotation 0 [0, 1, 2] = Some [0, 1, 2 :: nat]" using rotation_nonneg [of 0 "[0, 1, 2 :: nat]"] by simp
  then show ?thesis by (simp add: pick_def sample_healthy Let_def go_div_def)
qed

definition pool_with_idle :: Pool where
  "pool_with_idle = (sample_pool RoundRobin silent)
     \<lparr>ups := [\<lparr>Addr = ''a:1'', healthy = True, active = 0, idle = [(0, 0)]\<rparr>], dials := 1, opened := [(0, 0)]\<rparr>"

theorem relay_replays_witness:
  "map fst (sent (snd (snd (relay pool_with_idle 0 (sample_request ''POST'' ''/pay'') NewResponseWriter))))
     = [(0, 0), (1, 0)]"
  using relay_replays [of 0 pool_with_idle "(0, 0)" "[]" "sample_request ''POST'' ''/pay''" NewResponseWriter]
  by (simp add: pool_with_idle_def silent_def)

theorem failover_witness:
  "\<exists>w' q. proxy_exchange (\<lambda>_ _. []) (sample_pool RoundRobin silent) (sample_request ''GET'' ''/'')
       NewResponseWriter = (Returned, w', q)
     \<and> (\<exists>failed rest. [0, 1, 2] = failed @ rest \<and> marked_down (sample_pool RoundRobin silent) q (set failed))"
proof -
  let ?p = "sample_pool RoundRobin silent"
  have "fst (proxy_exchange (\<lambda>_ _. []) ?p (sample_request ''GET'' ''/'') NewResponseWriter) = Returned"
    by (rule exchange_returns [OF sample_pool_inv _ sample_pick]) (simp add: maxAlloc_def)
  then obtain w' q where r: "proxy_exchange (\<lambda>_ _. []) ?p (sample_request ''GET'' ''/'') NewResponseWriter
      = (Returned, w', q)" by (metis prod_cases3 fst_conv)
  have "\<not> hijacked NewResponseWriter" by (simp add: NewResponseWriter_def)
  from failover [OF sample_pool_inv r sample_pick this] r show ?thesis
    by (simp add: numeral_3_eq_3) blast
qed

theorem proxy_panics_only_past_overflow_witness:
  "fst (proxy_exchange (\<lambda>_ _. []) ((sample_pool RoundRobin silent)\<lparr>next_pick := - 2\<rparr>) (sample_request ''GET'' ''/'')
       NewResponseWriter) = Panicked"
proof -
  let ?p = "(sample_pool RoundRobin silent)\<lparr>next_pick := - 2\<rparr>"
  have i: "pool_inv ?p {#}" using sample_pool_inv by (simp add: next_pick_inv)
  have h: "healthy_ups ?p = [0, 1, 2]" by (simp add: healthy_ups_def numeral_3_eq_3)
  have s: "sint (next_pick ?p) = - 2" by simp
  show ?thesis
    using proxy_panics_only_past_overflow [OF i, of "\<lambda>_ _. []" "sample_request ''GET'' ''/''" NewResponseWriter]
    unfolding h s by (simp add: maxAlloc_def)
qed

end
