(* ===== verification/Proxy_Races.thy ===== *)
theory Proxy_Races
  imports Proxy_Failover
begin

text \<open>
  \<open>proxy/proxy.go\<close> under concurrency. The handler runs in as many goroutines as there are requests,
  beside the health loop and \<open>Stop\<close>, and they share the pool without a lock: the channels of idle
  connections, the load counters, the health flags. A goroutine is a task; one \<open>turn\<close> of it is the
  code up to and including its next access to what is shared. A schedule says which task moves, so a
  theorem about all schedules is about all interleavings. Run without interruption, an exchange is the
  \<open>proxy_exchange\<close> of \<open>Proxy_Pool\<close>.
\<close>

section \<open>Tasks\<close>

text \<open>\<open>relayConn\<close> in its two halves: the exchange, and the deferred closure that parks or closes.\<close>

definition talk :: "Pool \<Rightarrow> net_conn \<Rightarrow> Request \<Rightarrow> ResponseWriter \<Rightarrow> relay_outcome \<times> ResponseWriter \<times> Pool" where
  "talk p c req w =
     (let rp = net_reply p (exchanges p);
          p = p\<lparr>exchanges := Suc (exchanges p), sent := sent p @ [(c, relay_request req)]\<rparr>
      in if \<not> rp_write_ok rp then (RelayErr WriteFailed, w, p)
         else (case relay_response (px_cfg p) \<lparr>rd_data = rp_data rp, rd_err = rp_end rp, rd_size = 4096\<rparr> w of
                 (r, w) \<Rightarrow> (r, w, p)))"

definition settle :: "Pool \<Rightarrow> nat \<Rightarrow> net_conn \<Rightarrow> relay_outcome \<Rightarrow> Pool" where
  "settle p u c r = (if r = RelayOk True then putConn p u c else close_net c p)"

record job =
  jb_attempts :: int
  jb_rest :: "nat list"
  jb_last :: "relay_error option"
  jb_req :: Request
  jb_w :: ResponseWriter

datatype proxy_task =
    Arrived Request ResponseWriter
  | Attempting job
  | Counted job nat
  | Holding job nat net_conn bool
  | Talked job nat net_conn bool relay_outcome
  | Redialing job nat
  | Failing job nat relay_error
  | Marking job nat relay_error
  | Answering job nat
  | Crashed job nat
  | Ended outcome Request ResponseWriter
  | Checking "nat list"
  | Checked nat "net_conn option" "nat list"
  | Stopping "nat list"

fun turn :: "(int \<Rightarrow> relay_error option \<Rightarrow> bytes) \<Rightarrow> Pool \<Rightarrow> proxy_task \<Rightarrow> Pool \<times> proxy_task" where
  "turn ft p (Arrived req w) =
     (case pick p of
        (None, p) \<Rightarrow> (p, Ended Panicked req w)
      | (Some [], p) \<Rightarrow>
          (p, Ended Returned req (w_Error (w_SetHeader w ''Retry-After'' ''2'') StatusServiceUnavailable ''no healthy upstreams''))
      | (Some candidates, p) \<Rightarrow>
          let attempts = min (MaxAttempts (px_cfg p)) (int (length candidates))
          in (p, Attempting \<lparr>jb_attempts = attempts, jb_rest = take (nat attempts) candidates, jb_last = None,
                             jb_req = req, jb_w = w\<rparr>))"
| "turn ft p (Attempting j) =
     (case jb_rest j of
        [] \<Rightarrow> (p, Ended Returned (jb_req j) (w_Error (jb_w j) StatusBadGateway (ft (jb_attempts j) (jb_last j))))
      | u # us \<Rightarrow> (upd_up u (\<lambda>x. x\<lparr>active := active x + 1\<rparr>) p, Counted (j\<lparr>jb_rest := us\<rparr>) u))"
| "turn ft p (Counted j u) =
     (case getConn p u of
        (None, p) \<Rightarrow> (p, Failing j u DialFailed)
      | (Some (c, reused), p) \<Rightarrow> (p, Holding j u c reused))"
| "turn ft p (Holding j u c reused) =
     (case talk p c (jb_req j) (jb_w j) of (r, w, p) \<Rightarrow> (p, Talked (j\<lparr>jb_w := w\<rparr>) u c reused r))"
| "turn ft p (Talked j u c reused r) =
     (settle p u c r,
      case r of
        RelayErr e \<Rightarrow> if reused then Redialing j u else Failing j u e
      | RelayOk _ \<Rightarrow> Answering j u
      | RelayPanic \<Rightarrow> Crashed j u)"
| "turn ft p (Redialing j u) =
     (case dial p u of
        (None, p) \<Rightarrow> (p, Failing j u StaleDialFailed)
      | (Some c, p) \<Rightarrow> (p, Holding j u c False))"
| "turn ft p (Failing j u e) = (upd_up u (\<lambda>x. x\<lparr>active := active x - 1\<rparr>) p, Marking j u e)"
| "turn ft p (Marking j u e) = (upd_up u (\<lambda>x. x\<lparr>healthy := False\<rparr>) p, Attempting (j\<lparr>jb_last := Some e\<rparr>))"
| "turn ft p (Answering j u) =
     (let p = upd_up u (\<lambda>x. x\<lparr>active := active x - 1\<rparr>) p
      in (p, Ended Returned (jb_req j) (w_SetHeader (jb_w j) ''X-Upstream'' (Addr (ups p ! u)))))"
| "turn ft p (Checking (u # us)) = (case dial p u of (d, p) \<Rightarrow> (p, Checked u d us))"
| "turn ft p (Checked u d us) =
     (case d of
        None \<Rightarrow> (upd_up u (\<lambda>x. x\<lparr>healthy := False\<rparr>) p, Checking us)
      | Some c \<Rightarrow> (upd_up u (\<lambda>x. x\<lparr>healthy := True\<rparr>) (close_net c p), Checking us))"
| "turn ft p (Stopping (u # us)) =
     (case idle (ups p ! u) of
        [] \<Rightarrow> (p, Stopping us)
      | c # cs \<Rightarrow> (close_net c (upd_up u (\<lambda>x. x\<lparr>idle := cs\<rparr>) p), Stopping (u # us)))"
| "turn ft p t = (p, t)"

text \<open>The goroutines that exist from the start of a request, of a health round and of \<open>Stop\<close>.\<close>

datatype event = Request_in Request ResponseWriter | HealthTick | StopCall | Turn nat

record proxy_run =
  ppool :: Pool
  ptasks :: "proxy_task list"

fun happen :: "(int \<Rightarrow> relay_error option \<Rightarrow> bytes) \<Rightarrow> proxy_run \<Rightarrow> event \<Rightarrow> proxy_run" where
  "happen ft s (Request_in req w) = s\<lparr>ptasks := ptasks s @ [Arrived req w]\<rparr>"
| "happen ft s HealthTick = s\<lparr>ptasks := ptasks s @ [Checking [0..<length (ups (ppool s))]]\<rparr>"
| "happen ft s StopCall = s\<lparr>ptasks := ptasks s @ [Stopping [0..<length (ups (ppool s))]]\<rparr>"
| "happen ft s (Turn i) =
     (if i < length (ptasks s)
      then (case turn ft (ppool s) (ptasks s ! i) of (p, t) \<Rightarrow> s\<lparr>ppool := p, ptasks := (ptasks s)[i := t]\<rparr>)
      else s)"

definition concurrently :: "(int \<Rightarrow> relay_error option \<Rightarrow> bytes) \<Rightarrow> Pool \<Rightarrow> event list \<Rightarrow> proxy_run" where
  "concurrently ft p es = foldl (happen ft) \<lparr>ppool = p, ptasks = []\<rparr> es"

lemmas race_defs [go_eval] = talk_def settle_def concurrently_def

section \<open>Connections and counters\<close>

text \<open>The connection a task holds, and the upstream whose load counter it has raised.\<close>

fun held :: "proxy_task \<Rightarrow> net_conn list" where
  "held (Holding j u c r) = [c]"
| "held (Talked j u c r e) = [c]"
| "held (Checked u (Some c) us) = [c]"
| "held _ = []"

fun counts :: "nat \<Rightarrow> proxy_task \<Rightarrow> int" where
  "counts v (Counted j u) = (if u = v then 1 else 0)"
| "counts v (Holding j u c r) = (if u = v then 1 else 0)"
| "counts v (Talked j u c r e) = (if u = v then 1 else 0)"
| "counts v (Redialing j u) = (if u = v then 1 else 0)"
| "counts v (Failing j u e) = (if u = v then 1 else 0)"
| "counts v (Answering j u) = (if u = v then 1 else 0)"
| "counts v (Crashed j u) = (if u = v then 1 else 0)"
| "counts _ _ = 0"

fun task_ok :: "nat \<Rightarrow> proxy_task \<Rightarrow> bool" where
  "task_ok n (Attempting j) = (set (jb_rest j) \<subseteq> {..<n})"
| "task_ok n (Counted j u) = (u < n \<and> set (jb_rest j) \<subseteq> {..<n})"
| "task_ok n (Holding j u c r) = (u < n \<and> snd c = u \<and> set (jb_rest j) \<subseteq> {..<n})"
| "task_ok n (Talked j u c r e) = (u < n \<and> snd c = u \<and> set (jb_rest j) \<subseteq> {..<n})"
| "task_ok n (Redialing j u) = (u < n \<and> set (jb_rest j) \<subseteq> {..<n})"
| "task_ok n (Failing j u e) = (u < n \<and> set (jb_rest j) \<subseteq> {..<n})"
| "task_ok n (Marking j u e) = (u < n \<and> set (jb_rest j) \<subseteq> {..<n})"
| "task_ok n (Answering j u) = (u < n)"
| "task_ok n (Crashed j u) = (u < n)"
| "task_ok n (Checking us) = (set us \<subseteq> {..<n})"
| "task_ok n (Checked u d us) = (u < n \<and> (\<forall>c \<in> set_option d. snd c = u) \<and> set us \<subseteq> {..<n})"
| "task_ok n (Stopping us) = (set us \<subseteq> {..<n})"
| "task_ok n _ = True"

definition actives :: "Pool \<Rightarrow> int list" where
  "actives p = map active (ups p)"

lemma actives_keep:
  "actives (close_net c p) = actives p" "actives (putConn p u c) = actives p" "actives (settle p u c r) = actives p"
  "dial p u = (d, q) \<Longrightarrow> actives q = actives p" "getConn p u = (cr, q) \<Longrightarrow> actives q = actives p"
  "talk p c req w = (r, w', q) \<Longrightarrow> actives q = actives p" "pick p = (cs, q) \<Longrightarrow> actives q = actives p"
  "(\<And>x. active (f x) = active x) \<Longrightarrow> actives (upd_up u f p) = actives p"
proof -
  show up: "actives (upd_up u f p) = actives p" if "\<And>x. active (f x) = active x" for u f p
    using that by (simp add: actives_def upd_up_def map_update_same)
  show close: "actives (close_net c p) = actives p" for c p by (simp add: actives_def close_net_def)
  show put: "actives (putConn p u c) = actives p" for p u c by (simp add: putConn_def up close)
  show "actives (settle p u c r) = actives p" by (simp add: settle_def put close)
  show dial: "actives q = actives p" if "dial p u = (d, q)" for d q
    using that by (auto simp: dial_def actives_def split: if_splits)
  show "actives q = actives p" if "getConn p u = (cr, q)"
    using that up dial by (auto simp: getConn_def split: list.splits prod.splits option.splits)
  show "talk p c req w = (r, w', q) \<Longrightarrow> actives q = actives p"
    by (auto simp: talk_def actives_def Let_def split: if_splits prod.splits)
  show "pick p = (cs, q) \<Longrightarrow> actives q = actives p"
    using pick_inv [of p cs q] by (auto simp: actives_def)
qed

lemma length_actives [simp]: "length (actives p) = length (ups p)"
  by (simp add: actives_def)

lemma actives_nth: "u < length (ups p) \<Longrightarrow> active (ups p ! u) = actives p ! u"
  by (simp add: actives_def)

lemma actives_upd:
  "actives (upd_up u (\<lambda>x. x\<lparr>active := active x + d\<rparr>) p) = (actives p)[u := actives p ! u + d]"
  "actives (upd_up u (\<lambda>x. x\<lparr>active := active x - d\<rparr>) p) = (actives p)[u := actives p ! u - d]"
  by (cases "u < length (ups p)"; simp add: actives_def upd_up_def map_update list_update_beyond)+

lemma talk_inv:
  assumes "talk p c req w = (r, w', q)"
  shows "(pool_inv q X \<longleftrightarrow> pool_inv p X) \<and> same_shape p q"
  using assms by (auto simp: talk_def Let_def exchange_inv split: if_splits prod.splits)

lemma settle_inv:
  assumes "pool_inv p (add_mset c X)" "u < length (ups p)" "snd c = u"
  shows "pool_inv (settle p u c r) X \<and> same_shape p (settle p u c r)"
  using putConn_inv [OF assms] close_net_inv [OF assms(1)] by (simp add: settle_def)

lemma receive_inv:
  assumes "pool_inv p X" "u < length (ups p)" "idle (ups p ! u) = c # cs"
  shows "pool_inv (close_net c (upd_up u (\<lambda>x. x\<lparr>idle := cs\<rparr>) p)) X
    \<and> same_shape p (close_net c (upd_up u (\<lambda>x. x\<lparr>idle := cs\<rparr>) p))"
proof -
  have "getConn p u = (Some (c, True), upd_up u (\<lambda>x. x\<lparr>idle := cs\<rparr>) p)" using assms(3) by (simp add: getConn_def)
  from getConn_inv [OF assms(1,2) this]
  have g: "pool_inv (upd_up u (\<lambda>x. x\<lparr>idle := cs\<rparr>) p) (add_mset c X)" "same_shape p (upd_up u (\<lambda>x. x\<lparr>idle := cs\<rparr>) p)"
    by simp_all
  then show ?thesis using close_net_inv [OF g(1)] same_shape_trans [OF g(2)] by blast
qed

text \<open>One turn keeps the books: the pool's, and the task's own.\<close>

definition turn_ok :: "Pool \<Rightarrow> proxy_task \<Rightarrow> net_conn multiset \<Rightarrow> Pool \<Rightarrow> proxy_task \<Rightarrow> bool" where
  "turn_ok p t X q t' \<longleftrightarrow> pool_inv q (mset (held t') + X) \<and> same_shape p q \<and> task_ok (length (ups p)) t'
     \<and> (\<forall>v < length (ups p). actives q ! v - counts v t' = actives p ! v - counts v t)"

lemma arrived_turn_keeps_books:
  assumes "pool_inv p (mset (held (Arrived req w)) + X)" "turn ft p (Arrived req w) = (q, t')"
  shows "turn_ok p (Arrived req w) X q t'"
proof -
  obtain cs p1 where pk: "pick p = (cs, p1)" by fastforce
  have "set (take k (c # cs')) \<subseteq> {..<length (ups p)}" if "cs = Some (c # cs')" for k c cs'
    using pick_range [OF pk [unfolded that]] by (fastforce dest: in_set_takeD)
  then show ?thesis
    using assms pk pick_pool [OF pk, of X] actives_keep(7) [OF pk]
    by (auto simp: turn_ok_def Let_def split: option.splits list.splits)
qed

text \<open>The turns that only move a load counter or a mark.\<close>

lemma counter_turn_keeps_books:
  assumes "pool_inv p (mset (held t) + X)" "task_ok (length (ups p)) t" "turn ft p t = (q, t')"
    and "(\<exists>j. t = Attempting j) \<or> (\<exists>j u e. t = Failing j u e) \<or> (\<exists>j u e. t = Marking j u e) \<or> (\<exists>j u. t = Answering j u)"
  shows "turn_ok p t X q t'"
  using assms(4,1-3)
  by (elim disjE exE)
    (auto simp: turn_ok_def Let_def upd_up_inv upd_up_shape actives_upd actives_keep(8) nth_list_update split: list.splits)

lemma check_turn_keeps_books:
  assumes "pool_inv p (mset (held (Checking us)) + X)" "task_ok (length (ups p)) (Checking us)"
    "turn ft p (Checking us) = (q, t')"
  shows "turn_ok p (Checking us) X q t'"
proof (cases us)
  case (Cons u us')
  obtain d p1 where d: "dial p u = (d, p1)" by fastforce
  show ?thesis
    using assms Cons d dial_inv [OF _ d, of X] actives_keep(4) [OF d]
    by (cases d) (auto simp: turn_ok_def)
qed (use assms in \<open>auto simp: turn_ok_def\<close>)

lemma checked_turn_keeps_books:
  assumes "pool_inv p (mset (held (Checked u d us)) + X)" "task_ok (length (ups p)) (Checked u d us)"
    "turn ft p (Checked u d us) = (q, t')"
  shows "turn_ok p (Checked u d us) X q t'"
proof (cases d)
  case None
  then show ?thesis using assms by (auto simp: turn_ok_def upd_up_inv upd_up_shape actives_keep(8))
next
  case (Some c)
  have "pool_inv (close_net c p) X \<and> same_shape p (close_net c p)"
    using assms(1) Some by (intro close_net_inv) simp
  then show ?thesis
    using assms Some same_shape_trans [OF _ upd_up_shape]
    by (auto simp: turn_ok_def upd_up_inv actives_keep(1,8))
qed

lemma stop_turn_keeps_books:
  assumes "pool_inv p (mset (held (Stopping us)) + X)" "task_ok (length (ups p)) (Stopping us)"
    "turn ft p (Stopping us) = (q, t')"
  shows "turn_ok p (Stopping us) X q t'"
proof (cases us)
  case (Cons u us')
  show ?thesis
    using assms Cons receive_inv [of p X u] actives_keep(1,8)
    by (auto simp: turn_ok_def split: list.splits)
qed (use assms in \<open>auto simp: turn_ok_def\<close>)

lemma turn_keeps_books:
  assumes "pool_inv p (mset (held t) + X)" "task_ok (length (ups p)) t" "turn ft p t = (q, t')"
  shows "turn_ok p t X q t'"
proof (cases t)
  case (Counted j u)
  obtain cr p1 where g: "getConn p u = (cr, p1)" by fastforce
  show ?thesis
    using assms Counted g getConn_inv [OF _ _ g, of X] actives_keep(5) [OF g]
    by (auto simp: turn_ok_def split: option.splits prod.splits)
next
  case (Holding j u c reused)
  obtain r w1 p1 where tk: "talk p c (jb_req j) (jb_w j) = (r, w1, p1)" by (rule prod_cases3)
  show ?thesis
    using assms Holding tk talk_inv [OF tk, of "add_mset c X"] actives_keep(6) [OF tk]
    by (auto simp: turn_ok_def)
next
  case (Talked j u c reused r)
  show ?thesis
    using assms Talked settle_inv [of p c X u r] actives_keep(3) [of p u c r]
    by (auto simp: turn_ok_def split: relay_outcome.splits if_splits)
next
  case (Redialing j u)
  obtain d p1 where d: "dial p u = (d, p1)" by fastforce
  show ?thesis
    using assms Redialing d dial_inv [OF _ d, of X] actives_keep(4) [OF d]
    by (auto simp: turn_ok_def split: option.splits)
next
  case (Arrived req w)
  with assms show ?thesis using arrived_turn_keeps_books by blast
next
  case (Checking us)
  with assms show ?thesis using check_turn_keeps_books by blast
next
  case (Checked u d us)
  with assms show ?thesis using checked_turn_keeps_books by blast
next
  case (Stopping us)
  with assms show ?thesis using stop_turn_keeps_books by blast
qed (use assms counter_turn_keeps_books [OF assms] in \<open>auto simp: turn_ok_def\<close>)

definition race_inv :: "nat \<Rightarrow> proxy_run \<Rightarrow> bool" where
  "race_inv n s \<longleftrightarrow> length (ups (ppool s)) = n
     \<and> pool_inv (ppool s) (mset (concat (map held (ptasks s))))
     \<and> (\<forall>t \<in> set (ptasks s). task_ok n t)
     \<and> (\<forall>u < n. actives (ppool s) ! u = (\<Sum>t \<leftarrow> ptasks s. counts u t))"

lemma concat_map_held_split:
  assumes "i < length ts"
  shows "\<exists>X. mset (concat (map held ts)) = mset (held (ts ! i)) + X"
proof -
  have "ts = take i ts @ ts ! i # drop (Suc i) ts" using assms by (rule id_take_nth_drop)
  then have "mset (concat (map held ts)) = mset (concat (map held (take i ts @ ts ! i # drop (Suc i) ts)))" by simp
  then show ?thesis
    by (intro exI [of _ "mset (concat (map held (take i ts))) + mset (concat (map held (drop (Suc i) ts)))"]) simp
qed

lemma race_inv_turn:
  assumes "race_inv n s" "i < length (ptasks s)"
  shows "race_inv n (happen ft s (Turn i))"
proof -
  let ?ts = "ptasks s" and ?t = "ptasks s ! i"
  obtain q t' where t: "turn ft (ppool s) ?t = (q, t')" by fastforce
  obtain X where X: "mset (concat (map held ?ts)) = mset (held ?t) + X"
    using assms(2) by (metis concat_map_held_split)
  have "mset (concat (map held (?ts[i := t']))) = mset (held t') + X"
    using mset_concat_update [OF assms(2), of held t'] X by simp
  moreover have "turn_ok (ppool s) ?t X q t'"
    using assms X t by (intro turn_keeps_books) (auto simp: race_inv_def)
  ultimately show ?thesis
    using assms t unfolding race_inv_def turn_ok_def
    by (auto simp: same_shape_length sum_list_exchange dest: set_update_subset_insert [THEN subsetD])
qed

lemma race_inv_happen: "race_inv n s \<Longrightarrow> race_inv n (happen ft s e)"
proof (cases e)
  case (Turn i)
  assume "race_inv n s"
  then show ?thesis using race_inv_turn [of n s i ft] Turn by (cases "i < length (ptasks s)") auto
qed (auto simp: race_inv_def)

lemma race_inv_start:
  assumes "NewPool cfg addrs dl rep = Some p" "addrs \<noteq> []"
  shows "race_inv (length addrs) \<lparr>ppool = p, ptasks = []\<rparr> \<and> 0 \<le> PoolSize (px_cfg p)"
  using NewPool_inv [OF assms(1)] assms
  by (auto simp: race_inv_def NewPool_def Let_def actives_def split: if_splits)

lemma race_inv_run: "race_inv n s \<Longrightarrow> race_inv n (foldl (happen ft) s es)"
  by (induction es arbitrary: s) (simp_all add: race_inv_happen)

lemma cfg_happen: "race_inv n s \<Longrightarrow> px_cfg (ppool (happen ft s e)) = px_cfg (ppool s)"
proof (cases e)
  case (Turn i)
  assume inv: "race_inv n s"
  show ?thesis
  proof (cases "i < length (ptasks s)")
    case True
    obtain q t' where t: "turn ft (ppool s) (ptasks s ! i) = (q, t')" by fastforce
    obtain X where "mset (concat (map held (ptasks s))) = mset (held (ptasks s ! i)) + X"
      using concat_map_held_split [OF True] by blast
    then have "turn_ok (ppool s) (ptasks s ! i) X q t'"
      using inv True t by (intro turn_keeps_books) (auto simp: race_inv_def)
    then show ?thesis using t True Turn by (simp add: turn_ok_def same_shape_def)
  qed (simp add: Turn)
qed simp_all

lemma cfg_run: "race_inv n s \<Longrightarrow> px_cfg (ppool (foldl (happen ft) s es)) = px_cfg (ppool s)"
  by (induction es arbitrary: s) (simp_all add: race_inv_happen cfg_happen)

text \<open>
  C17. No connection is ever shared, lost or misdirected, and the load counters are exact, in every
  interleaving of requests, health rounds and calls of \<open>Stop\<close> on a new pool. At each moment every
  connection ever opened is at exactly one place: in the hands of one goroutine, parked at the upstream
  it leads to (never more than \<open>PoolSize\<close> of them), or closed; and the counter that the
  least-connections strategy compares is the number of goroutines that are busy with that upstream.
\<close>

theorem pool_race_free:
  assumes "NewPool cfg addrs dl rep = Some p0" "addrs \<noteq> []" "s = concurrently ft p0 es"
  shows "mset (opened (ppool s)) =
      mset (concat (map held (ptasks s)) @ concat (map idle (ups (ppool s))) @ closed_conns (ppool s))
    \<and> distinct (concat (map held (ptasks s)) @ concat (map idle (ups (ppool s))) @ closed_conns (ppool s))
    \<and> (\<forall>u < length addrs. (\<forall>c \<in> set (idle (ups (ppool s) ! u)). snd c = u)
          \<and> int (length (idle (ups (ppool s) ! u))) \<le> PoolSize (px_cfg (ppool s))
          \<and> active (ups (ppool s) ! u) = (\<Sum>t \<leftarrow> ptasks s. counts u t))"
proof -
  note start = race_inv_start [OF assms(1,2)]
  have inv: "race_inv (length addrs) s"
    using race_inv_run start unfolding assms(3) concurrently_def by blast
  have "px_cfg (ppool s) = px_cfg p0" using cfg_run start unfolding assms(3) concurrently_def by fastforce
  then have cap: "max 0 (PoolSize (px_cfg (ppool s))) = PoolSize (px_cfg (ppool s))" using start by simp
  have m: "mset (opened (ppool s)) =
      mset (concat (map held (ptasks s)) @ concat (map idle (ups (ppool s))) @ closed_conns (ppool s))"
    and d: "distinct (opened (ppool s))"
    using inv by (simp_all add: race_inv_def pool_inv_def conserved_def parked_def ac_simps)
  have "distinct (concat (map held (ptasks s)) @ concat (map idle (ups (ppool s))) @ closed_conns (ppool s))"
    using d mset_eq_imp_distinct_iff [OF m] by blast
  moreover have "\<forall>u < length addrs. (\<forall>c \<in> set (idle (ups (ppool s) ! u)). snd c = u)
      \<and> int (length (idle (ups (ppool s) ! u))) \<le> PoolSize (px_cfg (ppool s))
      \<and> active (ups (ppool s) ! u) = (\<Sum>t \<leftarrow> ptasks s. counts u t)"
    using inv cap by (auto simp: race_inv_def pool_inv_def lots_ok_def actives_nth)
  ultimately show ?thesis using m by blast
qed

section \<open>An exchange on its own is the handler\<close>

definition turns :: "(int \<Rightarrow> relay_error option \<Rightarrow> bytes) \<Rightarrow> nat \<Rightarrow> Pool \<times> proxy_task \<Rightarrow> Pool \<times> proxy_task" where
  "turns ft k = ((\<lambda>(p, t). turn ft p t) ^^ k)"

lemma turns_0: "turns ft 0 pt = pt"
  by (simp add: turns_def)

lemma turns_Suc: "turns ft (Suc k) (p, t) = turns ft k (turn ft p t)"
  by (simp add: turns_def funpow_swap1)

lemma turns_add: "turns ft (k + l) pt = turns ft l (turns ft k pt)"
  by (simp add: turns_def funpow_add add.commute [of k])

lemma turns_snoc: "turns ft k pt = (p, t) \<Longrightarrow> turns ft (Suc k) pt = turn ft p t"
  by (simp add: turns_def)

lemma relayConn_split:
  "relayConn p c u req w = (case talk p c req w of (r, w, p) \<Rightarrow> (r, w, settle p u c r))"
  by (auto simp: relayConn_def talk_def settle_def Let_def split: prod.split relay_outcome.split bool.split)

text \<open>Where the code goes on after \<open>relay\<close>.\<close>

definition after_relay :: "job \<Rightarrow> nat \<Rightarrow> relay_outcome \<Rightarrow> proxy_task" where
  "after_relay j u r = (case r of RelayErr e \<Rightarrow> Failing j u e | RelayOk _ \<Rightarrow> Answering j u | RelayPanic \<Rightarrow> Crashed j u)"

lemma relay_turns:
  assumes "relay p u (jb_req j) (jb_w j) = (r, w, q)"
  shows "\<exists>k. turns ft k (p, Counted j u) = (q, after_relay (j\<lparr>jb_w := w\<rparr>) u r)"
proof -
  have hold: "turns ft 2 (p, Holding j u c False) = (q, after_relay (j\<lparr>jb_w := w\<rparr>) u r)"
    if "relayConn p c u (jb_req j) (jb_w j) = (r, w, q)" for p j c q
    using that by (auto simp: relayConn_split numeral_2_eq_2 turns_Suc turns_0 after_relay_def
        split: prod.splits relay_outcome.splits)
  obtain cr p1 where g: "getConn p u = (cr, p1)" by fastforce
  show ?thesis
  proof (cases cr)
    case None
    then have "turns ft 1 (p, Counted j u) = (q, after_relay (j\<lparr>jb_w := w\<rparr>) u r)"
      using assms g by (auto simp: relay_def turns_Suc turns_0 after_relay_def)
    then show ?thesis by blast
  next
    case (Some cb)
    then obtain c reused where cb: "cr = Some (c, reused)" by (cases cb) auto
    have t1: "turn ft p (Counted j u) = (p1, Holding j u c reused)" using g cb by simp
    obtain r1 w1 p2 where rc: "relayConn p1 c u (jb_req j) (jb_w j) = (r1, w1, p2)" by (rule prod_cases3)
    note req = relay_eq [OF g [unfolded cb] rc]
    show ?thesis
    proof (cases "reused \<and> (\<exists>e. r1 = RelayErr e)")
      case False
      then have "turns ft 2 (p1, Holding j u c reused) = (q, after_relay (j\<lparr>jb_w := w\<rparr>) u r)"
        using req assms rc
        by (auto simp: relayConn_split numeral_2_eq_2 turns_Suc turns_0 after_relay_def
            split: prod.splits relay_outcome.splits)
      then show ?thesis using t1 by (intro exI [of _ "Suc 2"]) (simp only: turns_Suc)
    next
      case True
      then have t2: "turns ft 2 (p1, Holding j u c reused) = (p2, Redialing (j\<lparr>jb_w := w1\<rparr>) u)"
        using rc by (auto simp: relayConn_split numeral_2_eq_2 turns_Suc turns_0 split: prod.splits)
      obtain d p3 where d: "dial p2 u = (d, p3)" by fastforce
      show ?thesis
      proof (cases d)
        case None
        then have "turns ft 1 (p2, Redialing (j\<lparr>jb_w := w1\<rparr>) u) = (q, after_relay (j\<lparr>jb_w := w\<rparr>) u r)"
          using req True assms d by (simp add: turns_Suc turns_0 after_relay_def)
        then show ?thesis using t1 t2
          by (intro exI [of _ "Suc (2 + 1)"]) (simp only: turns_Suc turns_add)
      next
        case (Some c')
        then have "turn ft p2 (Redialing (j\<lparr>jb_w := w1\<rparr>) u) = (p3, Holding (j\<lparr>jb_w := w1\<rparr>) u c' False)"
          using d by simp
        moreover have "turns ft 2 (p3, Holding (j\<lparr>jb_w := w1\<rparr>) u c' False) = (q, after_relay (j\<lparr>jb_w := w\<rparr>) u r)"
          using hold [of p3 c' "j\<lparr>jb_w := w1\<rparr>" q] req True assms d Some by simp
        ultimately show ?thesis using t1 t2
          by (intro exI [of _ "Suc (2 + Suc 2)"]) (simp only: turns_Suc turns_add)
      qed
    qed
  qed
qed

text \<open>How a task ended, for the server: with its response, or with a panic.\<close>

fun verdict :: "proxy_task \<Rightarrow> (outcome \<times> ResponseWriter) option" where
  "verdict (Ended ou req w) = Some (ou, w)"
| "verdict (Crashed j u) = Some (Panicked, jb_w j)"
| "verdict _ = None"

lemma try_turns:
  assumes "try_upstreams p (jb_rest j) (jb_last j) (jb_req j) (jb_w j) = (e, w, q)"
  shows "\<exists>k t. turns ft k (p, Attempting j) = (q, t) \<and>
    (case e of
       Answered \<Rightarrow> verdict t = Some (Returned, w)
     | AllFailed l \<Rightarrow> t = Attempting (j\<lparr>jb_rest := [], jb_last := l, jb_w := w\<rparr>)
     | AttemptPanicked \<Rightarrow> verdict t = Some (Panicked, w))"
  using assms
proof (induction "jb_rest j" arbitrary: j p)
  case Nil
  then have "turns ft 0 (p, Attempting j) = (q, Attempting (j\<lparr>jb_rest := [], jb_last := jb_last j, jb_w := w\<rparr>))"
    "e = AllFailed (jb_last j)"
    by (cases j; simp add: turns_0)+
  then show ?case by (intro exI [of _ "0::nat"]) simp
next
  case (Cons u us)
  let ?j = "j\<lparr>jb_rest := us\<rparr>" and ?p = "upd_up u (\<lambda>x. x\<lparr>active := active x + 1\<rparr>) p"
  obtain r w1 p1 where r: "relay ?p u (jb_req ?j) (jb_w ?j) = (r, w1, p1)" by (rule prod_cases3)
  then obtain k where "turns ft k (?p, Counted ?j u) = (p1, after_relay (?j\<lparr>jb_w := w1\<rparr>) u r)"
    using relay_turns by blast
  moreover have "turn ft p (Attempting j) = (?p, Counted ?j u)" using Cons.hyps(2) [symmetric] by simp
  ultimately have k: "turns ft (Suc k) (p, Attempting j) = (p1, after_relay (?j\<lparr>jb_w := w1\<rparr>) u r)"
    by (simp only: turns_Suc)
  let ?p1 = "upd_up u (\<lambda>x. x\<lparr>active := active x - 1\<rparr>) p1"
  show ?case
  proof (cases r)
    case (RelayOk b)
    then have "turns ft (Suc (Suc k)) (p, Attempting j) =
        (?p1, Ended Returned (jb_req j) (w_SetHeader w1 ''X-Upstream'' (Addr (ups ?p1 ! u))))"
      using turns_snoc [OF k] by (simp add: after_relay_def Let_def)
    moreover have "e = Answered" "q = ?p1" "w = w_SetHeader w1 ''X-Upstream'' (Addr (ups ?p1 ! u))"
      using Cons.prems r RelayOk unfolding Cons.hyps(2) [symmetric] by (auto simp: Let_def)
    ultimately show ?thesis by (intro exI [of _ "Suc (Suc k)"]) auto
  next
    case RelayPanic
    then have "e = AttemptPanicked" "q = p1" "w = w1"
      using Cons.prems r unfolding Cons.hyps(2) [symmetric] by (simp_all add: Let_def)
    then show ?thesis using k RelayPanic by (intro exI [of _ "Suc k"]) (auto simp: after_relay_def)
  next
    case (RelayErr x)
    let ?p2 = "upd_up u (\<lambda>x. x\<lparr>healthy := False\<rparr>) ?p1"
    let ?j2 = "?j\<lparr>jb_w := w1, jb_last := Some x\<rparr>"
    have "turns ft 2 (p1, Failing (?j\<lparr>jb_w := w1\<rparr>) u x) = (?p2, Attempting ?j2)"
      by (simp add: numeral_2_eq_2 turns_Suc turns_0)
    then have k2: "turns ft (Suc k + 2) (p, Attempting j) = (?p2, Attempting ?j2)"
      using k RelayErr by (simp only: turns_add after_relay_def relay_outcome.case)
    have "try_upstreams ?p2 (jb_rest ?j2) (jb_last ?j2) (jb_req ?j2) (jb_w ?j2) = (e, w, q)"
      using Cons.prems r RelayErr unfolding Cons.hyps(2) [symmetric] by (simp add: Let_def)
    from Cons.hyps(1) [OF _ this] obtain l t where
      l: "turns ft l (?p2, Attempting ?j2) = (q, t)" and
      t: "case e of Answered \<Rightarrow> verdict t = Some (Returned, w)
        | AllFailed l \<Rightarrow> t = Attempting (?j2\<lparr>jb_rest := [], jb_last := l, jb_w := w\<rparr>)
        | AttemptPanicked \<Rightarrow> verdict t = Some (Panicked, w)" by auto
    have "turns ft (Suc k + 2 + l) (p, Attempting j) = (q, t)" using k2 l by (simp only: turns_add)
    then show ?thesis using t by (intro exI [of _ "Suc k + 2 + l"]) (auto split: attempts_end.splits)
  qed
qed


section \<open>Every exchange ends\<close>

text \<open>The turns an exchange can still take, in a pool of \<open>n\<close> upstreams.\<close>

fun turns_left :: "nat \<Rightarrow> proxy_task \<Rightarrow> nat" where
  "turns_left n (Arrived req w) = 9 * n + 2"
| "turns_left n (Attempting j) = 9 * length (jb_rest j) + 1"
| "turns_left n (Counted j u) = 9 * length (jb_rest j) + 9"
| "turns_left n (Holding j u c reused) = 9 * length (jb_rest j) + (if reused then 8 else 5)"
| "turns_left n (Talked j u c reused r) = 9 * length (jb_rest j) + (if reused then 7 else 4)"
| "turns_left n (Redialing j u) = 9 * length (jb_rest j) + 6"
| "turns_left n (Failing j u e) = 9 * length (jb_rest j) + 3"
| "turns_left n (Marking j u e) = 9 * length (jb_rest j) + 2"
| "turns_left n (Answering j u) = 1"
| "turns_left n _ = 0"

fun exchanging :: "proxy_task \<Rightarrow> bool" where
  "exchanging (Checking _) = False"
| "exchanging (Checked _ _ _) = False"
| "exchanging (Stopping _) = False"
| "exchanging _ = True"

lemma pick_length:
  assumes "pick p = (Some cs, q)"
  shows "length cs \<le> length (ups p)"
proof -
  have h: "length (healthy_ups p) \<le> length (ups p)"
    using length_filter_le [of "\<lambda>u. healthy (ups p ! u)" "[0..<length (ups p)]"] by (simp add: healthy_ups_def)
  show ?thesis
  proof (cases "healthy_ups p")
    case Nil
    then show ?thesis using assms by (simp add: pick_def)
  next
    case (Cons x xs)
    let ?l = "least_active p x xs"
    have "length (filter (\<lambda>u. u \<noteq> ?l) (x # xs)) < length (x # xs)"
      using least_active_props [of p x xs] by (intro length_filter_less [of ?l]) auto
    then show ?thesis
      using assms Cons h by (auto simp: pick_def Let_def rotation_def split: if_splits)
  qed
qed

lemma turn_progress:
  assumes "exchanging t" "length (ups p) = n" "turn ft p t = (q, t')"
  shows "exchanging t' \<and> (turns_left n t' < turns_left n t \<or> verdict t \<noteq> None \<and> t' = t)"
proof (cases t)
  case (Arrived req w)
  obtain cs p1 where pk: "pick p = (cs, p1)" by fastforce
  show ?thesis
  proof (cases "cs = None \<or> cs = Some []")
    case True
    then show ?thesis using assms Arrived pk by auto
  next
    case False
    then obtain c cs' where cs: "cs = Some (c # cs')" by (metis list.exhaust option.exhaust)
    have "length (take k (c # cs')) \<le> n" for k using pick_length [OF pk [unfolded cs]] assms(2) by simp
    then show ?thesis using assms(3) Arrived pk cs by (auto simp: Let_def less_Suc_eq_le simp del: length_take)
  qed
next
  case (Counted j u)
  then show ?thesis using assms by (auto split: prod.splits option.splits)
qed (use assms in \<open>auto simp: Let_def split: prod.splits option.splits list.splits relay_outcome.splits if_splits\<close>)

lemma no_turns_left: "exchanging t \<Longrightarrow> turns_left n t = 0 \<Longrightarrow> verdict t \<noteq> None"
  by (cases t) (auto split: if_splits)

lemma verdict_stays: "verdict t \<noteq> None \<Longrightarrow> turn ft p t = (p, t)"
  by (cases t) simp_all

lemma happen_other:
  "i < length (ptasks s) \<Longrightarrow> e \<noteq> Turn i \<Longrightarrow> i < length (ptasks (happen ft s e)) \<and> ptasks (happen ft s e) ! i = ptasks s ! i"
  by (cases e) (auto simp: nth_append split: prod.splits)

lemma turns_run_out:
  assumes "race_inv n s" "i < length (ptasks s)" "exchanging (ptasks s ! i)"
  shows "exchanging (ptasks (foldl (happen ft) s es) ! i) \<and>
    (verdict (ptasks (foldl (happen ft) s es) ! i) \<noteq> None
     \<or> turns_left n (ptasks (foldl (happen ft) s es) ! i) + count_list es (Turn i) \<le> turns_left n (ptasks s ! i))"
  using assms
proof (induction es arbitrary: s)
  case (Cons e es)
  let ?s = "happen ft s e"
  have inv: "race_inv n ?s" using Cons.prems(1) by (rule race_inv_happen)
  show ?case
  proof (cases "e = Turn i")
    case False
    then show ?thesis using Cons.IH [of ?s] happen_other [OF Cons.prems(2) False, of ft] Cons.prems(3) inv by simp
  next
    case True
    obtain q t' where t: "turn ft (ppool s) (ptasks s ! i) = (q, t')" by fastforce
    have n: "length (ups (ppool s)) = n" using Cons.prems(1) by (simp add: race_inv_def)
    have s': "ptasks ?s ! i = t'" "i < length (ptasks ?s)" using True t Cons.prems(2) by simp_all
    note pr = turn_progress [OF Cons.prems(3) n t]
    have IH: "exchanging (ptasks (foldl (happen ft) ?s es) ! i) \<and>
      (verdict (ptasks (foldl (happen ft) ?s es) ! i) \<noteq> None
       \<or> turns_left n (ptasks (foldl (happen ft) ?s es) ! i) + count_list es (Turn i) \<le> turns_left n t')"
      using Cons.IH [OF inv s'(2)] pr s'(1) by simp
    show ?thesis
    proof (cases "verdict (ptasks s ! i)")
      case None
      then show ?thesis using IH pr True by auto
    next
      case (Some v)
      have "turns_left n t' = 0" using pr t verdict_stays [of "ptasks s ! i" ft "ppool s"] Some by (cases t') auto
      moreover have "turns_left n (ptasks (foldl (happen ft) ?s es) ! i) + count_list es (Turn i) \<le> 0
          \<Longrightarrow> verdict (ptasks (foldl (happen ft) ?s es) ! i) \<noteq> None"
        using IH no_turns_left by auto
      ultimately show ?thesis using IH by auto
    qed
  qed
qed simp

text \<open>
  C19. Every request is answered. In a pool of \<open>n\<close> upstreams an exchange is over after at most
  \<open>9 * n + 2\<close> turns of its own, whatever the other goroutines do in between and whatever the
  network brings (each network operation having its deadline): it cannot be kept waiting for a connection.
\<close>

theorem exchange_ends:
  assumes "NewPool cfg addrs dl rep = Some p0" "addrs \<noteq> []" "s = concurrently ft p0 es"
    and "i < length (ptasks s)" "ptasks s ! i = Arrived req w"
    and "9 * length addrs + 2 \<le> count_list es' (Turn i)"
  shows "verdict (ptasks (concurrently ft p0 (es @ es')) ! i) \<noteq> None"
proof -
  have inv: "race_inv (length addrs) s"
    using race_inv_run race_inv_start [OF assms(1,2)] unfolding assms(3) concurrently_def by blast
  have s: "concurrently ft p0 (es @ es') = foldl (happen ft) s es'" using assms(3) by (simp add: concurrently_def)
  from turns_run_out [OF inv assms(4), of ft es'] assms(5,6)
  have "exchanging (ptasks (foldl (happen ft) s es') ! i)"
    and "verdict (ptasks (foldl (happen ft) s es') ! i) \<noteq> None \<or> turns_left (length addrs) (ptasks (foldl (happen ft) s es') ! i) = 0"
    by auto
  then show ?thesis unfolding s using no_turns_left by blast
qed

section \<open>Stop does not stop everything\<close>

definition ok_reply :: "nat \<Rightarrow> reply" where
  "ok_reply n = \<lparr>rp_write_ok = True, rp_data = ''HTTP/1.1 200 OK'' @ CRLF @ ''Content-Length: 0'' @ CRLF @ CRLF,
     rp_end = NetTimeout\<rparr>"

lemma ok_response:
  assumes "px_MaxBodyBytes cfg = 8 * 2 ^ 20"
  shows "relay_response cfg \<lparr>rd_data = rp_data (ok_reply n), rd_err = rp_end (ok_reply n), rd_size = 4096\<rparr> w
       = (RelayOk True, w_SetBody (w_WriteHeader w 200) [])"
proof -
  let ?r = "\<lparr>rd_data = ''Content-Length: 0'' @ CRLF @ CRLF, rd_err = NetTimeout, rd_size = 4096\<rparr>"
  have "relay_status \<lparr>rd_data = ''HTTP/1.1 200 OK'' @ CRLF @ ''Content-Length: 0'' @ CRLF @ CRLF, rd_err = NetTimeout, rd_size = 4096\<rparr>
      = Inr (200, ?r)" by code_simp
  moreover have "relay_headers ?r (- 1) [] = Inr (0, [], ?r\<lparr>rd_data := []\<rparr>)"
    by (simp add: go_eval relay_headers.simps)
  moreover have "relay_body cfg (?r\<lparr>rd_data := []\<rparr>) 0 = (RelayOk True, [])"
    using assms by (simp add: relay_body_def make_panics_def ReadFull_def maxAlloc_def)
  ultimately show ?thesis by (simp add: relay_response_def ok_reply_def)
qed

text \<open>
  \<open>Stop\<close> does not wait for the exchanges in flight, and they can park their connection after it has
  emptied the lots: here the only exchange and \<open>Stop\<close> have both ended, and a connection is left open in
  the stopped pool, which nothing will close any more.
\<close>

theorem Stop_leaves_connection:
  "let s = concurrently (\<lambda>_ _. []) (sample_pool RoundRobin ok_reply)
         [Request_in (sample_request ''GET'' ''/'') NewResponseWriter, Turn 0, Turn 0, Turn 0, Turn 0,
          StopCall, Turn 1, Turn 1, Turn 1, Turn 0, Turn 0]
   in (\<exists>w. ptasks s = [Ended Returned (sample_request ''GET'' ''/'') w, Stopping []])
      \<and> opened (ppool s) = [(0, 0)] \<and> closed_conns (ppool s) = [] \<and> idle (ups (ppool s) ! 0) = [(0, 0)]"
proof -
  let ?r = "sample_request ''GET'' ''/''" and ?ft = "\<lambda>_ _. []"
  let ?p = "sample_pool RoundRobin ok_reply"
  have talk: "talk p c req w = (RelayOk True, w_SetBody (w_WriteHeader w 200) [],
      p\<lparr>exchanges := Suc (exchanges p), sent := sent p @ [(c, relay_request req)]\<rparr>)"
    if "net_reply p = ok_reply" "px_MaxBodyBytes (px_cfg p) = 8 * 2 ^ 20" for p c req w
  proof -
    have "rp_write_ok (ok_reply n)" for n by (simp add: ok_reply_def)
    then show ?thesis
      using ok_response [of "px_cfg p" "exchanges p" w] that by (simp add: talk_def Let_def)
  qed
  show ?thesis
    by (simp add: concurrently_def sample_pick talk numeral_3_eq_3 upd_up_def getConn_def dial_def settle_def
        putConn_def Let_def)
qed

section \<open>Examples\<close>

lemma sample_pool_new:
  "NewPool (DefaultPoolConfig\<lparr>px_Strategy := RoundRobin\<rparr>) [''a:1'', ''b:2'', ''c:3''] (\<lambda>_ _. True) rep
     = Some (sample_pool RoundRobin rep)"
  by (simp add: sample_pool_def NewPool_def Let_def make_chan_panics_def maxAlloc_def
      pool_withDefaults_def DefaultPoolConfig_def)

text \<open>A request that holds the connection it dialled, while the pool is being stopped.\<close>

lemma pool_race_free_witness:
  "let s = concurrently (\<lambda>_ _. []) (sample_pool RoundRobin silent)
       [Request_in (sample_request ''GET'' ''/'') NewResponseWriter, StopCall, Turn 0, Turn 0, Turn 0, Turn 1]
   in distinct (concat (map held (ptasks s)) @ concat (map idle (ups (ppool s))) @ closed_conns (ppool s))
      \<and> concat (map held (ptasks s)) = [(0, 0)] \<and> active (ups (ppool s) ! 0) = 1"
proof -
  let ?es = "[Request_in (sample_request ''GET'' ''/'') NewResponseWriter, StopCall, Turn 0, Turn 0, Turn 0, Turn 1]"
  have "concat (map held (ptasks (concurrently (\<lambda>_ _. []) (sample_pool RoundRobin silent) ?es))) = [(0, 0)]
      \<and> active (ups (ppool (concurrently (\<lambda>_ _. []) (sample_pool RoundRobin silent) ?es)) ! 0) = 1"
    by (simp add: concurrently_def sample_pick numeral_eq_Suc upd_up_def getConn_def dial_def Let_def upt_rec)
  with pool_race_free [OF sample_pool_new [of silent] _ refl, of "\<lambda>_ _. []" ?es] show ?thesis
    unfolding Let_def by blast
qed


lemma count_replicate: "count_list (replicate n x) x = n"
  by (induction n) simp_all

lemma exchange_ends_witness:
  "verdict (ptasks (concurrently (\<lambda>_ _. []) (sample_pool RoundRobin silent)
     ([Request_in (sample_request ''GET'' ''/'') NewResponseWriter] @ replicate 29 (Turn 0))) ! 0) \<noteq> None"
  by (rule exchange_ends [OF sample_pool_new _ refl]) (simp_all add: concurrently_def count_replicate)

end
