(* ===== verification/Proxy_Health.thy ===== *)
theory Proxy_Health
  imports Proxy_Failover
begin

text \<open>
  The active side of the health marks (\<open>healthLoop\<close> in \<open>proxy/proxy.go\<close>): a round dials every upstream
  and marks it by the result, so what an earlier round or a failed attempt left behind does not matter.
\<close>

section \<open>The loop\<close>

text \<open>What the \<open>select\<close> of the loop wakes up for: the ticker, or the closed \<open>stop\<close> channel.\<close>

datatype wake = Ticked | StopClosed

text \<open>The loop after its first check; the result says whether it still runs.\<close>

fun health_wakes :: "wake list \<Rightarrow> Pool \<Rightarrow> bool \<times> Pool" where
  "health_wakes [] p = (True, p)"
| "health_wakes (StopClosed # ws) p = (False, p)"
| "health_wakes (Ticked # ws) p = health_wakes ws (check_all p)"

definition healthLoop :: "wake list \<Rightarrow> Pool \<Rightarrow> bool \<times> Pool" where
  "healthLoop ws p = health_wakes ws (check_all p)"

section \<open>One round\<close>

lemma health_check_Cons:
  "health_check (u # us) p =
     (let q = snd (dial p u); r = net_dial p (dials p) (Addr (ups p ! u))
      in health_check us (upd_up u (\<lambda>x. x\<lparr>healthy := r\<rparr>) (if r then close_net (dials p, u) q else q)))"
  by (simp add: dial_def Let_def)

text \<open>What a round over the upstreams \<open>us\<close> does: one dial each, in this order, and no other trace.\<close>

lemma health_check_spec:
  assumes "distinct us" "\<forall>u \<in> set us. u < length (ups p)"
  shows "ups (health_check us p) = map (\<lambda>i. if i \<in> set us
      then (ups p ! i)\<lparr>healthy := net_dial p (dials p + length (takeWhile (\<lambda>j. j \<noteq> i) us)) (Addr (ups p ! i))\<rparr>
      else ups p ! i) [0..<length (ups p)]
    \<and> dials (health_check us p) = dials p + length us \<and> net_dial (health_check us p) = net_dial p
    \<and> sent (health_check us p) = sent p"
  using assms
proof (induction us arbitrary: p)
  case Nil
  show ?case by (simp add: map_nth)
next
  case (Cons u us)
  define r where "r = net_dial p (dials p) (Addr (ups p ! u))"
  define q where "q = upd_up u (\<lambda>x. x\<lparr>healthy := r\<rparr>) (if r then close_net (dials p, u) (snd (dial p u)) else snd (dial p u))"
  have s: "health_check (u # us) p = health_check us q"
    by (simp add: health_check_Cons q_def r_def Let_def del: health_check.simps)
  have u: "u < length (ups p)" "u \<notin> set us" using Cons.prems by simp_all
  have q: "ups q = (ups p)[u := (ups p ! u)\<lparr>healthy := r\<rparr>]" "dials q = Suc (dials p)" "net_dial q = net_dial p" "sent q = sent p"
    by (simp_all add: q_def upd_up_def close_net_def dial_def)
  have "ups q ! i = ups p ! i" if "i \<noteq> u" for i using that by (simp add: q(1))
  moreover have "ups q ! u = (ups p ! u)\<lparr>healthy := r\<rparr>" using u(1) by (simp add: q(1))
  moreover have "length (ups q) = length (ups p)" by (simp add: q(1))
  moreover have "distinct us" "\<forall>v \<in> set us. v < length (ups q)" using Cons.prems calculation(3) by simp_all
  ultimately show ?case
    using Cons.IH [of q] u unfolding s by (auto simp: q(2-4) r_def)
qed

lemma before_index:
  assumes "i < n"
  shows "length (takeWhile (\<lambda>j. j \<noteq> i) [0..<n]) = i"
proof -
  have "[0..<n] = [0..<i] @ i # [Suc i..<n]"
    using assms upt_add_eq_append [of 0 i "n - i"] by (simp add: upt_conv_Cons)
  moreover have "takeWhile (\<lambda>j. j \<noteq> i) ([0..<i] @ i # [Suc i..<n]) = [0..<i]"
    by (subst takeWhile_append2) simp_all
  ultimately show ?thesis by simp
qed

lemma check_all_spec:
  "ups (check_all p) = map (\<lambda>u. (ups p ! u)\<lparr>healthy := net_dial p (dials p + u) (Addr (ups p ! u))\<rparr>) [0..<length (ups p)]"
  "dials (check_all p) = dials p + length (ups p)" "net_dial (check_all p) = net_dial p" "sent (check_all p) = sent p"
  using health_check_spec [of "[0..<length (ups p)]" p] by (simp_all add: check_all_def before_index)

text \<open>The dials of a round start after those of the rounds before it.\<close>

definition round_start :: "wake list \<Rightarrow> Pool \<Rightarrow> nat" where
  "round_start ws p = dials p + length (takeWhile (\<lambda>w. w = Ticked) ws) * length (ups p)"

lemma health_wakes_spec:
  "fst (health_wakes ws (check_all p)) = (StopClosed \<notin> set ws)
   \<and> ups (snd (health_wakes ws (check_all p))) = map (\<lambda>u. (ups p ! u)\<lparr>healthy :=
        net_dial p (round_start ws p + u) (Addr (ups p ! u))\<rparr>) [0..<length (ups p)]
   \<and> sent (snd (health_wakes ws (check_all p))) = sent p"
proof (induction ws arbitrary: p)
  case Nil
  show ?case by (simp add: check_all_spec round_start_def)
next
  case (Cons w ws)
  have "round_start (w # ws) p = (if w = Ticked then round_start ws (check_all p) else dials p)"
    by (simp add: round_start_def check_all_spec)
  then show ?case using Cons.IH [of "check_all p"] by (cases w) (simp_all add: check_all_spec)
qed

text \<open>
  C25. A health round tells the truth, and the last round counts. However often the loop of the health
  checks has come round, the mark of every upstream says whether the dial of the last round to it
  succeeded: an upstream that a failed attempt took out of rotation is back as soon as it accepts
  connections, and one that does not is out. Nothing else of an upstream has changed, no request was
  sent, the loop runs until it sees the closed channel, and the next selection picks only upstreams
  that the last round reached.
\<close>

theorem health_marks_reached:
  "let reached = (\<lambda>u. net_dial p (round_start ws p + u) (Addr (ups p ! u)));
       (running, q) = healthLoop ws p
   in running = (StopClosed \<notin> set ws)
      \<and> ups q = map (\<lambda>u. (ups p ! u)\<lparr>healthy := reached u\<rparr>) [0..<length (ups p)]
      \<and> sent q = sent p
      \<and> (case fst (pick q) of None \<Rightarrow> True | Some cs \<Rightarrow> set cs \<subseteq> {u. u < length (ups p) \<and> reached u})"
proof -
  let ?q = "snd (health_wakes ws (check_all p))"
  let ?reached = "\<lambda>u. net_dial p (round_start ws p + u) (Addr (ups p ! u))"
  note q = health_wakes_spec [of ws p]
  have "set cs \<subseteq> {u. u < length (ups p) \<and> ?reached u}" if "fst (pick ?q) = Some cs" for cs
  proof
    fix u assume "u \<in> set cs"
    with that pick_range [of ?q cs "snd (pick ?q)" u] have "u < length (ups ?q)" "healthy (ups ?q ! u)"
      by (metis prod.collapse)+
    then show "u \<in> {u. u < length (ups p) \<and> ?reached u}" by (simp add: q)
  qed
  with q show ?thesis by (simp add: healthLoop_def Let_def split_beta split: option.split)
qed

end
