(* ===== verification/Proxy_Wire.thy ===== *)
theory Proxy_Wire
  imports Proxy_Failover Http_Request_Props
begin

text \<open>
  The proxy between two PulseHTTP ends. What \<open>serialize\<close> (\<open>httpcore/response.go\<close>) writes is read
  back by the response side of \<open>relayConn\<close> (\<open>proxy/proxy.go\<close>), and what its request side writes is
  read back by \<open>ParseRequest\<close> (\<open>httpcore/request.go\<close>): round trips between components that share
  nothing but the wire format. The kinds of response for which the round trip fails are settled too.
\<close>

section \<open>Header fields that survive the wire\<close>

definition sendable :: "bytes \<times> bytes \<Rightarrow> bool" where
  "sendable kv \<longleftrightarrow> (case kv of (k, v) \<Rightarrow>
     k \<noteq> [] \<and> CHR '':'' \<notin> set k \<and> LF \<notin> set k \<and> LF \<notin> set v \<and> stripped v)"

definition sendable_headers :: "Headers \<Rightarrow> bool" where
  "sendable_headers h \<longleftrightarrow> hdr_wf h \<and> (\<forall>k. \<forall>v \<in> set (map_slice (vals h) k). sendable (k, v))"

lemma sendable_Range: "sendable_headers h \<Longrightarrow> kv \<in> set (Headers_Range h) \<Longrightarrow> sendable kv"
  by (auto simp: sendable_headers_def Headers_Range_def)

lemma sendable_Set: "sendable_headers h \<Longrightarrow> sendable (canonical k, v) \<Longrightarrow> sendable_headers (Headers_Set h k v)"
  by (auto simp: sendable_headers_def hdr_inv hdr_ops map_slice_def)

lemma sendable_Del: "sendable_headers h \<Longrightarrow> sendable_headers (Headers_Del h k)"
  by (auto simp: sendable_headers_def hdr_inv hdr_ops map_slice_def)

section \<open>Reading lines back\<close>

lemma ReadString_line:
  assumes "LF \<notin> set l" "rd_data r = l @ CRLF @ rest"
  shows "ReadString r = Inr (l @ CRLF, r\<lparr>rd_data := rest\<rparr>)"
proof -
  have "takeWhile (\<lambda>c. c \<noteq> LF) (l @ CRLF @ rest) = l @ [CR]"
    using assms(1) by (subst takeWhile_append2) auto
  then show ?thesis using assms by (simp add: ReadString_def consume_def Let_def)
qed

lemma TrimRight_line:
  assumes "l = [] \<or> last l \<notin> {CR, LF}"
  shows "TrimRight (l @ CRLF) CRLF = l"
proof -
  have "TrimRight (l @ [CR, LF]) CRLF = TrimRight l CRLF"
    using TrimRight_snoc [of LF CRLF "l @ [CR]"] TrimRight_snoc [of CR CRLF l] by simp
  also have "\<dots> = l" using assms by (intro TrimRight_clean) auto
  finally show ?thesis by simp
qed

lemma header_line_parts:
  assumes "sendable (k, v)"
  shows "header_line k v = (k @ '': '' @ v) @ CRLF" "LF \<notin> set (k @ '': '' @ v)"
    "TrimRight ((k @ '': '' @ v) @ CRLF) CRLF = k @ '': '' @ v"
    "Cut (CHR '':'') (k @ '': '' @ v) = (k, CHR '' '' # v, True)"
    "TrimSpace (CHR '' '' # v) = v"
proof -
  have v: "stripped v" and k: "CHR '':'' \<notin> set k" using assms by (simp_all add: sendable_def)
  show "header_line k v = (k @ '': '' @ v) @ CRLF" by (simp add: header_line_def)
  show "LF \<notin> set (k @ '': '' @ v)" using assms by (simp add: sendable_def)
  have "last (k @ '': '' @ v) \<notin> {CR, LF}"
    using stripped_ends [OF v] by (cases "v = []") (auto simp: ascii_space_def)
  then show "TrimRight ((k @ '': '' @ v) @ CRLF) CRLF = k @ '': '' @ v" by (intro TrimRight_line) simp
  show "Cut (CHR '':'') (k @ '': '' @ v) = (k, CHR '' '' # v, True)"
    using Cut_found [OF k, of "CHR '' '' # v"] by simp
  show "TrimSpace (CHR '' '' # v) = v"
    using TrimSpace_space [of "CHR '' ''" v] TrimSpace_stripped [OF v] by (simp add: ascii_space_def)
qed

section \<open>Responses\<close>

text \<open>What the header loop of the relay makes of the fields: the length, and the fields it keeps.\<close>

definition is_length :: "bytes \<times> bytes \<Rightarrow> bool" where
  "is_length kv \<longleftrightarrow> ToLower_is (fst kv) ''content-length''"

definition kept :: "(bytes \<times> bytes) list \<Rightarrow> (bytes \<times> bytes) list" where
  "kept kvs = filter (\<lambda>kv. \<not> is_length kv \<and> \<not> dropped_header (fst kv)) kvs"

definition declared :: "int \<Rightarrow> (bytes \<times> bytes) list \<Rightarrow> int" where
  "declared cl kvs = foldl (\<lambda>n kv. if is_length kv then fst (ParseInt 10 (snd kv)) else n) cl kvs"

lemma relay_headers_lines:
  assumes "rd_data br = concat (map (\<lambda>(k, v). header_line k v) kvs) @ CRLF @ rest"
    and "\<forall>kv \<in> set kvs. sendable kv"
  shows "relay_headers br cl acc = Inr (declared cl kvs, acc @ kept kvs, br\<lparr>rd_data := rest\<rparr>)"
  using assms
proof (induction kvs arbitrary: br cl acc)
  case Nil
  have "ReadString br = Inr (CRLF, br\<lparr>rd_data := rest\<rparr>)"
    using ReadString_line [of "[]" br rest] Nil by simp
  then show ?case
    using TrimRight_line [of "[]"] by (simp add: relay_headers.simps [of br] declared_def kept_def)
next
  case (Cons kv kvs)
  obtain k v where kv: "kv = (k, v)" by fastforce
  have s: "sendable (k, v)" using Cons.prems kv by simp
  note h = header_line_parts [OF s]
  let ?r = "concat (map (\<lambda>(k, v). header_line k v) kvs) @ CRLF @ rest"
  have rd: "ReadString br = Inr ((k @ '': '' @ v) @ CRLF, br\<lparr>rd_data := ?r\<rparr>)"
    using Cons.prems(1) kv h(1) by (intro ReadString_line [OF h(2)]) simp
  have IH: "relay_headers (br\<lparr>rd_data := ?r\<rparr>) cl' acc' =
      Inr (declared cl' kvs, acc' @ kept kvs, br\<lparr>rd_data := rest\<rparr>)" for cl' acc'
    using Cons.IH [of "br\<lparr>rd_data := ?r\<rparr>"] Cons.prems(2) by simp
  have ne: "k @ '': '' @ v \<noteq> []" by simp
  show ?case
    unfolding relay_headers.simps [of br] rd sum.case prod.case Let_def h(3) h(4) h(5) IH if_not_P [OF ne]
    using kv by (simp add: declared_def kept_def is_length_def)
qed

lemma declared_last:
  "declared cl kvs = (if filter is_length kvs = [] then cl
     else fst (ParseInt 10 (snd (last (filter is_length kvs)))))"
  by (induction kvs rule: rev_induct) (simp_all add: declared_def)

lemma ToLower_is_plain:
  "ToLower_is s t \<Longrightarrow> CHR ''k'' \<notin> set t \<Longrightarrow> CHR ''i'' \<notin> set t \<Longrightarrow>
     list_all is_ascii s \<and> map ascii_lower s = t"
  by (induction s t rule: ToLower_is.induct) (auto split: if_splits)

lemma valid_ascii: "list_all validHeaderFieldByte s \<Longrightarrow> list_all is_ascii s"
  by (induction s) (auto simp: validHeaderFieldByte_def ascii_defs is_ascii_def)

lemma plain_key:
  assumes "canonical k = k" "canonical N = N" "list_all validHeaderFieldByte N"
    and "n = map ascii_lower N" "CHR ''k'' \<notin> set n" "CHR ''i'' \<notin> set n"
  shows "ToLower_is k n \<longleftrightarrow> k = N"
proof
  assume "ToLower_is k n"
  from ToLower_is_plain [OF this assms(5,6)] have low: "map ascii_lower k = map ascii_lower N"
    using assms(4) by simp
  have "list_all validHeaderFieldByte (map ascii_lower k)"
    unfolding low using assms(3) by (simp add: list_all_iff)
  then have "list_all validHeaderFieldByte k" by (simp add: list_all_iff)
  with assms(1-3) low canonical_eq_iff show "k = N" by metis
next
  assume "k = N"
  with assms(3,4) ToLower_is_ascii [OF valid_ascii] show "ToLower_is k n" by blast
qed

lemma length_key: "canonical k = k \<Longrightarrow> ToLower_is k ''content-length'' \<longleftrightarrow> k = ''Content-Length''"
  by (rule plain_key) (simp_all, code_simp+)

lemma filter_Range:
  assumes "hdr_wf h" "canonical K = K"
  shows "filter (\<lambda>kv. fst kv = K) (Headers_Range h) = map (Pair K) (Headers_Values h K)"
proof -
  have *: "filter (\<lambda>kv. fst kv = K) (concat (map (\<lambda>k. map (Pair k) (g k)) ks))
      = (if K \<in> set ks then map (Pair K) (g K) else [])" if "distinct ks" for ks and g :: "bytes \<Rightarrow> bytes list"
    using that by (induction ks) (auto simp: filter_map comp_def filter_empty_conv)
  have "K \<notin> set (keys h) \<Longrightarrow> map_slice (vals h) K = []"
    using assms(1) by (auto simp: hdr_wf_def map_slice_def split: option.splits)
  then show ?thesis
    using * [of "keys h" "map_slice (vals h)"] assms by (simp add: Headers_Range_def Headers_Values_def hdr_wf_def)
qed

lemma lengths_Range:
  assumes "hdr_wf h"
  shows "filter is_length (Headers_Range h) = map (Pair ''Content-Length'') (Headers_Values h ''Content-Length'')"
proof -
  have "filter is_length (Headers_Range h) = filter (\<lambda>kv. fst kv = ''Content-Length'') (Headers_Range h)"
  proof (rule filter_cong [OF refl])
    fix kv assume "kv \<in> set (Headers_Range h)"
    then have "fst kv \<in> set (keys h)" using Headers_Range_keys [OF assms, of "fst kv" "snd kv"] by simp
    then have "canonical (fst kv) = fst kv" using assms by (simp add: hdr_wf_def)
    then show "is_length kv \<longleftrightarrow> fst kv = ''Content-Length''" unfolding is_length_def by (rule length_key)
  qed
  then show ?thesis using filter_Range [OF assms, of "''Content-Length''"] by simp
qed

text \<open>What a run of \<open>Set\<close> leaves under a name: the last value, or what was there.\<close>

lemma Values_Sets:
  "Headers_Values (w_headers (foldl (\<lambda>w (k, v). w_SetHeader w k v) w kvs)) K =
     (case filter (\<lambda>kv. canonical (fst kv) = canonical K) kvs of [] \<Rightarrow> Headers_Values (w_headers w) K
      | xs \<Rightarrow> [snd (last xs)])"
  by (induction kvs rule: rev_induct)
     (auto simp: w_SetHeader_def Values_Set split: list.splits)

lemma Sets_sel:
  "w_status (foldl (\<lambda>w (k, v). w_SetHeader w k v) w kvs) = w_status w"
  "hijacked (foldl (\<lambda>w (k, v). w_SetHeader w k v) w kvs) = hijacked w"
  "isHead (foldl (\<lambda>w (k, v). w_SetHeader w k v) w kvs) = isHead w"
  by (induction kvs rule: rev_induct) (auto simp: w_SetHeader_def)

lemma relay_status_line:
  assumes "rd_data br = status_line ''HTTP/1.1'' s @ rest" "MinInt64 \<le> s" "s \<le> MaxInt64"
  shows "relay_status br = Inr (s, br\<lparr>rd_data := rest\<rparr>)"
proof -
  let ?l = "''HTTP/1.1'' @ '' '' @ Itoa s @ '' '' @ ReasonPhrase s"
  have "last (ReasonPhrase s) \<notin> {CR, LF}"
    using ReasonPhrase_clean [of s] by (metis empty_iff insertE last_in_set)
  then have clean: "LF \<notin> set ?l" "last ?l \<notin> {CR, LF}" "CHR '' '' \<notin> set (Itoa s)"
    using Itoa_clean [of _ s] ReasonPhrase_clean [of s]
    by (auto simp: ascii_space_def last_append split: if_splits)
  have rd: "ReadString br = Inr (?l @ CRLF, br\<lparr>rd_data := rest\<rparr>)"
    using assms(1) by (intro ReadString_line [OF clean(1)]) (simp add: status_line_def)
  have tr: "TrimRight (?l @ CRLF) CRLF = ?l" using clean(2) by (intro TrimRight_line) simp
  have "Cut (CHR '' '') ?l = (''HTTP/1.1'', Itoa s @ '' '' @ ReasonPhrase s, True)"
    using Cut_found [where c = "CHR '' ''" and b = "''HTTP/1.1''" and a = "Itoa s @ '' '' @ ReasonPhrase s"] by simp
  moreover have "Cut (CHR '' '') (Itoa s @ '' '' @ ReasonPhrase s) = (Itoa s, ReasonPhrase s, True)"
    using Cut_found [OF clean(3), where a = "ReasonPhrase s"] by simp
  ultimately have sp: "SplitN 3 (CHR '' '') ?l = [''HTTP/1.1'', Itoa s, ReasonPhrase s]"
    by (simp add: numeral_3_eq_3)
  show ?thesis
    unfolding relay_status_def rd sum.case prod.case tr sp
    using Atoi_Itoa [OF assms(2,3)] by (simp add: HasPrefix_def)
qed

text \<open>The fields of a response in its final form.\<close>

lemma sendable_final:
  assumes "sendable_headers (w_headers w)"
  shows "sendable_headers (final_headers now w ka)"
proof -
  obtain c body where date: "http_date now = c # body @ ''T''" "c \<in> set ''TFSMW''"
    using http_date_shape [of now] by blast
  have "trimmed (http_date now)"
    using date by (auto simp: trimmed_def is_ascii_def ascii_space_def)
  then have "sendable (''Date'', http_date now)"
    using http_date_clean [of now] by (simp add: sendable_def trimmed_stripped)
  moreover have "sendable (''Content-Length'', Itoa n)" for n
    using Itoa_trimmed [of n] Itoa_clean [of LF n] by (auto simp: sendable_def trimmed_stripped)
  moreover have "sendable (''Server'', ''PulseHTTP/1.0'')" "sendable (''Connection'', ''keep-alive'')"
    "sendable (''Connection'', ''close'')"
    by (simp_all add: sendable_def trimmed_stripped trimmed_def is_ascii_def ascii_space_def)
  ultimately have "sendable (''Date'', http_date now)" "sendable (''Server'', ''PulseHTTP/1.0'')"
    "sendable (''Content-Length'', Itoa n)" "sendable (''Connection'', ''keep-alive'')"
    "sendable (''Connection'', ''close'')" for n by simp_all
  then show ?thesis
    using assms by (auto simp: final_headers_def Let_def intro!: sendable_Set sendable_Del)
qed

lemma Values_final:
  "Headers_Values (final_headers now w ka) ''Content-Length'' =
     (if bodyless (w_status w) then [] else [Itoa (int (length (w_body w)))])"
  "canonical K \<notin> {''Date'', ''Server'', ''Content-Length'', ''Connection''} \<Longrightarrow>
     Headers_Values (final_headers now w ka) K = Headers_Values (w_headers w) K"
  by (auto simp: final_headers_def Let_def Values_Set Values_Del)

lemma relay_serialized:
  assumes "sendable_headers (w_headers w)" "MinInt64 \<le> w_status w" "w_status w \<le> MaxInt64"
    and "int (length (w_body w)) \<le> MaxInt64"
    and "rd_data br = fst (serialize now w ''HTTP/1.1'' ka) @ rest"
  shows "relay_response cfg br w0 =
    (case relay_body cfg (br\<lparr>rd_data := wire_body w @ rest\<rparr>)
            (if bodyless (w_status w) then - 1 else int (length (w_body w))) of
       (RelayOk keep, body) \<Rightarrow>
         (RelayOk keep, w_SetBody (foldl (\<lambda>w (k, v). w_SetHeader w k v) (w_WriteHeader w0 (w_status w))
            (kept (Headers_Range (final_headers now w ka)))) body)
     | (r, _) \<Rightarrow> (r, w0))"
proof -
  let ?h = "final_headers now w ka"
  let ?hs = "concat (map (\<lambda>(k, v). header_line k v) (Headers_Range ?h)) @ CRLF @ wire_body w @ rest"
  have s: "sendable_headers ?h" using sendable_final [OF assms(1)] .
  have st: "relay_status br = Inr (w_status w, br\<lparr>rd_data := ?hs\<rparr>)"
    using assms by (intro relay_status_line) (simp_all add: serialize_def Let_def Headers_WriteTo_def)
  have hd: "relay_headers (br\<lparr>rd_data := ?hs\<rparr>) (- 1) [] =
      Inr (declared (- 1) (Headers_Range ?h), [] @ kept (Headers_Range ?h), br\<lparr>rd_data := wire_body w @ rest\<rparr>)"
    using relay_headers_lines [of "br\<lparr>rd_data := ?hs\<rparr>" "Headers_Range ?h" "wire_body w @ rest" "- 1" "[]"]
      sendable_Range [OF s] by simp
  have dl: "declared (- 1) (Headers_Range ?h) = (if bodyless (w_status w) then - 1 else int (length (w_body w)))"
    using s lengths_Range [of ?h] Values_final(1) [of now w ka]
      Atoi_Itoa [of "int (length (w_body w))"] assms(4)
    by (simp add: declared_last sendable_headers_def Atoi_def MinInt64_def)
  show ?thesis unfolding relay_response_def st sum.case prod.case hd dl append_Nil ..
qed

lemma serialized_body:
  assumes "\<not> isHead w" "\<not> bodyless (w_status w)" "int (length (w_body w)) \<le> px_MaxBodyBytes cfg"
    "px_MaxBodyBytes cfg \<le> maxAlloc"
  shows "relay_body cfg (br\<lparr>rd_data := wire_body w @ rest\<rparr>) (int (length (w_body w))) = (RelayOk True, w_body w)"
proof -
  have "\<not> make_panics (int (length (w_body w)))"
    using assms(3,4) by (simp add: make_panics_def)
  then show ?thesis
    using assms by (simp add: relay_body_def wire_body_def ReadFull_def)
qed

definition relayable :: "bytes \<Rightarrow> bool" where
  "relayable k \<longleftrightarrow> \<not> dropped_header k \<and> k \<noteq> ''Content-Length''"

lemma kept_Range:
  assumes "hdr_wf h" "relayable (canonical K)"
  shows "filter (\<lambda>kv. canonical (fst kv) = canonical K) (kept (Headers_Range h))
    = map (Pair (canonical K)) (Headers_Values h K)"
proof -
  have "filter (\<lambda>kv. canonical (fst kv) = canonical K) (kept (Headers_Range h))
      = filter (\<lambda>kv. fst kv = canonical K) (Headers_Range h)"
    unfolding kept_def filter_filter
  proof (rule filter_cong [OF refl])
    fix kv assume "kv \<in> set (Headers_Range h)"
    then have "fst kv \<in> set (keys h)" using Headers_Range_keys [OF assms(1), of "fst kv" "snd kv"] by simp
    then have "canonical (fst kv) = fst kv" using assms(1) by (simp add: hdr_wf_def)
    then show "(\<not> is_length kv \<and> \<not> dropped_header (fst kv)) \<and> canonical (fst kv) = canonical K
        \<longleftrightarrow> fst kv = canonical K"
      using assms(2) length_key [of "canonical K"] by (auto simp: is_length_def relayable_def)
  qed
  then show ?thesis
    using filter_Range [OF assms(1), of "canonical K"] by (simp add: Headers_Values_def)
qed

text \<open>What of an answer \<open>w\<close> is in the proxy's response \<open>w1\<close>, which was \<open>w0\<close> before.\<close>

definition carries :: "ResponseWriter \<Rightarrow> ResponseWriter \<Rightarrow> ResponseWriter \<Rightarrow> bool" where
  "carries w w0 w1 \<longleftrightarrow> w_status w1 = w_status w \<and> w_body w1 = w_body w
    \<and> (\<forall>k. relayable (canonical k) \<longrightarrow>
         Headers_Values (w_headers w1) k =
           (case Headers_Values (w_headers w) k of [] \<Rightarrow> Headers_Values (w_headers w0) k | vs \<Rightarrow> [last vs]))"

lemma serialized_relayed:
  assumes "sendable_headers (w_headers w)" "MinInt64 \<le> w_status w" "w_status w \<le> MaxInt64"
    and "\<not> isHead w" "\<not> bodyless (w_status w)"
    and "int (length (w_body w)) \<le> px_MaxBodyBytes cfg" "px_MaxBodyBytes cfg \<le> maxAlloc"
    and "rd_data br = fst (serialize now w ''HTTP/1.1'' ka) @ rest" "\<not> hijacked w0"
  shows "\<exists>w1. relay_response cfg br w0 = (RelayOk True, w1) \<and> carries w w0 w1"
proof -
  let ?h = "final_headers now w ka"
  let ?w1 = "w_SetBody (foldl (\<lambda>w (k, v). w_SetHeader w k v) (w_WriteHeader w0 (w_status w))
      (kept (Headers_Range ?h))) (w_body w)"
  have "int (length (w_body w)) \<le> MaxInt64"
    using assms(6,7) by (simp add: maxAlloc_def MaxInt64_def)
  from relay_serialized [OF assms(1-3) this assms(8)] serialized_body [OF assms(4-7)] assms(5)
  have r: "relay_response cfg br w0 = (RelayOk True, ?w1)" by simp
  have wf: "hdr_wf ?h" using sendable_final [OF assms(1)] by (simp add: sendable_headers_def)
  have "Headers_Values (w_headers ?w1) k =
      (case Headers_Values (w_headers w) k of [] \<Rightarrow> Headers_Values (w_headers w0) k | vs \<Rightarrow> [last vs])"
    if k: "relayable (canonical k)" for k
  proof -
    have "canonical k \<notin> {''Date'', ''Server'', ''Content-Length'', ''Connection''}"
      using k by (auto simp: relayable_def dropped_header_def ToLower_is_ascii is_ascii_def ascii_defs)
    from Values_final(2) [OF this] have v: "Headers_Values ?h k = Headers_Values (w_headers w) k" .
    show ?thesis
      using kept_Range [OF wf k] assms(9) unfolding v
      by (auto simp: w_SetBody_def w_WriteHeader_def Values_Sets last_map split: list.splits)
  qed
  moreover have "w_status ?w1 = w_status w" "w_body ?w1 = w_body w"
    using assms(9) by (simp_all add: w_SetBody_def w_WriteHeader_def Sets_sel)
  ultimately show ?thesis using r unfolding carries_def by blast
qed



text \<open>
  An answer whose declared length has no body behind it (to HEAD), or that has neither length nor body
  on a connection that stays open (204, 304).
\<close>

definition bodyless_answer :: "reply \<Rightarrow> bool" where
  "bodyless_answer rp \<longleftrightarrow> (\<exists>w now ka. sendable_headers (w_headers w)
     \<and> MinInt64 \<le> w_status w \<and> w_status w \<le> MaxInt64 \<and> int (length (w_body w)) \<le> MaxInt64
     \<and> rp_data rp = fst (serialize now w ''HTTP/1.1'' ka)
     \<and> (isHead w \<and> w_body w \<noteq> [] \<and> \<not> bodyless (w_status w) \<or> bodyless (w_status w) \<and> rp_end rp \<noteq> EOF))"

lemma bodyless_not_relayed:
  assumes "bodyless_answer rp" "0 \<le> px_MaxBodyBytes cfg" "px_MaxBodyBytes cfg < MaxInt64"
  shows "\<not> relayed cfg rp w0 w'"
proof -
  from assms(1) obtain w now ka where w: "sendable_headers (w_headers w)"
    "MinInt64 \<le> w_status w" "w_status w \<le> MaxInt64" "int (length (w_body w)) \<le> MaxInt64"
    "rp_data rp = fst (serialize now w ''HTTP/1.1'' ka)"
    and c: "isHead w \<and> w_body w \<noteq> [] \<and> \<not> bodyless (w_status w) \<or> bodyless (w_status w) \<and> rp_end rp \<noteq> EOF"
    by (auto simp: bodyless_answer_def)
  let ?cl = "if bodyless (w_status w) then - 1 else int (length (w_body w))"
  let ?br = "(reply_reader rp)\<lparr>rd_data := wire_body w @ []\<rparr>"
  have wb: "wire_body w = []" using c by (auto simp: wire_body_def)
  have "wrap64 (px_MaxBodyBytes cfg + 1) = px_MaxBodyBytes cfg + 1"
    using assms(2,3) by (intro wrap64_id) (auto simp: MinInt64_def MaxInt64_def)
  then have "\<not> (\<exists>k b. relay_body cfg ?br ?cl = (RelayOk k, b))"
    using c assms(2) by (auto simp: relay_body_def wb ReadFull_def ReadAll_limited_def reply_reader_def)
  then have "\<not> (\<exists>k. fst (relay_body cfg ?br ?cl) = RelayOk k)" by (metis prod.collapse)
  moreover have "rd_data (reply_reader rp) = fst (serialize now w ''HTTP/1.1'' ka) @ []"
    using w(5) by (simp add: reply_reader_def)
  from relay_serialized [OF w(1-4) this, of cfg w0]
  have "relay_response cfg (reply_reader rp) w0 = (RelayOk k, w') \<Longrightarrow> fst (relay_body cfg ?br ?cl) = RelayOk k" for k
    by (auto split: prod.splits relay_outcome.splits)
  ultimately show ?thesis by (auto simp: relayed_def)
qed

text \<open>
  Answers without a body do not get through the proxy. When every upstream answers with
  one (to a HEAD request: the length header counts a body that is not sent; a 204 or a 304: no
  length, and the connection is kept open), the client gets 502, and every upstream that was tried
  is marked down although it answered correctly.
\<close>

theorem bodyless_answers_fail:
  assumes "pool_inv p {#}" "proxy_exchange ft p req w = (Returned, w', q)" "pick p = (Some cs, p1)"
    and "cs \<noteq> []" "\<not> hijacked w" "\<forall>n. bodyless_answer (net_reply p n)"
    and "0 \<le> px_MaxBodyBytes (px_cfg p)" "px_MaxBodyBytes (px_cfg p) < MaxInt64"
  shows "w_status w' = 502 \<and> marked_down p q (set (take (nat (MaxAttempts (px_cfg p))) cs))"
proof -
  from exchange_cases [OF assms(1-3,5)] assms(4) obtain failed rest where fr:
    "take (nat (MaxAttempts (px_cfg p))) cs = failed @ rest" "marked_down p q (set failed)"
    "if rest = [] then \<exists>msg. w' = w_Error w 502 msg else answered_by p (hd rest) w w'" by auto
  have "\<not> answered_by p u w w'" for u
    using bodyless_not_relayed [OF _ assms(7,8)] assms(6) by (auto simp: answered_by_def)
  with fr(3) have "rest = []" "\<exists>msg. w' = w_Error w 502 msg" by (auto split: if_splits)
  with fr(1,2) assms(5) show ?thesis by (auto simp: w_Error_def w_SetHeader_def)
qed

definition head_answer :: "nat \<Rightarrow> reply" where
  "head_answer n =
     \<lparr>rp_write_ok = True,
      rp_data = fst (serialize 0 ((w_WriteString NewResponseWriter ''hello'')\<lparr>isHead := True\<rparr>) ''HTTP/1.1'' True),
      rp_end = NetTimeout\<rparr>"

theorem bodyless_answers_fail_witness:
  "\<exists>w' q. proxy_exchange (\<lambda>_ _. []) (sample_pool RoundRobin head_answer) (sample_request ''HEAD'' ''/'')
       NewResponseWriter = (Returned, w', q)
     \<and> w_status w' = 502 \<and> marked_down (sample_pool RoundRobin head_answer) q {0, 1, 2}"
proof -
  let ?p = "sample_pool RoundRobin head_answer" and ?w = "(w_WriteString NewResponseWriter ''hello'')\<lparr>isHead := True\<rparr>"
  have "bodyless_answer (head_answer n)" for n
    unfolding bodyless_answer_def head_answer_def
    by (rule exI [of _ ?w], rule exI [of _ 0], rule exI [of _ True])
       (simp add: writer_defs sendable_headers_def hdr_inv map_slice_def MinInt64_def MaxInt64_def)
  then have b: "\<forall>n. bodyless_answer (net_reply ?p n)" by simp
  have "fst (proxy_exchange (\<lambda>_ _. []) ?p (sample_request ''HEAD'' ''/'') NewResponseWriter) = Returned"
    by (rule exchange_returns [OF sample_pool_inv _ sample_pick]) (simp add: maxAlloc_def)
  then obtain w' q where r: "proxy_exchange (\<lambda>_ _. []) ?p (sample_request ''HEAD'' ''/'') NewResponseWriter
      = (Returned, w', q)" by (metis prod_cases3 fst_conv)
  from bodyless_answers_fail [OF sample_pool_inv r sample_pick _ _ b] r show ?thesis
    by (simp add: MaxInt64_def NewResponseWriter_def numeral_3_eq_3)
qed

section \<open>The handler's contract\<close>

text \<open>What a handler owes the server's writer: the HEAD flag and well-formed headers.\<close>

definition keeps_writer :: "ResponseWriter \<Rightarrow> ResponseWriter \<Rightarrow> bool" where
  "keeps_writer w w' \<longleftrightarrow> isHead w' = isHead w \<and> (w_wf w \<longrightarrow> w_wf w')"

lemma keeps_writer_refl [simp]: "keeps_writer w w"
  by (simp add: keeps_writer_def)

lemma keeps_writer_trans: "keeps_writer w w' \<Longrightarrow> keeps_writer w' w'' \<Longrightarrow> keeps_writer w w''"
  by (simp add: keeps_writer_def)

lemma keeps_writer_ops:
  "keeps_writer w (w_SetHeader w k v)" "keeps_writer w (w_Error w s m)"
  "keeps_writer w (w_WriteHeader w s)" "keeps_writer w (w_SetBody w b)"
  by (simp_all add: keeps_writer_def writer_inv writer_isHead)

lemma Sets_keeps: "keeps_writer w (foldl (\<lambda>w (k, v). w_SetHeader w k v) w kvs)"
proof (induction kvs rule: rev_induct)
  case (snoc kv kvs)
  then show ?case using keeps_writer_ops(1) keeps_writer_trans by (cases kv) auto
qed simp

lemma relay_response_keeps:
  assumes "relay_response cfg br w = (r, w')"
  shows "keeps_writer w w'"
proof (cases "\<exists>k. r = RelayOk k")
  case True
  then obtain s hs b where "w' = w_SetBody (foldl (\<lambda>w (k, v). w_SetHeader w k v) (w_WriteHeader w s) hs) b"
    using assms by (auto simp: relay_response_def split: sum.splits prod.splits relay_outcome.splits)
  then show ?thesis
    using keeps_writer_trans [OF keeps_writer_trans [OF keeps_writer_ops(3) Sets_keeps] keeps_writer_ops(4)] by simp
next
  case False
  with relay_response_fail [OF assms] show ?thesis by simp
qed

lemma relayConn_keeps:
  assumes "relayConn p c u req w = (r, w', q)"
  shows "keeps_writer w w'"
proof (cases "\<exists>k. r = RelayOk k")
  case True
  with relayConn_facts(4) [OF assms] relay_response_keeps show ?thesis by (auto simp: relayed_def)
next
  case False
  with relayConn_facts(3) [OF assms] show ?thesis by simp
qed

lemma relay_keeps:
  assumes "relay p u req w = (r, w', q)"
  shows "keeps_writer w w'"
proof -
  obtain cr p1 where g: "getConn p u = (cr, p1)" by fastforce
  show ?thesis
  proof (cases cr)
    case None
    with g assms show ?thesis by (auto simp: relay_def)
  next
    case (Some cb)
    then obtain c reused where cb: "cr = Some (c, reused)" by (cases cb) auto
    obtain r1 w1 p2 where rc: "relayConn p1 c u req w = (r1, w1, p2)" by (rule prod_cases3)
    note eq = relay_eq [OF g [unfolded cb] rc] and k1 = relayConn_keeps [OF rc]
    obtain d p3 where d: "dial p2 u = (d, p3)" by fastforce
    show ?thesis
    proof (cases "reused \<and> (\<exists>e. r1 = RelayErr e)")
      case False
      with eq assms k1 show ?thesis by auto
    next
      case True
      show ?thesis
      proof (cases d)
        case None
        with eq True d assms k1 show ?thesis by auto
      next
        case (Some c')
        with eq True d assms have "relayConn p3 c' u req w1 = (r, w', q)" by simp
        from keeps_writer_trans [OF k1 relayConn_keeps [OF this]] show ?thesis .
      qed
    qed
  qed
qed

lemma try_upstreams_keeps: "try_upstreams p us e req w = (r, w', q) \<Longrightarrow> keeps_writer w w'"
proof (induction us arbitrary: p e w)
  case (Cons u us)
  let ?p = "upd_up u (\<lambda>x. x\<lparr>active := active x + 1\<rparr>) p"
  obtain r1 w1 p1 where rl: "relay ?p u req w = (r1, w1, p1)" by (rule prod_cases3)
  note k = relay_keeps [OF rl]
  show ?case
  proof (cases r1)
    case (RelayOk b)
    with Cons.prems rl k show ?thesis using keeps_writer_trans [OF k keeps_writer_ops(1)] by (auto simp: Let_def)
  next
    case (RelayErr x)
    with Cons.prems rl Cons.IH keeps_writer_trans [OF k] show ?thesis by (simp add: Let_def)
  next
    case RelayPanic
    with Cons.prems rl k show ?thesis by (simp add: Let_def)
  qed
qed simp

lemma exchange_keeps:
  assumes "proxy_exchange ft p req w = (ou, w', q)"
  shows "keeps_writer w w'"
proof -
  obtain cs p1 where pk: "pick p = (cs, p1)" by fastforce
  show ?thesis
  proof (cases "cs = None \<or> cs = Some []")
    case True
    then show ?thesis
      using assms pk keeps_writer_trans [OF keeps_writer_ops(1) keeps_writer_ops(2)]
      by (auto simp: proxy_exchange_def)
  next
    case False
    then obtain c cs' where cs: "cs = Some (c # cs')" by (metis list.exhaust option.exhaust)
    let ?us = "take (nat (min (MaxAttempts (px_cfg p1)) (int (length (c # cs'))))) (c # cs')"
    obtain e w1 p2 where tr: "try_upstreams p1 ?us None req w = (e, w1, p2)" by (rule prod_cases3)
    note k = try_upstreams_keeps [OF tr]
    show ?thesis
      using assms pk tr k keeps_writer_trans [OF k keeps_writer_ops(2)]
      unfolding proxy_exchange_def cs by (cases e) (auto simp: Let_def)
  qed
qed

lemma Proxy_Handler_well_behaved: "well_behaved (Proxy_Handler ft)"
proof (rule well_behavedI)
  fix req w and g :: "('a, 'b, 'c, Pool) world"
  obtain ou w' q where "proxy_exchange ft (pool g) req w = (ou, w', q)" by (rule prod_cases3)
  with exchange_keeps [OF this] show "sound req w (Proxy_Handler ft req w g)"
    by (simp add: Proxy_Handler_def sound_def keeps_writer_def same_head_refl)
qed

end
