(* ===== verification/Http_Auth.thy ===== *)
theory Http_Auth
  imports Http_Middleware
begin

text \<open>
  \<open>middleware/auth.go\<close>: bearer-token authentication. A role is its \<open>iota\<close> number; the token table is a
  Go map and the path policy a function, both part of the configuration.
\<close>

section \<open>Roles and configuration\<close>

definition RoleAnonymous :: int where "RoleAnonymous = 0"
definition RoleUser :: int where "RoleUser = 1"
definition RoleAdmin :: int where "RoleAdmin = 2"

lemmas role_defs [go_eval] = RoleAnonymous_def RoleUser_def RoleAdmin_def

record AuthConfig =
  Tokens :: "bytes \<rightharpoonup> int"
  RequiredRole :: "bytes \<Rightarrow> int"

definition quoted :: "bytes \<Rightarrow> bytes" where
  "quoted s = CHR 0x22 # s @ [CHR 0x22]"

section \<open>The middleware\<close>

definition deny :: "bytes \<Rightarrow> bytes \<Rightarrow> ResponseWriter \<Rightarrow> ResponseWriter" where
  "deny challenge msg w = w_Error (w_SetHeader w ''WWW-Authenticate'' challenge) StatusUnauthorized msg"

definition BearerAuth :: "AuthConfig \<Rightarrow> 'g handler \<Rightarrow> 'g handler" where
  "BearerAuth cfg next req w g =
     (let need = RequiredRole cfg (Path req)
      in if need = RoleAnonymous then next req w g
         else
           let raw = Headers_Get (ReqHeaders req) ''Authorization'';
               (token, isBearer) = CutPrefix raw ''Bearer ''
           in if raw = [] \<or> \<not> isBearer then
                (Returned, req,
                 deny (''Bearer realm='' @ quoted ''pulse'') ''missing or malformed bearer credentials'' w, g)
              else (case Tokens cfg (TrimSpace token) of
                  None \<Rightarrow>
                    (Returned, req,
                     deny (''Bearer realm='' @ quoted ''pulse'' @ '', error='' @ quoted ''invalid_token'')
                       ''unknown token'' w, g)
                | Some role \<Rightarrow>
                    if role < need then
                      (Returned, req,
                       w_Error w StatusForbidden (''insufficient privileges for '' @ Path req), g)
                    else next (req\<lparr>Meta := (Meta req)(''role'' \<mapsto> MetaRole role)\<rparr>) w g))"

lemmas auth_defs [go_eval] = quoted_def deny_def BearerAuth_def

section \<open>Identity, and what each verdict depends on\<close>

text \<open>Who a request says it is: the role of the bearer token it presents, if that token is known.\<close>

definition identity :: "AuthConfig \<Rightarrow> Request \<Rightarrow> int option" where
  "identity cfg req =
     (let raw = Headers_Get (ReqHeaders req) ''Authorization''
      in if prefix ''Bearer '' raw then Tokens cfg (TrimSpace (drop (length ''Bearer '') raw)) else None)"

lemma canonical_www [simp]: "canonical ''WWW-Authenticate'' = ''Www-Authenticate''"
  by code_simp

lemma BearerAuth_cases:
  assumes "\<not> hijacked w"
  shows "if RequiredRole cfg (Path req) = RoleAnonymous then BearerAuth cfg h req w g = h req w g
    else case identity cfg req of
      None \<Rightarrow> \<exists>w'. BearerAuth cfg h req w g = (Returned, req, w', g) \<and> w_status w' = 401
                 \<and> Headers_Has (w_headers w') ''WWW-Authenticate''
    | Some role \<Rightarrow>
        if role < RequiredRole cfg (Path req) then
          \<exists>w'. BearerAuth cfg h req w g = (Returned, req, w', g) \<and> w_status w' = 403
             \<and> Headers_Values (w_headers w') ''WWW-Authenticate'' = Headers_Values (w_headers w) ''WWW-Authenticate''
        else BearerAuth cfg h req w g = h (req\<lparr>Meta := (Meta req)(''role'' \<mapsto> MetaRole role)\<rparr>) w g"
  using assms
  by (auto simp: BearerAuth_def identity_def CutPrefix_def Let_def deny_def w_Error_def w_SetHeader_def
      Headers_Has_Set Values_Set split: option.splits)

text \<open>
  C11. The 401/403 boundary, complete and exclusive. A path that needs no role goes through untouched.
  Otherwise: no identity means 401 with a challenge, and the handler does not run; an identity below
  the required role means 403, without a challenge, and the handler does not run; an identity at or
  above it reaches the handler, with the role in the request's metadata and nothing else changed.
\<close>

theorem BearerAuth_verdict:
  assumes "\<not> hijacked w"
  shows "if RequiredRole cfg (Path req) = RoleAnonymous then BearerAuth cfg h req w g = h req w g
    else case identity cfg req of
      None \<Rightarrow> \<exists>w'. BearerAuth cfg h req w g = (Returned, req, w', g) \<and> w_status w' = 401
                 \<and> Headers_Has (w_headers w') ''WWW-Authenticate''
    | Some role \<Rightarrow>
        if role < RequiredRole cfg (Path req) then
          \<exists>w'. BearerAuth cfg h req w g = (Returned, req, w', g) \<and> w_status w' = 403
             \<and> Headers_Values (w_headers w') ''WWW-Authenticate'' = Headers_Values (w_headers w) ''WWW-Authenticate''
        else BearerAuth cfg h req w g = h (req\<lparr>Meta := (Meta req)(''role'' \<mapsto> MetaRole role)\<rparr>) w g"
  by (rule BearerAuth_cases [OF assms])

definition sample_auth :: AuthConfig where
  "sample_auth = \<lparr>Tokens = [''t'' \<mapsto> RoleUser], RequiredRole = (\<lambda>p. RoleAdmin)\<rparr>"

theorem BearerAuth_verdict_witness:
  "\<exists>w'. BearerAuth sample_auth (\<lambda>req w g. (Panicked, req, w, g))
      ((sample_request ''GET'' ''/x'')\<lparr>ReqHeaders := Headers_Set NewHeaders ''authorization'' ''Bearer t''\<rparr>)
      NewResponseWriter () = (Returned, (sample_request ''GET'' ''/x'')
        \<lparr>ReqHeaders := Headers_Set NewHeaders ''authorization'' ''Bearer t''\<rparr>, w', ()) \<and> w_status w' = 403"
proof -
  let ?req = "(sample_request ''GET'' ''/x'')\<lparr>ReqHeaders := Headers_Set NewHeaders ''authorization'' ''Bearer t''\<rparr>"
  have i: "identity sample_auth ?req = Some RoleUser"
    by (simp add: identity_def sample_auth_def sample_request_def go_eval)
  show ?thesis
    using BearerAuth_verdict [of NewResponseWriter sample_auth ?req "\<lambda>req w g. (Panicked, req, w, g)" "()"] i
    by (auto simp: sample_auth_def role_defs NewResponseWriter_def)
qed

lemma BearerAuth_well_behaved: "well_behaved h \<Longrightarrow> well_behaved (BearerAuth cfg h)"
proof (rule well_behavedI)
  fix req w and g :: 'a
  assume h: "well_behaved h"
  have d: "sound req w (Returned, req, deny c m w, g)" for c m
    by (simp add: sound_def deny_def writer_inv)
  have f: "sound req w (Returned, req, w_Error w s m, g)" for s m
    by (simp add: sound_def writer_inv)
  have n: "sound req w (h (req\<lparr>Meta := m\<rparr>) w g)" "sound req w (h req w g)" for m
    by (rule sound_trans [OF well_behavedD [OF h]]; simp)+
  show "sound req w (BearerAuth cfg h req w g)"
    by (simp add: BearerAuth_def Let_def d f n split: option.split prod.split)
qed

interpretation bearer_auth: middleware "BearerAuth cfg" for cfg
  by unfold_locales (rule BearerAuth_well_behaved)

end
