(* ===== verification/Http_Router.thy ===== *)
theory Http_Router
  imports Http_Middleware
begin

text \<open>
  \<open>router/router.go\<close>: routes as segment lists, \<open>Handle\<close>, \<open>match\<close> and \<open>Serve\<close>. The set of methods a
  path allows is a Go map used as a set; it is the list of its keys here, in the order of their
  first insertion, and is sorted before it is used, as in the source (so the iteration order of
  the map does not matter).
\<close>

section \<open>Routes\<close>

record segment =
  literal :: bytes
  param :: bytes

record 'g route =
  rt_method :: bytes
  rt_segments :: "segment list"
  rt_handler :: "'g handler"

record 'g Router =
  routes :: "'g route list"
  NotFound :: "'g handler"

definition New :: "'g Router" where
  "New = \<lparr>routes = [],
          NotFound = (\<lambda>req w g. (Returned, req,
             w_Error w StatusNotFound (''no such resource: '' @ Path req), g))\<rparr>"

definition path_parts :: "bytes \<Rightarrow> bytes list" where
  "path_parts p = Split (CHR ''/'') (Trim p ''/'')"

definition parse_segment :: "bytes \<Rightarrow> segment" where
  "parse_segment part =
     (if HasPrefix part '':'' then \<lparr>literal = [], param = drop 1 part\<rparr>
      else \<lparr>literal = part, param = []\<rparr>)"

definition Handle :: "'g Router \<Rightarrow> bytes \<Rightarrow> bytes \<Rightarrow> 'g handler \<Rightarrow> 'g Router" where
  "Handle r m pattern h =
     r\<lparr>routes := routes r @
        [\<lparr>rt_method = m, rt_segments = map parse_segment (path_parts pattern), rt_handler = h\<rparr>]\<rparr>"

definition GET :: "'g Router \<Rightarrow> bytes \<Rightarrow> 'g handler \<Rightarrow> 'g Router" where "GET r = Handle r ''GET''"
definition HEAD :: "'g Router \<Rightarrow> bytes \<Rightarrow> 'g handler \<Rightarrow> 'g Router" where "HEAD r = Handle r ''HEAD''"
definition POST :: "'g Router \<Rightarrow> bytes \<Rightarrow> 'g handler \<Rightarrow> 'g Router" where "POST r = Handle r ''POST''"
definition PUT :: "'g Router \<Rightarrow> bytes \<Rightarrow> 'g handler \<Rightarrow> 'g Router" where "PUT r = Handle r ''PUT''"
definition DELETE :: "'g Router \<Rightarrow> bytes \<Rightarrow> 'g handler \<Rightarrow> 'g Router" where "DELETE r = Handle r ''DELETE''"

section \<open>Matching and dispatch\<close>

fun match_loop :: "(bytes \<rightharpoonup> bytes) \<Rightarrow> segment list \<Rightarrow> bytes list \<Rightarrow> (bytes \<rightharpoonup> bytes) option" where
  "match_loop params (s # segs) (p # parts) =
     (if param s \<noteq> [] then match_loop (params(param s \<mapsto> p)) segs parts
      else if literal s \<noteq> p then None
      else match_loop params segs parts)"
| "match_loop params _ _ = Some params"

definition match_route :: "segment list \<Rightarrow> bytes list \<Rightarrow> (bytes \<rightharpoonup> bytes) option" where
  "match_route segs parts =
     (if length segs \<noteq> length parts then None else match_loop Map.empty segs parts)"

definition verb_ok :: "'g route \<Rightarrow> Request \<Rightarrow> bool" where
  "verb_ok rt req \<longleftrightarrow> rt_method rt = Method req \<or> (Method req = ''HEAD'' \<and> rt_method rt = ''GET'')"

text \<open>The loop of \<open>Serve\<close>: the first route that fits, or else the methods other fitting routes have.\<close>

fun find_route :: "'g route list \<Rightarrow> Request \<Rightarrow> bytes list \<Rightarrow> bytes list
    \<Rightarrow> ('g route \<times> (bytes \<rightharpoonup> bytes)) + bytes list" where
  "find_route [] req parts allowed = Inr allowed"
| "find_route (rt # rts) req parts allowed =
     (case match_route (rt_segments rt) parts of
        None \<Rightarrow> find_route rts req parts allowed
      | Some params \<Rightarrow>
          if verb_ok rt req then Inl (rt, params)
          else find_route rts req parts (List.insert (rt_method rt) allowed))"

definition Serve :: "'g Router \<Rightarrow> 'g handler" where
  "Serve r req w g =
     (case find_route (routes r) req (path_parts (Path req)) [] of
        Inl (rt, params) \<Rightarrow> rt_handler rt (req\<lparr>PathParams := params\<rparr>) w g
      | Inr allowed \<Rightarrow>
          if allowed \<noteq> []
          then (Returned, req,
                w_Error (w_SetHeader w ''Allow'' (Join (sort allowed) '', ''))
                  StatusMethodNotAllowed (Method req @ '' not allowed here''), g)
          else NotFound r req w g)"

lemmas router_defs [go_eval] =
  New_def path_parts_def parse_segment_def Handle_def GET_def HEAD_def POST_def PUT_def DELETE_def
  match_route_def verb_ok_def Serve_def

section \<open>What a match is\<close>

text \<open>A part fits a segment: parameters take anything, literals only themselves.\<close>

definition fits :: "segment \<Rightarrow> bytes \<Rightarrow> bool" where
  "fits s p \<longleftrightarrow> param s \<noteq> [] \<or> literal s = p"

definition captures :: "segment list \<Rightarrow> bytes list \<Rightarrow> (bytes \<times> bytes) list" where
  "captures segs parts = map (\<lambda>(s, p). (param s, p)) (filter (\<lambda>(s, p). param s \<noteq> []) (zip segs parts))"

lemma match_loop_spec:
  "length segs = length parts \<Longrightarrow>
   match_loop ps segs parts =
     (if list_all2 fits segs parts then Some (ps ++ map_of (rev (captures segs parts))) else None)"
proof (induction segs parts arbitrary: ps rule: list_induct2)
  case Nil
  then show ?case by (simp add: captures_def)
next
  case (Cons s segs p parts)
  then show ?case by (auto simp: fits_def captures_def map_add_def split: option.splits)
qed

lemma match_route_spec:
  "match_route segs parts =
     (if list_all2 fits segs parts then Some (map_of (rev (captures segs parts))) else None)"
  by (auto simp: match_route_def match_loop_spec dest: list_all2_lengthD)

definition route_matches :: "Request \<Rightarrow> 'g route \<Rightarrow> bool" where
  "route_matches req rt \<longleftrightarrow> list_all2 fits (rt_segments rt) (path_parts (Path req))"

lemma find_route_Inl:
  "find_route rts req parts al = Inl (rt, ps) \<Longrightarrow>
     \<exists>pre post. rts = pre @ rt # post \<and> match_route (rt_segments rt) parts = Some ps \<and> verb_ok rt req
       \<and> (\<forall>x \<in> set pre. match_route (rt_segments x) parts \<noteq> None \<longrightarrow> \<not> verb_ok x req)"
proof (induction rts req parts al rule: find_route.induct)
  case (2 rt' rts req parts allowed)
  show ?case
  proof (cases "match_route (rt_segments rt') parts")
    case None
    with 2 obtain pre post where "rts = pre @ rt # post" "match_route (rt_segments rt) parts = Some ps"
      "verb_ok rt req" "\<forall>x \<in> set pre. match_route (rt_segments x) parts \<noteq> None \<longrightarrow> \<not> verb_ok x req"
      by auto
    with None show ?thesis by (intro exI [of _ "rt' # pre"] exI [of _ post]) auto
  next
    case (Some m)
    show ?thesis
    proof (cases "verb_ok rt' req")
      case True
      with Some 2 show ?thesis by (intro exI [of _ "[]"] exI [of _ rts]) auto
    next
      case False
      with Some 2 obtain pre post where "rts = pre @ rt # post" "match_route (rt_segments rt) parts = Some ps"
        "verb_ok rt req" "\<forall>x \<in> set pre. match_route (rt_segments x) parts \<noteq> None \<longrightarrow> \<not> verb_ok x req"
        by auto
      with False show ?thesis by (intro exI [of _ "rt' # pre"] exI [of _ post]) auto
    qed
  qed
qed simp

lemma find_route_Inr:
  "find_route rts req parts al = Inr al' \<Longrightarrow> distinct al \<Longrightarrow>
     distinct al' \<and> set al' = set al \<union> {rt_method x | x. x \<in> set rts \<and> match_route (rt_segments x) parts \<noteq> None}
     \<and> (\<forall>x \<in> set rts. match_route (rt_segments x) parts \<noteq> None \<longrightarrow> \<not> verb_ok x req)"
  by (induction rts req parts al rule: find_route.induct) (auto split: option.splits if_splits)

lemma find_filter_split:
  assumes "xs = pre @ x # post" "P x" "Q x" "\<forall>y \<in> set pre. P y \<longrightarrow> \<not> Q y"
  shows "find Q (filter P xs) = Some x"
proof -
  have "find Q (filter P pre) = None" using assms(4) by (auto simp: find_None_iff)
  then show ?thesis using assms by (induction pre arbitrary: xs) (auto split: if_splits)
qed

lemma match_route_iff: "match_route (rt_segments rt) (path_parts (Path req)) \<noteq> None \<longleftrightarrow> route_matches req rt"
  by (simp add: match_route_spec route_matches_def)

text \<open>
  C33. Dispatch is exact. Of the routes whose pattern fits the path, the first one whose method fits
  (GET routes also serve HEAD) gets the request, with the captured parameters; when the path is known
  but no method fits, the answer is 405 and \<open>Allow\<close> names exactly the methods of the fitting routes,
  sorted and without repetition; only an unknown path reaches \<open>NotFound\<close>.
\<close>

theorem Serve_dispatch:
  "case find (\<lambda>rt. verb_ok rt req) (filter (route_matches req) (routes r)) of
     Some rt \<Rightarrow> Serve r req w g = rt_handler rt
       (req\<lparr>PathParams := map_of (rev (captures (rt_segments rt) (path_parts (Path req))))\<rparr>) w g
   | None \<Rightarrow>
       if filter (route_matches req) (routes r) = [] then Serve r req w g = NotFound r req w g
       else \<exists>verbs w'. sorted verbs \<and> distinct verbs
              \<and> set verbs = rt_method ` set (filter (route_matches req) (routes r))
              \<and> Serve r req w g = (Returned, req, w', g)
              \<and> Headers_Values (w_headers w') ''Allow'' = [Join verbs '', '']
              \<and> (hijacked w \<or> w_status w' = 405)"
proof (cases "find_route (routes r) req (path_parts (Path req)) []")
  case (Inl x)
  then obtain rt ps where x: "x = (rt, ps)" by fastforce
  from find_route_Inl [OF Inl [unfolded x]] obtain pre post where
    p: "routes r = pre @ rt # post" "match_route (rt_segments rt) (path_parts (Path req)) = Some ps" "verb_ok rt req"
       "\<forall>y \<in> set pre. route_matches req y \<longrightarrow> \<not> verb_ok y req"
    unfolding match_route_iff by blast
  have m: "route_matches req rt" using p(2) match_route_iff [of rt req] by simp
  then have "ps = map_of (rev (captures (rt_segments rt) (path_parts (Path req))))"
    using p(2) by (simp add: match_route_spec route_matches_def)
  with find_filter_split [OF p(1) m p(3,4)] Inl x show ?thesis by (simp add: Serve_def)
next
  case (Inr al)
  have al: "distinct al" "set al = rt_method ` set (filter (route_matches req) (routes r))"
    "\<forall>y \<in> set (routes r). route_matches req y \<longrightarrow> \<not> verb_ok y req"
    using find_route_Inr [OF Inr] unfolding match_route_iff by auto
  then have none: "find (\<lambda>rt. verb_ok rt req) (filter (route_matches req) (routes r)) = None"
    by (auto simp: find_None_iff)
  show ?thesis
  proof (cases "al = []")
    case True
    with al(2) have "filter (route_matches req) (routes r) = []" by simp
    with True Inr none show ?thesis by (simp add: Serve_def)
  next
    case False
    with al(2) have ne: "filter (route_matches req) (routes r) \<noteq> []" by force
    let ?w = "w_Error (w_SetHeader w ''Allow'' (Join (sort al) '', '')) 405 (Method req @ '' not allowed here'')"
    have "Headers_Values (w_headers ?w) ''Allow'' = [Join (sort al) '', '']" "hijacked w \<or> w_status ?w = 405"
      by (auto simp: w_Error_def w_SetHeader_def Values_Set)
    moreover have "Serve r req w g = (Returned, req, ?w, g)" using Inr False by (simp add: Serve_def)
    ultimately show ?thesis
      using none ne al by (auto intro!: exI [of _ "sort al"])
  qed
qed

lemma captures_keys: "map fst (captures segs parts) = map param (filter (\<lambda>s. param s \<noteq> []) (take (length parts) segs))"
  by (induction segs parts rule: list_induct2') (auto simp: captures_def)

text \<open>
  A captured parameter is the path part at its position: when the parameter names of a pattern are
  distinct, matching a path binds every name to the part it stands over, and binds nothing else.
\<close>

theorem match_captures:
  assumes "match_route segs parts = Some ps" "distinct (map param (filter (\<lambda>s. param s \<noteq> []) segs))"
  shows "(\<forall>i < length segs. param (segs ! i) \<noteq> [] \<longrightarrow> ps (param (segs ! i)) = Some (parts ! i))
    \<and> dom ps = param ` {s \<in> set segs. param s \<noteq> []} \<and> length segs = length parts"
proof -
  have f: "list_all2 fits segs parts" and ps: "ps = map_of (rev (captures segs parts))"
    using assms(1) by (auto simp: match_route_spec split: if_splits)
  then have len: "length segs = length parts" by (simp add: list_all2_lengthD)
  have d: "distinct (map fst (captures segs parts))" using assms(2) len by (simp add: captures_keys)
  then have ps': "ps = map_of (captures segs parts)"
    using ps by (simp add: map_of_inject_set rev_map [symmetric])
  show ?thesis
  proof (intro conjI allI impI len)
    fix i assume "i < length segs" "param (segs ! i) \<noteq> []"
    then have "(segs ! i, parts ! i) \<in> set (filter (\<lambda>(s, p). param s \<noteq> []) (zip segs parts))"
      using len by (auto simp: set_zip)
    then have "(param (segs ! i), parts ! i) \<in> set (captures segs parts)"
      unfolding captures_def by force
    then show "ps (param (segs ! i)) = Some (parts ! i)" using ps' d by simp
  next
    have "dom ps = set (map fst (captures segs parts))" using ps' by (simp add: dom_map_of_conv_image_fst)
    then show "dom ps = param ` {s \<in> set segs. param s \<noteq> []}" using len by (auto simp: captures_keys)
  qed
qed

theorem match_captures_witness:
  "\<exists>ps. match_route (map parse_segment (path_parts ''/api/users/:id'')) (path_parts ''/api/users/42'') = Some ps
     \<and> ps ''id'' = Some ''42''"
proof -
  let ?s = "map parse_segment (path_parts ''/api/users/:id'')" and ?p = "path_parts ''/api/users/42''"
  have s: "?s = [\<lparr>literal = ''api'', param = []\<rparr>, \<lparr>literal = ''users'', param = []\<rparr>, \<lparr>literal = [], param = ''id''\<rparr>]"
    and p: "?p = [''api'', ''users'', ''42'']" by (simp_all add: go_eval)
  obtain ps where m: "match_route ?s ?p = Some ps" unfolding s p by (simp add: match_route_def)
  have "distinct (map param (filter (\<lambda>s. param s \<noteq> []) ?s))" unfolding s by simp
  from match_captures [OF m this, THEN conjunct1, rule_format, of 2]
  have "ps (param (?s ! 2)) = Some (?p ! 2)" unfolding s by simp
  with m show ?thesis by (simp add: s p)
qed

lemma Serve_well_behaved:
  assumes "\<forall>rt \<in> set (routes r). well_behaved (rt_handler rt)" "well_behaved (NotFound r)"
  shows "well_behaved (Serve r)"
proof (rule well_behavedI)
  fix req w and g :: 'a
  show "sound req w (Serve r req w g)"
  proof (cases "find_route (routes r) req (path_parts (Path req)) []")
    case (Inl x)
    then obtain rt ps where x: "x = (rt, ps)" by fastforce
    with Inl have "rt \<in> set (routes r)" using find_route_Inl [OF Inl [unfolded x]] by force
    then have "sound (req\<lparr>PathParams := ps\<rparr>) w (rt_handler rt (req\<lparr>PathParams := ps\<rparr>) w g)"
      using assms(1) by (simp add: well_behavedD)
    then show ?thesis using Inl x by (auto simp: Serve_def intro: sound_trans)
  next
    case (Inr al)
    then show ?thesis
      using well_behavedD [OF assms(2), of req w g] by (auto simp: Serve_def sound_Returned writer_inv)
  qed
qed

text \<open>Slashes at either end of a path do not count.\<close>

lemma path_parts_leading: "path_parts (CHR ''/'' # p) = path_parts p"
  by (simp add: path_parts_def Trim_def TrimLeft_def)

end
