(* ===== verification/Pulse_App.thy ===== *)
theory Pulse_App
  imports Proxy_Wire Http_Auth Http_Router Rate_Limit Http_Cache Http_Metrics
begin

text \<open>
  \<open>cmd/pulsehttp/main.go\<close>: the demo API (\<open>buildAPI\<close>), the access policy, and how \<open>main\<close> puts the
  components together for its three cases: server mode, proxy mode, and any other value of \<open>-mode\<close>.

  The flags are a record of their parsed values. What the binary takes from elsewhere is the record
  \<open>Externals\<close>: the rounding of \<open>float64\<close>, the JSON text of a metrics snapshot, SHA-256, the error
  texts of the proxy. The handshake, signals and the sleeping of \<open>/api/slow\<close> have no effect on what is answered
  and are left out (the drain is in \<open>Http_Lifecycle\<close>).
\<close>

section \<open>The API\<close>

record Externals =
  ex_rnd :: "real \<Rightarrow> real"
  ex_marshal :: "Snapshot \<Rightarrow> bytes"
  ex_sha256 :: "bytes \<Rightarrow> bytes"
  ex_failure_text :: "int \<Rightarrow> relay_error option \<Rightarrow> bytes"

type_synonym app_world = "(Registry, RateLimiter, Cache, Pool) world"
type_synonym app_handler = "app_world handler"

text \<open>\<open>mustJSON\<close> of a map: \<open>json.Marshal\<close> sorts the keys (they are listed in that order here).\<close>

definition mustJSON :: "json \<Rightarrow> bytes" where
  "mustJSON v = json_Marshal v"

definition api_root :: app_handler where
  "api_root req w g =
     (Returned, req, w_JSON w 200 (mustJSON (JObj
        [(''proto'', JString ''HTTP/1.1 from raw TCP''),
         (''routes'', JArr (map JString
            [''GET /healthz'', ''GET /metrics'', ''GET /api/users/:id'', ''POST /api/echo'',
             ''GET /api/heavy?n='', ''GET /api/slow?ms='', ''GET /api/private/profile'',
             ''GET /admin/stats'', ''GET /boom''])),
         (''service'', JString ''PulseHTTP'')])), g)"

definition api_healthz :: app_handler where
  "api_healthz req w g =
     (Returned, req, w_JSON w 200 (''{'' @ quoted ''status'' @ '':'' @ quoted ''ok'' @ ''}''), g)"

definition api_metrics :: "Externals \<Rightarrow> app_handler" where
  "api_metrics ex = Metrics_Handler (ex_rnd ex) (ex_marshal ex)"

text \<open>The verb \<open>%04d\<close>: zeros between the sign and the digits, up to four characters in all.\<close>

definition fmt_04d :: "int \<Rightarrow> bytes" where
  "fmt_04d i =
     (let sign = (if i < 0 then ''-'' else []); digits = fmt_nat 10 (nat \<bar>i\<bar>)
      in sign @ replicate (4 - length sign - length digits) (CHR ''0'') @ digits)"

definition api_users :: app_handler where
  "api_users req w g =
     (case Atoi (map_slice (PathParams req) ''id'') of
        (i, err) \<Rightarrow>
          if err \<noteq> None then (Returned, req, w_Error w StatusBadRequest ''user id must be numeric'', g)
          else (Returned, req, w_JSON w 200 (mustJSON (JObj
                  [(''active'', JBool (i mod 2 = 0)), (''id'', JInt i),
                   (''name'', JString (''user-'' @ fmt_04d i))])), g))"

definition api_echo :: app_handler where
  "api_echo req w g =
     (Returned, req,
      w_Write (w_WriteHeader
        (w_SetHeader w ''Content-Type'' (Headers_Get (ReqHeaders req) ''Content-Type'')) 200) (ReqBody req), g)"

definition api_heavy :: "Externals \<Rightarrow> app_handler" where
  "api_heavy ex req w g =
     (let n = fst (Atoi (Values_Get (Query req) ''n''));
          n = (if n \<le> 0 then 20000 else n);
          sum = (ex_sha256 ex ^^ nat n) (ex_sha256 ex ''pulse'')
      in (Returned, req, w_JSON w 200 (mustJSON (JObj
            [(''digest'', JString (hex_EncodeToString (take 8 sum))), (''rounds'', JInt n)])), g))"

definition api_slow :: app_handler where
  "api_slow req w g =
     (let ms = fst (Atoi (Values_Get (Query req) ''ms''));
          ms = (if ms \<le> 0 then 100 else ms);
          ms = (if ms > 10000 then 10000 else ms)
      in (Returned, req, w_JSON w 200 (mustJSON (JObj [(''slept_ms'', JInt ms)])), g))"

text \<open>\<open>fmt.Sprint\<close> of a metadata value: a role is a plain number, a missing one is nil.\<close>

definition Sprint_meta :: "meta_value option \<Rightarrow> bytes" where
  "Sprint_meta v = (case v of None \<Rightarrow> ''<nil>'' | Some (MetaString s) \<Rightarrow> s | Some (MetaRole r) \<Rightarrow> Itoa r)"

definition api_profile :: app_handler where
  "api_profile req w g =
     (Returned, req, w_JSON w 200 (mustJSON (JObj
        [(''plan'', JString ''pro''), (''role'', JString (Sprint_meta (Meta req ''role'')))])), g)"

definition api_boom :: app_handler where
  "api_boom req w g = (Panicked, req, w, g)"

definition api_routes :: "Externals \<Rightarrow> app_world Router" where
  "api_routes ex =
     (let r = New;
          r = GET r ''/'' api_root;
          r = GET r ''/healthz'' api_healthz;
          r = GET r ''/metrics'' (api_metrics ex);
          r = GET r ''/api/users/:id'' api_users;
          r = POST r ''/api/echo'' api_echo;
          r = GET r ''/api/heavy'' (api_heavy ex);
          r = GET r ''/api/slow'' api_slow;
          r = GET r ''/api/private/profile'' api_profile;
          r = GET r ''/admin/stats'' (api_metrics ex)
      in GET r ''/boom'' api_boom)"

definition buildAPI :: "Externals \<Rightarrow> app_handler" where
  "buildAPI ex = Serve (api_routes ex)"

section \<open>The policy and the assembly\<close>

definition required_role :: "bytes \<Rightarrow> int" where
  "required_role path =
     (if HasPrefix path ''/admin/'' then RoleAdmin
      else if HasPrefix path ''/api/private/'' then RoleUser
      else RoleAnonymous)"

definition api_auth :: AuthConfig where
  "api_auth =
     \<lparr>Tokens = [''user-alpha-token'' \<mapsto> RoleUser, ''admin-omega-token'' \<mapsto> RoleAdmin],
      RequiredRole = required_role\<rparr>"

record Flags =
  fl_mode :: bytes
  fl_upstreams :: bytes
  fl_strategy :: bytes
  fl_rate :: real
  fl_burst :: real
  fl_cache :: int
  fl_cache_ttl :: duration
  fl_quiet :: bool

definition default_flags :: Flags where
  "default_flags =
     \<lparr>fl_mode = ''server'', fl_upstreams = [], fl_strategy = ''round-robin'', fl_rate = 500, fl_burst = 1000,
      fl_cache = 1024, fl_cache_ttl = 30 * Second, fl_quiet = False\<rparr>"

definition strategy_of :: "bytes \<Rightarrow> Strategy" where
  "strategy_of s =
     (if s = ''least-conn'' then LeastConnections
      else if s = ''round-robin'' \<or> s = [] then RoundRobin else OtherStrategy)"

definition pool_config :: "Flags \<Rightarrow> PoolConfig" where
  "pool_config fl =
     \<lparr>px_Strategy = strategy_of (fl_strategy fl), DialTimeout = 0, ResponseTimeout = 0, HealthInterval = 0,
      MaxAttempts = 0, px_MaxBodyBytes = 0, PoolSize = 0\<rparr>"

definition limiter_config :: "Flags \<Rightarrow> RateLimitConfig" where
  "limiter_config fl = rl_cfg (NewRateLimiter (fl_rate fl) (fl_burst fl) None)"

definition middlewares :: "Externals \<Rightarrow> Flags \<Rightarrow> (app_handler \<Rightarrow> app_handler) list" where
  "middlewares ex fl =
     [Metrics_Middleware]
     @ (if \<not> fl_quiet fl then [Logging] else [])
     @ [RequestID, Recover]
     @ (if fl_rate fl > 0 then [RateLimit_Middleware (ex_rnd ex) (limiter_config fl)] else [])
     @ (if fl_mode fl = ''server''
        then [BearerAuth api_auth] @ (if fl_cache fl > 0 then [Cache_Middleware (ex_sha256 ex)] else [])
        else [])"

definition main_handler :: "Externals \<Rightarrow> Flags \<Rightarrow> app_handler" where
  "main_handler ex fl =
     Chain (if fl_mode fl = ''proxy'' then Proxy_Handler (ex_failure_text ex) else buildAPI ex)
       (middlewares ex fl)"

text \<open>
  The state \<open>main\<close> starts with; \<open>Inl\<close> is the exit code when proxy mode has no upstreams, \<open>None\<close> a panic
  of \<open>NewPool\<close>.
\<close>

definition main_state :: "Flags \<Rightarrow> instant \<Rightarrow> (nat \<Rightarrow> bytes \<Rightarrow> bool) \<Rightarrow> (nat \<Rightarrow> reply)
    \<Rightarrow> (int + Registry \<times> RateLimiter \<times> Cache \<times> Pool option) option" where
  "main_state fl now dl rep =
     (let reg = NewRegistry now;
          rl = NewRateLimiter (fl_rate fl) (fl_burst fl) None;
          ca = cache_New (fl_cache fl) (fl_cache_ttl fl)
      in if fl_mode fl \<noteq> ''proxy'' then Some (Inr (reg, rl, ca, None))
         else if fl_upstreams fl = [] then Some (Inl 2)
         else (case NewPool (pool_config fl) (Split (CHR '','') (fl_upstreams fl)) dl rep of
                 None \<Rightarrow> None
               | Some p \<Rightarrow> Some (Inr (reg, rl, ca, Some p))))"

text \<open>
  The key pair, if one is given, is loaded first, and the exit code of the program: \<open>None\<close> is a panic,
  \<open>served\<close> says whether \<open>ListenAndServe\<close> ended without an error.
\<close>

definition tls_startup :: "bytes \<Rightarrow> bytes \<Rightarrow> (bytes \<Rightarrow> bytes \<Rightarrow> 'c option) \<Rightarrow> int + 'c option" where
  "tls_startup cert key load_pair =
     (if cert \<noteq> [] \<or> key \<noteq> []
      then (case load_pair cert key of None \<Rightarrow> Inl 2 | Some c \<Rightarrow> Inr (Some c))
      else Inr None)"

definition main_exit :: "int + 'c option \<Rightarrow> (int + 's) option \<Rightarrow> bool \<Rightarrow> int option" where
  "main_exit tls state served =
     (case tls of
        Inl code \<Rightarrow> Some code
      | Inr _ \<Rightarrow> (case state of
            None \<Rightarrow> None
          | Some (Inl code) \<Rightarrow> Some code
          | Some (Inr _) \<Rightarrow> Some (if served then 0 else 1)))"

lemmas app_defs [go_eval] =
  mustJSON_def api_root_def api_healthz_def api_metrics_def fmt_04d_def api_users_def api_echo_def
  api_heavy_def api_slow_def Sprint_meta_def api_profile_def api_boom_def api_routes_def buildAPI_def
  required_role_def api_auth_def default_flags_def strategy_of_def pool_config_def limiter_config_def
  middlewares_def main_handler_def main_state_def tls_startup_def main_exit_def

section \<open>The routes\<close>

text \<open>The table as \<open>Handle\<close> builds it: literal segments, and one parameter.\<close>

definition lit :: "bytes \<Rightarrow> segment" where
  "lit s = \<lparr>literal = s, param = []\<rparr>"

lemma api_routes_table:
  "routes (api_routes ex) = map (\<lambda>(m, ss, h). \<lparr>rt_method = m, rt_segments = ss, rt_handler = h\<rparr>)
     [(''GET'', [lit []], api_root), (''GET'', [lit ''healthz''], api_healthz),
      (''GET'', [lit ''metrics''], api_metrics ex),
      (''GET'', [lit ''api'', lit ''users'', \<lparr>literal = [], param = ''id''\<rparr>], api_users),
      (''POST'', [lit ''api'', lit ''echo''], api_echo), (''GET'', [lit ''api'', lit ''heavy''], api_heavy ex),
      (''GET'', [lit ''api'', lit ''slow''], api_slow),
      (''GET'', [lit ''api'', lit ''private'', lit ''profile''], api_profile),
      (''GET'', [lit ''admin'', lit ''stats''], api_metrics ex), (''GET'', [lit ''boom''], api_boom)]"
  by (simp add: go_eval lit_def del: api_root_def api_healthz_def api_metrics_def api_users_def api_echo_def
      api_heavy_def api_slow_def api_profile_def api_boom_def)

lemmas dispatch = buildAPI_def Serve_def api_routes_table lit_def match_route_def verb_ok_def

lemma buildAPI_admin:
  assumes "path_parts (Path req) = [''admin'', ''stats'']" "Method req = ''GET''"
  shows "buildAPI ex req w g = api_metrics ex (req\<lparr>PathParams := Map.empty\<rparr>) w g"
  using assms by (simp add: dispatch)

lemma buildAPI_users:
  assumes "path_parts (Path req) = [''api'', ''users'', i]" "Method req = ''GET''"
  shows "buildAPI ex req w g = api_users (req\<lparr>PathParams := [''id'' \<mapsto> i]\<rparr>) w g"
  using assms by (simp add: dispatch)

section \<open>Contracts of the assembled handler\<close>

lemma api_well_behaved:
  "well_behaved api_root" "well_behaved api_healthz" "well_behaved (api_metrics ex)" "well_behaved api_users"
  "well_behaved api_echo" "well_behaved (api_heavy ex)" "well_behaved api_slow" "well_behaved api_profile"
  "well_behaved api_boom"
  by (rule well_behavedI; simp add: api_root_def api_healthz_def api_metrics_def Metrics_Handler_def time_Now_def
      api_users_def api_echo_def api_heavy_def api_slow_def api_profile_def api_boom_def sound_def writer_inv
      Let_def split_beta)+

lemma buildAPI_well_behaved: "well_behaved (buildAPI ex)"
  unfolding buildAPI_def
proof (rule Serve_well_behaved)
  show "\<forall>rt \<in> set (routes (api_routes ex)). well_behaved (rt_handler rt)"
    by (simp add: api_routes_table api_well_behaved)
  have "NotFound (api_routes ex) = NotFound New" by (simp add: api_routes_def GET_def POST_def Handle_def Let_def)
  then show "well_behaved (NotFound (api_routes ex))"
    by (simp add: New_def well_behaved_def sound_def writer_inv)
qed

lemma middlewares_sound: "\<forall>mw \<in> set (middlewares ex fl). middleware mw"
  using metrics.middleware_axioms logging.middleware_axioms request_id.middleware_axioms
    recover.middleware_axioms rate_limit.middleware_axioms bearer_auth.middleware_axioms
    response_cache.middleware_axioms
  by (auto simp: middlewares_def RateLimit_Middleware_def)


section \<open>The metrics see every request\<close>

text \<open>A handler that leaves the registry to the metrics middleware, and a middleware that keeps it so.\<close>

definition unmetered :: "('m, 'r, 'c, 'p) world handler \<Rightarrow> bool" where
  "unmetered h \<longleftrightarrow> (\<forall>req w g. registry (snd (snd (snd (h req w g)))) = registry g)"

locale unmetered_wrapper =
  fixes mw :: "('m, 'r, 'c, 'p) world handler \<Rightarrow> ('m, 'r, 'c, 'p) world handler"
  assumes wraps: "unmetered h \<Longrightarrow> unmetered (mw h)"
begin

lemma registry_kept: "unmetered h \<Longrightarrow> mw h req w g = (ou, req', w', g') \<Longrightarrow> registry g' = registry g"
  using wraps [of h] by (simp add: unmetered_def) (metis snd_conv)

end

lemma Chain_unmetered:
  "unmetered h \<Longrightarrow> \<forall>mw \<in> set mws. unmetered_wrapper mw \<Longrightarrow> unmetered (Chain h mws)"
  unfolding Chain_foldr by (induction mws) (auto simp: unmetered_wrapper_def)

lemma and_then_registry:
  "(\<And>req w g. registry (snd (snd (snd (k req w g)))) = registry g) \<Longrightarrow>
     registry (snd (snd (snd (and_then r k)))) = registry (snd (snd (snd r)))"
  by (cases "(r, k)" rule: and_then.cases) simp_all

interpretation unmetered_logging: unmetered_wrapper Logging
proof
  fix h :: "('a, 'b, 'c, 'd) world handler"
  assume "unmetered h"
  then show "unmetered (Logging h)"
    by (simp add: unmetered_def Logging_def time_Now_def and_then_registry write_log_def)
qed

interpretation unmetered_recover: unmetered_wrapper Recover
proof
  fix h :: "('a, 'b, 'c, 'd) world handler"
  assume h: "unmetered h"
  have "registry (snd (snd (snd (recovered r)))) = registry (snd (snd (snd r)))" for r :: "('a, 'b, 'c, 'd) world result"
    by (cases r rule: recovered.cases) simp_all
  with h show "unmetered (Recover h)" by (simp add: unmetered_def Recover_def)
qed

interpretation unmetered_request_id: unmetered_wrapper RequestID
  by unfold_locales (simp add: unmetered_def RequestID_def stamp_id_def rand_Read_def Let_def)

interpretation unmetered_rate_limit: unmetered_wrapper "RateLimit_Middleware rnd cfg" for rnd cfg
  by unfold_locales
     (simp add: unmetered_def RateLimit_Middleware_def RateLimit_def time_Now_def Let_def split_beta)

interpretation unmetered_auth: unmetered_wrapper "BearerAuth cfg" for cfg
  by unfold_locales (simp add: unmetered_def BearerAuth_def Let_def split_beta split: option.split)

interpretation unmetered_cache: unmetered_wrapper "Cache_Middleware sha256" for sha256
proof
  fix h :: "('a, 'b, Cache, 'c) world handler"
  assume h: "unmetered h"
  have st: "registry (snd (snd (snd (store_response sha256 key now req w g)))) = registry g"
    for key now req w and g :: "('a, 'b, Cache, 'c) world"
    by (simp add: store_response_def Let_def split: option.split)
  have aw: "registry (snd (snd (snd (after_write key req w g)))) = registry g"
    for key req w and g :: "('a, 'b, Cache, 'c) world"
    by (simp add: after_write_def)
  have "registry (snd (snd (snd (Cache_Middleware sha256 h req w g)))) = registry g" for req w g
    using h unfolding unmetered_def Cache_Middleware_def Let_def
    by (auto simp: time_Now_def and_then_registry st aw split: prod.split option.split)
  then show "unmetered (Cache_Middleware sha256 h)" by (simp add: unmetered_def)
qed

lemma api_unmetered:
  "unmetered api_root" "unmetered api_healthz" "unmetered (api_metrics ex)" "unmetered api_users"
  "unmetered api_echo" "unmetered (api_heavy ex)" "unmetered api_slow" "unmetered api_profile"
  "unmetered api_boom"
  by (simp_all add: api_root_def api_healthz_def api_metrics_def Metrics_Handler_def time_Now_def
      api_users_def api_echo_def api_heavy_def api_slow_def api_profile_def api_boom_def unmetered_def
      Let_def split_beta)

lemma Serve_unmetered:
  assumes "\<forall>rt \<in> set (routes r). unmetered (rt_handler rt)" "unmetered (NotFound r)"
  shows "unmetered (Serve r)"
proof -
  have "registry (snd (snd (snd (Serve r req w g)))) = registry g" for req w g
  proof (cases "find_route (routes r) req (path_parts (Path req)) []")
    case (Inl x)
    then obtain rt ps where x: "x = (rt, ps)" by fastforce
    with Inl have "rt \<in> set (routes r)" using find_route_Inl by fastforce
    with assms Inl x show ?thesis by (simp add: Serve_def unmetered_def)
  next
    case (Inr al)
    with assms show ?thesis by (simp add: Serve_def unmetered_def)
  qed
  then show ?thesis by (simp add: unmetered_def)
qed

lemma buildAPI_unmetered: "unmetered (buildAPI ex)"
  unfolding buildAPI_def
proof (rule Serve_unmetered)
  show "\<forall>rt \<in> set (routes (api_routes ex)). unmetered (rt_handler rt)"
    by (simp add: api_routes_table api_unmetered)
  have "NotFound (api_routes ex) = NotFound New" by (simp add: api_routes_def GET_def POST_def Handle_def Let_def)
  then show "unmetered (NotFound (api_routes ex))" by (simp add: New_def unmetered_def)
qed

lemma Proxy_Handler_unmetered: "unmetered (Proxy_Handler ft)"
  by (simp add: unmetered_def Proxy_Handler_def split_beta)

text \<open>The part of the stack inside the metrics middleware.\<close>

definition inner_middlewares :: "Externals \<Rightarrow> Flags \<Rightarrow> (app_handler \<Rightarrow> app_handler) list" where
  "inner_middlewares ex fl =
     (if fl_rate fl > 0 then [RateLimit_Middleware (ex_rnd ex) (limiter_config fl)] else [])
     @ (if fl_mode fl = ''server''
        then [BearerAuth api_auth] @ (if fl_cache fl > 0 then [Cache_Middleware (ex_sha256 ex)] else [])
        else [])"

definition inner_handler :: "Externals \<Rightarrow> Flags \<Rightarrow> app_handler" where
  "inner_handler ex fl =
     Chain (if fl_mode fl = ''proxy'' then Proxy_Handler (ex_failure_text ex) else buildAPI ex)
       (inner_middlewares ex fl)"

lemma main_handler_layers:
  "main_handler ex fl =
     Metrics_Middleware ((if fl_quiet fl then id else Logging) (RequestID (Recover (inner_handler ex fl))))"
  by (simp add: main_handler_def middlewares_def inner_handler_def inner_middlewares_def Chain_foldr)

lemma inner_unmetered: "unmetered (inner_handler ex fl)"
  unfolding inner_handler_def inner_middlewares_def
  by (rule Chain_unmetered)
     (auto simp: buildAPI_unmetered Proxy_Handler_unmetered unmetered_rate_limit.unmetered_wrapper_axioms
        unmetered_auth.unmetered_wrapper_axioms unmetered_cache.unmetered_wrapper_axioms)

lemma wrap64_back: "wrap64 (wrap64 (i + 1) - 1) = wrap64 i"
proof -
  have "(i + 1 + 2 ^ 63) mod 2 ^ 64 - 2 ^ 63 - 1 + 2 ^ 63 = (i + 1 + 2 ^ 63) mod 2 ^ 64 - (1 :: int)" by simp
  then show ?thesis unfolding wrap64_def by (simp only: mod_diff_left_eq) (simp add: add.commute)
qed

lemma metrics_returned:
  assumes "h req w ((inflight_Add 1 g)\<lparr>ticks := Suc (ticks g)\<rparr>) = (Returned, req', w', g')"
  shows "\<exists>g'' d. Metrics_Middleware h req w g = (Returned, req', w', g'')
    \<and> registry g'' = Observe ((registry g')\<lparr>inflight := wrap64 (inflight (registry g') - 1)\<rparr>) (w_status w') d"
  using assms by (simp add: Metrics_Middleware_def inflight_Add_def time_Now_def observe_exchange_def) blast

lemma recovered_returns: "fst (recovered r) = Returned"
  by (cases r rule: recovered.cases) simp_all

lemma request_id_returns: "fst (RequestID (Recover h) req w g) = Returned"
  by (simp add: RequestID_def stamp_id_def rand_Read_def Recover_def recovered_returns Let_def)

lemma logging_returns: "fst (h req w (g\<lparr>ticks := Suc (ticks g)\<rparr>)) = Returned \<Longrightarrow> fst (Logging h req w g) = Returned"
  by (cases "h req w (g\<lparr>ticks := Suc (ticks g)\<rparr>)") (simp add: Logging_def time_Now_def write_log_def)

text \<open>
  C13. The program's own stack accounts for every request. Whatever the flags and the request,
  panicking handlers included, the assembled handler returns, raises the total by one under the status
  it answered with, and leaves the in-flight gauge where it was: the recovery is inside the metrics, so
  the gauge does not leak here as it does for a handler that panics through the metrics middleware.
\<close>

theorem main_counts_every_request:
  assumes "MinInt64 \<le> inflight (registry g)" "inflight (registry g) \<le> MaxInt64"
  shows "\<exists>req' w' g'. main_handler ex fl req w g = (Returned, req', w', g')
    \<and> total (registry g') = total (registry g) + 1
    \<and> inflight (registry g') = inflight (registry g)
    \<and> byStatus (registry g') = (byStatus (registry g))(w_status w' \<mapsto>
        (case byStatus (registry g) (w_status w') of None \<Rightarrow> 0 | Some n \<Rightarrow> n) + 1)"
proof -
  define h where "h = (if fl_quiet fl then id else Logging) (RequestID (Recover (inner_handler ex fl)))"
  let ?g = "(inflight_Add 1 g)\<lparr>ticks := Suc (ticks g)\<rparr>"
  have u: "unmetered h"
    by (simp add: h_def unmetered_logging.wraps unmetered_request_id.wraps unmetered_recover.wraps inner_unmetered)
  have r: "fst (h req w ?g) = Returned"
    by (cases "fl_quiet fl") (simp_all add: h_def request_id_returns logging_returns)
  obtain ou req' w' g' where run: "h req w ?g = (ou, req', w', g')" by (rule prod_cases4)
  have ou: "ou = Returned" using r run by simp
  have "registry (snd (snd (snd (h req w ?g)))) = registry ?g" using u by (simp only: unmetered_def)
  then have reg: "registry g' = registry ?g" unfolding run by simp
  have wrap: "wrap64 (wrap64 (inflight (registry g) + 1) - 1) = inflight (registry g)"
    using assms by (simp add: wrap64_back wrap64_id)
  obtain g'' d where m: "Metrics_Middleware h req w g = (Returned, req', w', g'')"
    "registry g'' = Observe ((registry g')\<lparr>inflight := wrap64 (inflight (registry g') - 1)\<rparr>) (w_status w') d"
    using metrics_returned [of h req w g, OF run [unfolded ou]] by blast
  have "registry g' = (registry g)\<lparr>inflight := wrap64 (inflight (registry g) + 1)\<rparr>"
    using reg by (simp add: inflight_Add_def)
  with m wrap show ?thesis
    unfolding main_handler_layers h_def [symmetric] by (simp add: Observe_def Let_def)
qed

definition sample_externals :: Externals where
  "sample_externals =
     \<lparr>ex_rnd = id, ex_marshal = (\<lambda>s. ''snapshot''), ex_sha256 = id, ex_failure_text = (\<lambda>_ _. ''failed'')\<rparr>"

definition sample_app :: app_world where
  "sample_app = sample_world (NewRegistry 0) (NewRateLimiter 500 1000 None) (cache_New 1024 (30 * Second))
     (sample_pool RoundRobin silent)"

theorem main_counts_every_request_witness:
  "\<exists>req' w' g'. main_handler sample_externals default_flags (sample_request ''GET'' ''/boom'') NewResponseWriter sample_app
      = (Returned, req', w', g') \<and> total (registry g') = 1 \<and> inflight (registry g') = 0"
proof -
  have r: "registry sample_app = NewRegistry 0" by (simp add: sample_app_def sample_world_def)
  have b: "MinInt64 \<le> inflight (registry sample_app)" "inflight (registry sample_app) \<le> MaxInt64"
    by (simp_all add: r NewRegistry_def MinInt64_def MaxInt64_def)
  have "inflight (registry sample_app) = 0" "total (registry sample_app) = 0" by (simp_all add: r NewRegistry_def)
  with main_counts_every_request [OF b, of sample_externals default_flags "sample_request ''GET'' ''/boom''" NewResponseWriter]
  show ?thesis by auto
qed

section \<open>Who gets to the administration page\<close>

lemma single_slash_prefix:
  assumes "Path req = CHR ''/'' # c # p" "c \<noteq> CHR ''/''" "path_parts (Path req) = a # b # bs"
  shows "HasPrefix (Path req) (CHR ''/'' # a @ ''/'')"
proof -
  let ?t = "TrimRight (c # p) ''/''"
  have "Trim (Path req) ''/'' = ?t" using assms(1,2) by (simp add: Trim_def TrimLeft_def)
  then have "Split (CHR ''/'') ?t = a # b # bs" using assms(3) by (simp add: path_parts_def)
  then have "?t = a @ ''/'' @ Join (b # bs) ''/''" using Join_Split [of "CHR ''/''" ?t] by simp
  moreover have "prefix ?t (c # p)"
    unfolding TrimRight_def by (metis rev_rev_ident suffix_dropWhile suffix_to_prefix)
  ultimately have "prefix (a @ ''/'') (c # p)" by (auto simp: prefix_def)
  then show ?thesis using assms(1) by (simp add: HasPrefix_def)
qed

text \<open>What a layer does to an answer that is settled below it: nothing but its own refusals.\<close>

definition settles :: "(Request \<Rightarrow> bool) \<Rightarrow> (ResponseWriter \<Rightarrow> bool) \<Rightarrow> app_handler \<Rightarrow> bool" where
  "settles Q P h \<longleftrightarrow> (\<forall>req w g. Q req \<and> \<not> hijacked w \<and> w_body w = [] \<longrightarrow>
     (\<exists>req' w' g'. h req w g = (Returned, req', w', g') \<and> P w'))"

lemma settlesI:
  "(\<And>req w g. Q req \<Longrightarrow> \<not> hijacked w \<Longrightarrow> w_body w = [] \<Longrightarrow> \<exists>req' w' g'. h req w g = (Returned, req', w', g') \<and> P w')
    \<Longrightarrow> settles Q P h"
  unfolding settles_def by blast

lemma settlesE:
  assumes "settles Q P h" "Q req" "\<not> hijacked w" "w_body w = []"
  obtains req' w' g' where "h req w g = (Returned, req', w', g')" "P w'"
  using assms unfolding settles_def by blast

lemma settles_metrics:
  assumes "settles Q P h"
  shows "settles Q P (Metrics_Middleware h)"
proof (rule settlesI)
  fix req and w :: ResponseWriter and g :: app_world
  assume "Q req" "\<not> hijacked w" "w_body w = []"
  with assms obtain req' w' g' where
    "h req w ((inflight_Add 1 g)\<lparr>ticks := Suc (ticks g)\<rparr>) = (Returned, req', w', g')" "P w'" by (rule settlesE)
  then show "\<exists>req' w' g'. Metrics_Middleware h req w g = (Returned, req', w', g') \<and> P w'"
    using metrics_returned by blast
qed

lemma settles_logging:
  assumes "settles Q P h"
  shows "settles Q P (Logging h)"
proof (rule settlesI)
  fix req and w :: ResponseWriter and g :: app_world
  assume "Q req" "\<not> hijacked w" "w_body w = []"
  with assms obtain req' w' g' where
    "h req w (g\<lparr>ticks := Suc (ticks g)\<rparr>) = (Returned, req', w', g')" "P w'" by (rule settlesE)
  then show "\<exists>req' w' g'. Logging h req w g = (Returned, req', w', g') \<and> P w'"
    by (simp add: Logging_def time_Now_def write_log_def)
qed

lemma settles_request_id:
  assumes "settles Q P h" "\<And>req m. Q (req\<lparr>Meta := m\<rparr>) = Q req"
  shows "settles Q P (RequestID h)"
proof (rule settlesI)
  fix req and w :: ResponseWriter and g :: app_world
  assume a: "Q req" "\<not> hijacked w" "w_body w = []"
  have "\<exists>req' w' g'. stamp_id h i req w g = (Returned, req', w', g') \<and> P w'" for i g
    unfolding stamp_id_def
    by (rule settlesE [OF assms(1), of "req\<lparr>Meta := (Meta req)(''request_id'' \<mapsto> MetaString i)\<rparr>"
          "w_SetHeader w ''X-Request-ID'' i" g]) (use a assms(2) in \<open>auto simp: w_SetHeader_def\<close>)
  then show "\<exists>req' w' g'. RequestID h req w g = (Returned, req', w', g') \<and> P w'"
    by (simp add: RequestID_def rand_Read_def Let_def)
qed

lemma settles_recover:
  assumes "settles Q P h"
  shows "settles Q P (Recover h)"
proof (rule settlesI)
  fix req and w :: ResponseWriter and g :: app_world
  assume "Q req" "\<not> hijacked w" "w_body w = []"
  with assms obtain req' w' g' where "h req w g = (Returned, req', w', g')" "P w'" by (rule settlesE)
  then show "\<exists>req' w' g'. Recover h req w g = (Returned, req', w', g') \<and> P w'" by (simp add: Recover_def)
qed

lemma settles_rate_limit:
  assumes "settles Q P h"
  shows "settles Q (\<lambda>w. P w \<or> w_status w = 429) (RateLimit_Middleware rnd cfg h)"
proof (rule settlesI)
  fix req and w :: ResponseWriter and g :: app_world
  assume a: "Q req" "\<not> hijacked w" "w_body w = []"
  let ?now = "clock g (ticks g)" and ?g = "g\<lparr>ticks := Suc (ticks g)\<rparr>"
  obtain v rl where "rl_take rnd (limiter g) (Key (rl_cfg (limiter g)) req) ?now = (v, rl)" by fastforce
  moreover obtain al rem wait where "v = (al, rem, wait)" by (rule prod_cases3)
  ultimately have tk: "rl_take rnd (limiter g) (Key (rl_cfg (limiter g)) req) ?now = ((al, rem, wait), rl)" by simp
  let ?w = "w_SetHeader (w_SetHeader w ''X-RateLimit-Limit'' (Itoa (go_trunc (Burst cfg))))
      ''X-RateLimit-Remaining'' (Itoa rem)"
  show "\<exists>req' w' g'. RateLimit_Middleware rnd cfg h req w g = (Returned, req', w', g') \<and> (P w' \<or> w_status w' = 429)"
  proof (cases al)
    case True
    have "\<exists>req' w' g'. h req ?w (?g\<lparr>limiter := rl\<rparr>) = (Returned, req', w', g') \<and> P w'"
      by (rule settlesE [OF assms a(1), of ?w "?g\<lparr>limiter := rl\<rparr>"]) (use a in \<open>auto simp: w_SetHeader_def\<close>)
    with True tk show ?thesis
      by (auto simp: RateLimit_Middleware_def RateLimit_def time_Now_def Let_def)
  next
    case False
    with tk a(2) show ?thesis
      by (simp add: RateLimit_Middleware_def RateLimit_def time_Now_def Let_def w_Error_def w_SetHeader_def)
  qed
qed

lemma settles_main:
  assumes "settles Q P (inner_handler ex fl)" "\<And>req m. Q (req\<lparr>Meta := m\<rparr>) = Q req"
  shows "settles Q P (main_handler ex fl)"
  unfolding main_handler_layers
  using assms by (simp add: settles_metrics settles_logging settles_request_id settles_recover)

lemma api_identity: "identity api_auth q = Some r \<Longrightarrow> r = RoleUser \<or> r = RoleAdmin"
  by (auto simp: identity_def api_auth_def Let_def split: if_splits)

lemma settles_auth_deny:
  assumes "\<And>q. Q q \<Longrightarrow> required_role (Path q) = RoleAdmin \<and> identity api_auth q \<noteq> Some RoleAdmin"
  shows "settles Q (\<lambda>w'. w_status w' \<in> {401, 403}) (BearerAuth api_auth h)"
proof (rule settlesI)
  fix req and w :: ResponseWriter and g :: app_world
  assume q: "Q req" "\<not> hijacked w"
  have need: "RequiredRole api_auth (Path req) = RoleAdmin" "\<not> RoleAdmin = RoleAnonymous"
    using assms [OF q(1)] by (simp_all add: api_auth_def role_defs)
  show "\<exists>req' w' g'. BearerAuth api_auth h req w g = (Returned, req', w', g') \<and> w_status w' \<in> {401, 403}"
  proof (cases "identity api_auth req")
    case None
    with BearerAuth_cases [OF q(2), of api_auth req h g] need show ?thesis by auto
  next
    case (Some r)
    then have "r < RoleAdmin" using api_identity [OF Some] assms [OF q(1)] by (auto simp: role_defs)
    with Some BearerAuth_cases [OF q(2), of api_auth req h g] need show ?thesis by auto
  qed
qed

lemma server_inner:
  assumes "fl_mode fl = ''server''"
  shows "inner_handler ex fl =
    (if fl_rate fl > 0 then RateLimit_Middleware (ex_rnd ex) (limiter_config fl) else id)
      (BearerAuth api_auth ((if fl_cache fl > 0 then Cache_Middleware (ex_sha256 ex) else id) (buildAPI ex)))"
  using assms by (simp add: inner_handler_def inner_middlewares_def Chain_foldr)

text \<open>Limited or not: what is settled below the limiter is settled, or the limiter answers 429.\<close>

lemma settles_limited:
  assumes "settles Q P h"
  shows "settles Q (\<lambda>w. P w \<or> w_status w = 429 \<and> fl_rate fl > 0)
    ((if fl_rate fl > 0 then RateLimit_Middleware (ex_rnd ex) (limiter_config fl) else id) h)"
  using assms settles_rate_limit [OF assms] by (cases "fl_rate fl > 0") simp_all


lemma admin_not_private:
  assumes "path_parts p = [''admin'', ''stats'']"
  shows "\<not> HasPrefix p ''/api/private/''"
proof
  assume "HasPrefix p ''/api/private/''"
  then obtain s where p: "p = ''/api/private/'' @ s" by (auto simp: HasPrefix_def prefix_def)
  let ?t = "''api/private/'' @ s"
  have eq: "Trim p ''/'' = TrimRight ?t ''/''" by (simp add: p Trim_def TrimLeft_def)
  have "Trim p ''/'' = ''admin/stats''"
    using Join_Split [of "CHR ''/''" "Trim p ''/''"] assms by (simp add: path_parts_def)
  with eq have tr: "TrimRight ?t ''/'' = ''admin/stats''" by (rule trans [OF sym])
  have "prefix (TrimRight ?t ''/'') ?t"
    unfolding TrimRight_def by (metis rev_rev_ident suffix_dropWhile suffix_to_prefix)
  then show False unfolding tr by simp
qed

text \<open>
  C15. The guard can be walked around. A \<open>GET\<close> whose path splits into \<open>admin\<close> and \<open>stats\<close> but
  does not begin with the literal prefix \<open>/admin/\<close>, such as \<open>//admin/stats\<close>, needs no role for the
  policy and is still routed to the administration page: anyone gets the snapshot (or 429). So does
  anyone with the plain path when \<open>-mode\<close> is neither \<open>server\<close> nor \<open>proxy\<close>: the API is then served without
  the authentication layer. (Stated with the response cache off, which only decides how old the
  snapshot is.)
\<close>

theorem admin_exposed:
  assumes "fl_mode fl = ''server'' \<and> fl_cache fl \<le> 0 \<and> \<not> HasPrefix (Path req) ''/admin/''
      \<or> fl_mode fl \<notin> {''server'', ''proxy''}"
    and "path_parts (Path req) = [''admin'', ''stats'']" "Method req = ''GET''"
    and "\<not> hijacked w" "w_body w = []"
  shows "\<exists>req' w' g'. main_handler ex fl req w g = (Returned, req', w', g')
    \<and> (w_status w' = 200 \<and> (\<exists>snap. w_body w' = ex_marshal ex snap) \<or> w_status w' = 429 \<and> fl_rate fl > 0)"
proof -
  let ?Q = "\<lambda>q. Path q = Path req \<and> Method q = ''GET''"
  let ?P = "\<lambda>w'. w_status w' = 200 \<and> (\<exists>snap. w_body w' = ex_marshal ex snap)"
  have api: "settles ?Q ?P (buildAPI ex)"
    by (rule settlesI)
       (use assms(2) in \<open>auto simp: buildAPI_admin api_metrics_def Metrics_Handler_def time_Now_def writer_defs\<close>)
  have "settles ?Q (\<lambda>w'. ?P w' \<or> w_status w' = 429 \<and> fl_rate fl > 0) (inner_handler ex fl)"
  proof (cases "fl_mode fl = ''server''")
    case True
    with assms(1) have open_path: "required_role (Path req) = RoleAnonymous" "\<not> fl_cache fl > 0"
      using admin_not_private [OF assms(2)] by (simp_all add: required_role_def)
    have "settles ?Q ?P (BearerAuth api_auth (buildAPI ex))"
    proof (rule settlesI)
      fix q :: Request and v :: ResponseWriter and g :: app_world
      assume q: "?Q q" "\<not> hijacked v" "w_body v = []"
      have "BearerAuth api_auth (buildAPI ex) q v g = buildAPI ex q v g"
        using q(1) open_path(1) by (simp add: BearerAuth_def api_auth_def)
      then show "\<exists>req' w' g'. BearerAuth api_auth (buildAPI ex) q v g = (Returned, req', w', g') \<and> ?P w'"
        using settlesE [OF api q] by metis
    qed
    moreover have "inner_handler ex fl =
        (if fl_rate fl > 0 then RateLimit_Middleware (ex_rnd ex) (limiter_config fl) else id)
          (BearerAuth api_auth (buildAPI ex))"
      using server_inner [OF True] open_path(2) by simp
    ultimately show ?thesis using settles_limited by (simp only:)
  next
    case False
    with assms(1) have "inner_handler ex fl =
        (if fl_rate fl > 0 then RateLimit_Middleware (ex_rnd ex) (limiter_config fl) else id) (buildAPI ex)"
      by (simp add: inner_handler_def inner_middlewares_def Chain_foldr)
    then show ?thesis using settles_limited [OF api] by (simp only:)
  qed
  then have "settles ?Q (\<lambda>w'. ?P w' \<or> w_status w' = 429 \<and> fl_rate fl > 0) (main_handler ex fl)"
    by (rule settles_main) simp
  from settlesE [OF this, of req w g] assms(3-5) show ?thesis by metis
qed


theorem admin_exposed_witness:
  "\<exists>req' w' g'. main_handler sample_externals (default_flags\<lparr>fl_rate := 0, fl_cache := 0\<rparr>)
      (sample_request ''GET'' ''//admin/stats'') NewResponseWriter sample_app = (Returned, req', w', g')
    \<and> w_status w' = 200 \<and> w_body w' = ''snapshot''"
proof -
  let ?req = "sample_request ''GET'' ''//admin/stats''"
  have parts: "path_parts (Path ?req) = [''admin'', ''stats'']"
    by (simp add: sample_request_def path_parts_def Trim_def TrimLeft_def TrimRight_def)
  have m: "\<not> HasPrefix (Path ?req) ''/admin/''" "Method ?req = ''GET''"
    by (simp_all add: sample_request_def HasPrefix_def)
  show ?thesis
    using admin_exposed [OF _ parts m(2), of "default_flags\<lparr>fl_rate := 0, fl_cache := 0\<rparr>" NewResponseWriter
        sample_externals sample_app] m(1)
    by (simp add: default_flags_def NewResponseWriter_def sample_externals_def)
qed

text \<open>
  The user page: \<open>/api/users/:id\<close> answers a decimal number that fits an \<open>int\<close> with the JSON
  record of that number, and anything else with 400; printing a number into the path and fetching it
  gives it back.
\<close>

theorem users_answer:
  assumes "path_parts (Path req) = [''api'', ''users'', i]" "Method req = ''GET''" "\<not> hijacked w" "w_body w = []"
  shows "\<exists>req' w'. buildAPI ex req w g = (Returned, req', w', g)
    \<and> (case Atoi i of (n, err) \<Rightarrow>
        if err \<noteq> None then w_status w' = 400
        else w_status w' = 200
          \<and> Headers_Get (w_headers w') ''Content-Type'' = ''application/json''
          \<and> w_body w' = json_Marshal (JObj [(''active'', JBool (even n)), (''id'', JInt n),
                (''name'', JString (''user-'' @ fmt_04d n))]))
    \<and> (\<forall>n. i = Itoa n \<and> MinInt64 \<le> n \<and> n \<le> MaxInt64 \<longrightarrow> Atoi i = (n, None))"
  using assms Atoi_Itoa
  by (auto simp: buildAPI_users api_users_def map_slice_def mustJSON_def writer_defs Headers_Get_Set
      even_iff_mod_2_eq_zero split: prod.split)

theorem users_answer_witness:
  "\<exists>req' w'. buildAPI sample_externals (sample_request ''GET'' ''/api/users/42'') NewResponseWriter sample_app
      = (Returned, req', w', sample_app) \<and> w_status w' = 200"
proof -
  let ?req = "sample_request ''GET'' ''/api/users/42''"
  have parts: "path_parts (Path ?req) = [''api'', ''users'', ''42'']"
    by (simp add: sample_request_def path_parts_def Trim_def TrimLeft_def TrimRight_def)
  have m: "Method ?req = ''GET''" "\<not> hijacked NewResponseWriter" "w_body NewResponseWriter = []"
    by (simp_all add: sample_request_def NewResponseWriter_def)
  have "Atoi ''42'' = (42, None)" by (simp add: go_eval)
  with users_answer [OF parts m, of sample_externals sample_app] show ?thesis by auto
qed

end
