(* ===== verification/Pulse_Wire.thy ===== *)
theory Pulse_Wire
  imports Pulse_App Http_Server
begin

text \<open>
  What the assembled program puts on the wire: header values that come from a request, from a cached
  answer or from an upstream cannot break out of their line. Each middleware and each route keeps the
  writer's header table free of line feeds (and its names free of colons), so every response is the
  status line, one line per field and the body, and nothing a peer sends can add a field or a response.
\<close>

section \<open>Unbroken headers\<close>

definition one_line :: "bytes \<Rightarrow> bool" where
  "one_line s \<longleftrightarrow> LF \<notin> set s"

definition field_ok :: "bytes \<times> bytes \<Rightarrow> bool" where
  "field_ok kv \<longleftrightarrow> one_line (fst kv) \<and> CHR '':'' \<notin> set (fst kv) \<and> one_line (snd kv)"

definition unbroken_headers :: "Headers \<Rightarrow> bool" where
  "unbroken_headers h \<longleftrightarrow> hdr_wf h \<and> (\<forall>k. \<forall>v \<in> set (map_slice (vals h) k). field_ok (k, v))"

definition unbroken :: "ResponseWriter \<Rightarrow> bool" where
  "unbroken w \<longleftrightarrow> unbroken_headers (w_headers w)"

lemma one_line_simps [simp]:
  "one_line []" "one_line (c # s) \<longleftrightarrow> c \<noteq> LF \<and> one_line s" "one_line (s @ t) \<longleftrightarrow> one_line s \<and> one_line t"
  by (auto simp: one_line_def)

lemma one_line_subset: "one_line s \<Longrightarrow> set t \<subseteq> set s \<Longrightarrow> one_line t"
  by (auto simp: one_line_def)

lemma one_line_Itoa [simp]: "one_line (Itoa i)"
  using Itoa_clean [of LF i] by (auto simp: one_line_def)

lemma field_ok_canonical: "field_ok (k, v) \<Longrightarrow> field_ok (canonical k, v)"
  using canonical_not_valid [of LF k] canonical_not_valid [of "CHR '':''" k] special_not_valid
  by (auto simp: field_ok_def one_line_def)

lemma unbroken_Set: "unbroken_headers h \<Longrightarrow> field_ok (k, v) \<Longrightarrow> unbroken_headers (Headers_Set h k v)"
  using field_ok_canonical [of k v] by (auto simp: unbroken_headers_def hdr_inv hdr_ops map_slice_def)

lemma unbroken_Del: "unbroken_headers h \<Longrightarrow> unbroken_headers (Headers_Del h k)"
  by (auto simp: unbroken_headers_def hdr_inv hdr_ops map_slice_def)

lemma unbroken_New: "unbroken NewResponseWriter"
  by (simp add: unbroken_def unbroken_headers_def NewResponseWriter_def hdr_inv map_slice_def)

lemma unbroken_ops [simp]:
  assumes "unbroken w"
  shows "field_ok (k, v) \<Longrightarrow> unbroken (w_SetHeader w k v)"
    "unbroken (w_WriteHeader w s)" "unbroken (w_Write w p)" "unbroken (w_JSON w s p)" "unbroken (w_Error w s p)"
    "unbroken (w_Hijack w)" "unbroken (w_SetBody w p)"
  using assms by (auto simp: unbroken_def writer_defs field_ok_def intro!: unbroken_Set)

lemma unbroken_Get: "unbroken_headers h \<Longrightarrow> one_line (Headers_Get h k)"
proof (cases "map_slice (vals h) (canonical k)")
  case (Cons v vs)
  assume "unbroken_headers h"
  then have "field_ok (canonical k, v)" using Cons unfolding unbroken_headers_def by (metis list.set_intros(1))
  then show ?thesis using Cons by (simp add: Headers_Get_def field_ok_def)
qed (simp add: Headers_Get_def)

lemma clean_Get: "hdr_clean h \<Longrightarrow> one_line (Headers_Get h k)"
  by (auto simp: hdr_clean_def Headers_Get_def map_slice_def one_line_def split: list.splits option.splits)

lemma unbroken_final: "unbroken w \<Longrightarrow> unbroken_headers (final_headers now w ka)"
  using http_date_clean [of now]
  by (auto simp: unbroken_def final_headers_def Let_def field_ok_def one_line_def [of "http_date now"]
      intro!: unbroken_Set unbroken_Del)

text \<open>
  What a reader that cuts the bytes at line feeds sees: a status line, exactly one line per field of the
  list, each with the name before its first colon, the empty line, and the body.
\<close>

definition unbroken_message :: "bytes \<Rightarrow> (bytes \<times> bytes) list \<Rightarrow> bytes \<Rightarrow> bool" where
  "unbroken_message out kvs body \<longleftrightarrow>
     (\<exists>line. SplitN (length kvs + 3) LF out
        = (''HTTP/1.1 '' @ line @ [CR]) # map (\<lambda>(k, v). k @ '': '' @ v @ [CR]) kvs @ [[CR], body])
     \<and> list_all (\<lambda>(k, v). Cut (CHR '':'') (k @ '': '' @ v) = (k, CHR '' '' # v, True)) kvs"

lemma SplitN_line: "one_line l \<Longrightarrow> SplitN (Suc (Suc n)) LF (l @ LF # s) = l # SplitN (Suc n) LF s"
  using Cut_found [of LF l s] by (simp add: one_line_def)

lemma SplitN_fields:
  "\<forall>kv \<in> set kvs. field_ok kv \<Longrightarrow>
   SplitN (length kvs + 2) LF (concat (map (\<lambda>(k, v). header_line k v) kvs) @ CRLF @ body)
     = map (\<lambda>(k, v). k @ '': '' @ v @ [CR]) kvs @ [[CR], body]"
proof (induction kvs)
  case Nil
  show ?case using SplitN_line [of "[CR]" 0 body] by simp
next
  case (Cons kv kvs)
  obtain k v where kv: "kv = (k, v)" by fastforce
  let ?rest = "concat (map (\<lambda>(k, v). header_line k v) kvs) @ CRLF @ body"
  have "one_line (k @ '': '' @ v @ [CR])" using Cons.prems kv by (simp add: field_ok_def)
  from SplitN_line [OF this, of "length kvs + 1" ?rest] Cons kv show ?case by (simp add: header_line_def)
qed

lemma unbroken_messageI:
  assumes "one_line line" "\<forall>kv \<in> set kvs. field_ok kv"
  shows "unbroken_message (''HTTP/1.1 '' @ line @ CRLF @ concat (map (\<lambda>(k, v). header_line k v) kvs) @ CRLF @ body) kvs body"
proof -
  have "one_line (''HTTP/1.1 '' @ line @ [CR])" using assms(1) by simp
  from SplitN_line [OF this, of "length kvs + 1" "concat (map (\<lambda>(k, v). header_line k v) kvs) @ CRLF @ body"]
  have "SplitN (length kvs + 3) LF (''HTTP/1.1 '' @ line @ CRLF @ concat (map (\<lambda>(k, v). header_line k v) kvs) @ CRLF @ body)
      = (''HTTP/1.1 '' @ line @ [CR]) # map (\<lambda>(k, v). k @ '': '' @ v @ [CR]) kvs @ [[CR], body]"
    using SplitN_fields [OF assms(2), of body] by (simp add: numeral_3_eq_3)
  moreover have "Cut (CHR '':'') (k @ '': '' @ v) = (k, CHR '' '' # v, True)" if "(k, v) \<in> set kvs" for k v
    using that assms(2) Cut_found [of "CHR '':''" k "CHR '' '' # v"] by (auto simp: field_ok_def)
  ultimately show ?thesis unfolding unbroken_message_def by (auto simp: list_all_iff)
qed

lemma serialize_unbroken:
  assumes "unbroken w"
  shows "unbroken_message (fst (serialize now w ''HTTP/1.1'' ka)) (Headers_Range (final_headers now w ka)) (wire_body w)"
proof -
  have "one_line (ReasonPhrase (w_status w))" using ReasonPhrase_clean [of "w_status w"] by (simp add: one_line_def)
  then have "one_line (Itoa (w_status w) @ '' '' @ ReasonPhrase (w_status w))" by simp
  moreover have "\<forall>kv \<in> set (Headers_Range (final_headers now w ka)). field_ok kv"
    using unbroken_final [OF assms] by (auto simp: unbroken_headers_def Headers_Range_def)
  ultimately have "unbroken_message (''HTTP/1.1 '' @ (Itoa (w_status w) @ '' '' @ ReasonPhrase (w_status w)) @ CRLF
      @ concat (map (\<lambda>(k, v). header_line k v) (Headers_Range (final_headers now w ka))) @ CRLF @ wire_body w)
      (Headers_Range (final_headers now w ka)) (wire_body w)"
    by (rule unbroken_messageI)
  then show ?thesis by (simp add: serialize_def Let_def status_line_def Headers_WriteTo_def)
qed

section \<open>Handlers that keep headers unbroken\<close>

text \<open>What the cache stores of headers, and what the rest of the world must satisfy (\<open>P\<close>, of the pool).\<close>

definition cache_unbroken :: "Cache \<Rightarrow> bool" where
  "cache_unbroken c \<longleftrightarrow> (\<forall>(i, e) \<in> set (order c). one_line (contentType e) \<and> one_line (e_etag e))"

definition safe_state :: "('p \<Rightarrow> bool) \<Rightarrow> Request \<Rightarrow> ResponseWriter \<Rightarrow> ('m, 'r, Cache, 'p) world \<Rightarrow> bool" where
  "safe_state P req w g \<longleftrightarrow> hdr_clean (ReqHeaders req) \<and> unbroken w \<and> cache_unbroken (store g) \<and> P (pool g)"

definition unsplit :: "('p \<Rightarrow> bool) \<Rightarrow> ('m, 'r, Cache, 'p) world handler \<Rightarrow> bool" where
  "unsplit P h \<longleftrightarrow> (\<forall>req w g ou q w' g'. safe_state P req w g \<longrightarrow> h req w g = (ou, q, w', g') \<longrightarrow> safe_state P q w' g')"

lemma unsplitI:
  "(\<And>req w g ou q w' g'. safe_state P req w g \<Longrightarrow> h req w g = (ou, q, w', g') \<Longrightarrow> safe_state P q w' g') \<Longrightarrow> unsplit P h"
  unfolding unsplit_def by blast

lemma unsplitD: "unsplit P h \<Longrightarrow> safe_state P req w g \<Longrightarrow> h req w g = (ou, q, w', g') \<Longrightarrow> safe_state P q w' g'"
  unfolding unsplit_def by blast

lemma safe_state_world [simp]:
  "safe_state P req w (g\<lparr>ticks := n\<rparr>) = safe_state P req w g"
  "safe_state P req w (g\<lparr>draws := n\<rparr>) = safe_state P req w g"
  "safe_state P req w (g\<lparr>stdout := s\<rparr>) = safe_state P req w g"
  "safe_state P req w (g\<lparr>limiter := l\<rparr>) = safe_state P req w g"
  "safe_state P req w (g\<lparr>registry := m\<rparr>) = safe_state P req w g"
  "safe_state P (req\<lparr>Meta := x\<rparr>) w g = safe_state P req w g"
  "safe_state P (req\<lparr>PathParams := y\<rparr>) w g = safe_state P req w g"
  by (simp_all add: safe_state_def)

lemma safe_state_writer:
  assumes "safe_state P req w g"
  shows "field_ok (k, v) \<Longrightarrow> safe_state P req (w_SetHeader w k v) g"
    "safe_state P req (w_WriteHeader w s) g" "safe_state P req (w_Write w p) g" "safe_state P req (w_JSON w s p) g"
    "safe_state P req (w_Error w s p) g" "safe_state P req (w_Hijack w) g" "safe_state P req (w_SetBody w p) g"
  using assms by (simp_all add: safe_state_def)

lemma and_then_safe:
  assumes "and_then r k = (ou, q, w', g')" "unsplit P k"
    and "\<And>ou q w g. r = (ou, q, w, g) \<Longrightarrow> safe_state P q w g"
  shows "safe_state P q w' g'"
proof -
  obtain o1 q1 w1 g1 where r: "r = (o1, q1, w1, g1)" by (rule prod_cases4)
  have s: "safe_state P q1 w1 g1" using assms(3) r .
  show ?thesis
  proof (cases o1)
    case Returned
    then have "k q1 w1 g1 = (ou, q, w', g')" using assms(1) r by simp
    with assms(2) s show ?thesis by (rule unsplitD)
  next
    case Panicked
    then show ?thesis using assms(1) r s by simp
  qed
qed

locale unsplit_wrapper =
  fixes P :: "'p \<Rightarrow> bool" and mw :: "('m, 'r, Cache, 'p) world handler \<Rightarrow> ('m, 'r, Cache, 'p) world handler"
  assumes keeps: "unsplit P h \<Longrightarrow> unsplit P (mw h)"
begin

lemma never_splits:
  assumes "unsplit P h" "safe_state P req w g" "mw h req w g = (ou, q, w', g')"
  shows "unbroken w'"
  using unsplitD [OF keeps [OF assms(1)] assms(2,3)] by (simp add: safe_state_def)

end

lemma Chain_unsplit:
  "unsplit P h \<Longrightarrow> \<forall>mw \<in> set mws. unsplit_wrapper P mw \<Longrightarrow> unsplit P (Chain h mws)"
  unfolding Chain_foldr by (induction mws) (auto simp: unsplit_wrapper_def)

lemma then_unsplit:
  assumes "unsplit P h" "unsplit P k" "safe_state P req w g" "and_then (h req w g) k = (ou, q, w', g')"
  shows "safe_state P q w' g'"
  using assms(4,2) by (rule and_then_safe) (rule unsplitD [OF assms(1,3)])

section \<open>The middlewares\<close>

lemma metrics_unsplit:
  assumes "unsplit P h"
  shows "unsplit P (Metrics_Middleware h)"
proof (rule unsplitI)
  fix req w g ou q w' g'
  assume s: "safe_state P req w g" and r: "Metrics_Middleware h req w g = (ou, q, w', g')"
  have k: "unsplit P (observe_exchange t)" for t
    by (rule unsplitI) (auto simp: observe_exchange_def time_Now_def inflight_Add_def Let_def)
  obtain t g1 where t: "time_Now (inflight_Add 1 g) = (t, g1)" by fastforce
  have "safe_state P req w g1" using s t by (auto simp: time_Now_def inflight_Add_def)
  moreover have "and_then (h req w g1) (observe_exchange t) = (ou, q, w', g')"
    using r t by (simp add: Metrics_Middleware_def)
  ultimately show "safe_state P q w' g'" by (rule then_unsplit [OF assms k])
qed

lemma logging_unsplit:
  assumes "unsplit P h"
  shows "unsplit P (Logging h)"
proof (rule unsplitI)
  fix req w g ou q w' g'
  assume s: "safe_state P req w g" and r: "Logging h req w g = (ou, q, w', g')"
  have k: "unsplit P (write_log t)" for t
    by (rule unsplitI) (auto simp: write_log_def time_Now_def)
  obtain t g1 where t: "time_Now g = (t, g1)" by fastforce
  have "safe_state P req w g1" using s t by (auto simp: time_Now_def)
  moreover have "and_then (h req w g1) (write_log t) = (ou, q, w', g')" using r t by (simp add: Logging_def)
  ultimately show "safe_state P q w' g'" by (rule then_unsplit [OF assms k])
qed

lemma one_line_hex: "one_line (hex_EncodeToString bs)"
proof -
  have "\<not> is_hex_digit LF" by code_simp
  then show ?thesis using hex_encode [of bs] by (auto simp: one_line_def list_all_iff)
qed

lemma request_id_unsplit:
  assumes "unsplit P h"
  shows "unsplit P (RequestID h)"
proof (rule unsplitI)
  fix req w g ou q w' g'
  assume s: "safe_state P req w g" and r: "RequestID h req w g = (ou, q, w', g')"
  have stamp: "safe_state P q w' g'" if "safe_state P req w g1" "one_line i" "stamp_id h i req w g1 = (ou, q, w', g')" for i g1
  proof -
    have "safe_state P (req\<lparr>Meta := (Meta req)(''request_id'' \<mapsto> MetaString i)\<rparr>) (w_SetHeader w ''X-Request-ID'' i) g1"
      using safe_state_writer(1) [OF that(1), of "''X-Request-ID''" i] that(2) by (simp add: field_ok_def)
    with assms show ?thesis using that(3) unfolding stamp_id_def by (rule unsplitD)
  qed
  have i: "one_line (Headers_Get (ReqHeaders req) ''X-Request-ID'')"
    using s clean_Get by (auto simp: safe_state_def)
  show "safe_state P q w' g'"
  proof (cases "Headers_Get (ReqHeaders req) ''X-Request-ID'' = []")
    case True
    have "safe_state P req w (g\<lparr>draws := Suc (draws g)\<rparr>)" using s by simp
    moreover have "stamp_id h (hex_EncodeToString (take 6 (entropy g (draws g)))) req w (g\<lparr>draws := Suc (draws g)\<rparr>)
        = (ou, q, w', g')" using r True by (simp add: RequestID_def rand_Read_def)
    ultimately show ?thesis using one_line_hex by (intro stamp)
  next
    case False
    then have "stamp_id h (Headers_Get (ReqHeaders req) ''X-Request-ID'') req w g = (ou, q, w', g')"
      using r by (simp add: RequestID_def Let_def)
    with s i show ?thesis by (rule stamp)
  qed
qed

lemma recover_unsplit:
  assumes "unsplit P h"
  shows "unsplit P (Recover h)"
proof (rule unsplitI)
  fix req w g ou q w' g'
  assume s: "safe_state P req w g" and r: "Recover h req w g = (ou, q, w', g')"
  obtain o1 q1 w1 g1 where r1: "h req w g = (o1, q1, w1, g1)" by (rule prod_cases4)
  from unsplitD [OF assms s r1] r r1 show "safe_state P q w' g'"
    by (cases o1) (auto simp: Recover_def intro: safe_state_writer)
qed

lemma rate_limit_unsplit:
  assumes "unsplit P h"
  shows "unsplit P (RateLimit_Middleware rnd cfg h)"
proof (rule unsplitI)
  fix req w g ou q w' g'
  assume s: "safe_state P req w g" and r: "RateLimit_Middleware rnd cfg h req w g = (ou, q, w', g')"
  have f: "field_ok (''X-RateLimit-Limit'', Itoa i)" "field_ok (''X-RateLimit-Remaining'', Itoa i)"
    "field_ok (''Retry-After'', Itoa i)" for i
    by (simp_all add: field_ok_def)
  obtain now g1 where t: "time_Now g = (now, g1)" by fastforce
  obtain v rl where tk: "rl_take rnd (limiter g1) (Key (rl_cfg (limiter g1)) req) now = (v, rl)" by fastforce
  obtain a m d where v: "v = (a, m, d)" by (rule prod_cases3)
  let ?w = "w_SetHeader (w_SetHeader w ''X-RateLimit-Limit'' (Itoa (go_trunc (Burst cfg)))) ''X-RateLimit-Remaining'' (Itoa m)"
  have "safe_state P req w (g1\<lparr>limiter := rl\<rparr>)" using s t by (auto simp: time_Now_def)
  then have s1: "safe_state P req ?w (g1\<lparr>limiter := rl\<rparr>)" using f by (intro safe_state_writer)
  show "safe_state P q w' g'"
  proof (cases a)
    case True
    then have "h req ?w (g1\<lparr>limiter := rl\<rparr>) = (ou, q, w', g')"
      using r t tk v by (simp add: RateLimit_Middleware_def RateLimit_def Let_def)
    with assms s1 show ?thesis by (rule unsplitD)
  next
    case False
    then show ?thesis
      using r t tk v safe_state_writer(5) [OF safe_state_writer(1) [OF s1 f(3)]]
      by (auto simp: RateLimit_Middleware_def RateLimit_def Let_def)
  qed
qed

lemma auth_unsplit:
  assumes "unsplit P h"
  shows "unsplit P (BearerAuth cfg h)"
proof (rule unsplitI)
  fix req w g ou q w' g'
  assume s: "safe_state P req w g" and r: "BearerAuth cfg h req w g = (ou, q, w', g')"
  have pass: "safe_state P q w' g'" if "h (req\<lparr>Meta := x\<rparr>) w g = (ou, q, w', g')" for x
    using unsplitD [OF assms _ that] s by simp
  have deny: "safe_state P req (deny c m w) g" if "one_line c" for c m
    unfolding deny_def by (intro safe_state_writer(5) safe_state_writer(1) s) (simp add: field_ok_def that)
  have "one_line (''Bearer realm='' @ quoted ''pulse'')"
    "one_line (''Bearer realm='' @ quoted ''pulse'' @ '', error='' @ quoted ''invalid_token'')"
    by (simp_all add: quoted_def)
  then show "safe_state P q w' g'"
    using r pass pass [of "Meta req"] deny safe_state_writer(5) [OF s]
    by (auto simp: BearerAuth_def Let_def split: if_splits option.splits prod.splits)
qed

interpretation unsplit_metrics: unsplit_wrapper P Metrics_Middleware for P
  by unfold_locales (rule metrics_unsplit)

interpretation unsplit_logging: unsplit_wrapper P Logging for P
  by unfold_locales (rule logging_unsplit)

interpretation unsplit_request_id: unsplit_wrapper P RequestID for P
  by unfold_locales (rule request_id_unsplit)

interpretation unsplit_recover: unsplit_wrapper P Recover for P
  by unfold_locales (rule recover_unsplit)

interpretation unsplit_rate_limit: unsplit_wrapper P "RateLimit_Middleware rnd cfg" for P rnd cfg
  by unfold_locales (rule rate_limit_unsplit)

interpretation unsplit_auth: unsplit_wrapper P "BearerAuth cfg" for P cfg
  by unfold_locales (rule auth_unsplit)

section \<open>The cache\<close>

lemma drop_elem_order: "set (order (drop_elem c el k)) \<subseteq> set (order c)"
  by (auto simp: drop_elem_def list_Remove_def)

lemma cache_unbroken_mono: "cache_unbroken c \<Longrightarrow> set (order c') \<subseteq> set (order c) \<Longrightarrow> cache_unbroken c'"
  unfolding cache_unbroken_def by blast

lemma invalidate_order: "set (order (cache_invalidate c k)) \<subseteq> set (order c)"
  using drop_elem_order by (simp add: cache_invalidate_def split: option.split)

lemma evict_order: "evict c = Some c' \<Longrightarrow> set (order c') \<subseteq> set (order c)"
proof (induction c rule: evict.induct)
  case (1 c)
  show ?case
  proof (cases "int (length (order c)) > capacity c")
    case False
    then show ?thesis using "1.prems" by (simp add: evict.simps [of c])
  next
    case True
    then have e: "order c \<noteq> []" "evict (pop_back c) = Some c'"
      using "1.prems" by (auto simp: evict.simps [of c] split: if_splits)
    have "set (order (pop_back c)) \<subseteq> set (order c)"
      using drop_elem_order by (auto simp: pop_back_def split: prod.splits)
    with "1.IH" [OF True e] show ?thesis by blast
  qed
qed

lemma put_unbroken:
  assumes "cache_unbroken c" "cache_put c e = Some c'" "one_line (contentType e)" "one_line (e_etag e)"
  shows "cache_unbroken c'"
proof -
  have "set (order c') \<subseteq> insert (fresh_elem (cache_invalidate c (e_key e)), e) (set (order c))"
    using evict_order [OF assms(2) [unfolded cache_put_def]] invalidate_order [of c "e_key e"]
    by (auto simp: push_front_def)
  then show ?thesis using assms(1,3,4) unfolding cache_unbroken_def by auto
qed

lemma lookup_unbroken:
  assumes "cache_unbroken c" "lookup c k now = (r, c')"
  shows "cache_unbroken c'" "r = Some e \<Longrightarrow> one_line (contentType e) \<and> one_line (e_etag e)"
proof -
  have g: "cache_unbroken (snd (cache_get c k now))
      \<and> (\<forall>e. fst (cache_get c k now) = Some e \<longrightarrow> one_line (contentType e) \<and> one_line (e_etag e))"
    using assms(1) drop_elem_order [of c]
    by (auto simp: cache_get_def cache_unbroken_def list_Remove_def dest!: map_of_SomeD split: option.split)
  then show "cache_unbroken c'" "r = Some e \<Longrightarrow> one_line (contentType e) \<and> one_line (e_etag e)"
    using assms(2) by (auto simp: lookup_get cache_unbroken_def split: if_splits)
qed

lemma store_response_unsplit: "unsplit P (store_response sha256 key now)"
proof (rule unsplitI)
  fix req w g ou q w' g'
  assume s: "safe_state P req w g" and r: "store_response sha256 key now req w g = (ou, q, w', g')"
  let ?tag = "etagFor sha256 (w_body w)"
  have tag: "one_line ?tag" using one_line_hex by (simp add: etagFor_def)
  have ct: "one_line (Headers_Get (w_headers w) ''Content-Type'')"
    using s by (intro unbroken_Get) (simp add: safe_state_def unbroken_def)
  have put: "safe_state P req w (g\<lparr>store := c\<rparr>)"
    if "cache_put (store g) e = Some c" "contentType e = Headers_Get (w_headers w) ''Content-Type''"
      "e_etag e = ?tag" for c e
    using s put_unbroken [OF _ that(1)] that(2,3) ct tag by (simp add: safe_state_def)
  have hdrs: "safe_state P req (w_SetHeader (w_SetHeader w ''ETag'' ?tag) ''X-Cache'' ''MISS'') (g\<lparr>store := c\<rparr>)"
    if "safe_state P req w (g\<lparr>store := c\<rparr>)" for c
    by (intro safe_state_writer(1) that) (simp_all add: field_ok_def tag)
  show "safe_state P q w' g'"
    using r s put hdrs
    by (auto simp: store_response_def Let_def split: option.splits if_splits intro!: safe_state_writer(2,7))
qed

lemma invalidate_unbroken: "cache_unbroken c \<Longrightarrow> cache_unbroken (cache_invalidate c k)"
  using cache_unbroken_mono [OF _ invalidate_order] by simp

lemma after_write_unsplit: "unsplit P (after_write key)"
  by (rule unsplitI)
    (auto simp: after_write_def safe_state_def invalidate_unbroken split: if_splits)

lemma serve_hit_safe:
  assumes "safe_state P req w g" "one_line (contentType e)" "one_line (e_etag e)"
  shows "safe_state P req (serve_hit e req w) g"
proof -
  have f: "field_ok (''ETag'', e_etag e)" "field_ok (''X-Cache'', ''HIT'')" "field_ok (''Content-Type'', contentType e)"
    using assms(2,3) by (simp_all add: field_ok_def)
  show ?thesis
    using assms(1) f by (auto simp: serve_hit_def Let_def intro!: safe_state_writer)
qed

lemma cache_unsplit:
  assumes "unsplit P h"
  shows "unsplit P (Cache_Middleware sha256 h)"
proof (rule unsplitI)
  fix req w g ou q w' g'
  assume s: "safe_state P req w g" and r: "Cache_Middleware sha256 h req w g = (ou, q, w', g')"
  note fill = then_unsplit [OF assms store_response_unsplit]
  show "safe_state P q w' g'"
  proof (cases "Method req = ''GET''")
    case False
    then show ?thesis using r s then_unsplit [OF assms after_write_unsplit] by (simp add: Cache_Middleware_def)
  next
    case True
    obtain now g1 where t: "time_Now g = (now, g1)" by fastforce
    have s1: "safe_state P req w g1" using s t by (auto simp: time_Now_def)
    show ?thesis
    proof (cases "Headers_ContainsToken (ReqHeaders req) ''Cache-Control'' ''no-cache''")
      case b: True
      then show ?thesis using r True t fill [OF s1] by (simp add: Cache_Middleware_def Let_def)
    next
      case b: False
      obtain x c where l: "lookup (store g1) (RawTarget req) now = (x, c)" by fastforce
      have u: "cache_unbroken (store g1)" using s1 by (simp add: safe_state_def)
      have s2: "safe_state P req w (g1\<lparr>store := c\<rparr>)" using s1 lookup_unbroken(1) [OF u l] by (simp add: safe_state_def)
      show ?thesis
      proof (cases x)
        case None
        then show ?thesis using r True t b l fill [OF s2] by (simp add: Cache_Middleware_def Let_def)
      next
        case (Some e)
        then show ?thesis
          using r True t b l serve_hit_safe [OF s2] lookup_unbroken(2) [OF u l Some]
          by (auto simp: Cache_Middleware_def Let_def)
      qed
    qed
  qed
qed

interpretation unsplit_cache: unsplit_wrapper P "Cache_Middleware sha256" for P sha256
  by unfold_locales (rule cache_unsplit)

section \<open>The demo API\<close>

lemma unsplit_writes:
  assumes "\<And>req w g. hdr_clean (ReqHeaders req) \<Longrightarrow> unbroken w \<Longrightarrow>
      \<exists>ou w' n. h req w g = (ou, req, w', g\<lparr>ticks := n\<rparr>) \<and> unbroken w'"
  shows "unsplit P h"
proof (rule unsplitI)
  fix req w g ou q w' g'
  assume s: "safe_state P req w g" and r: "h req w g = (ou, q, w', g')"
  then have "hdr_clean (ReqHeaders req)" "unbroken w" by (simp_all add: safe_state_def)
  from assms [OF this, of g] s r show "safe_state P q w' g'" by (auto simp: safe_state_def)
qed

lemma ticks_same: "g\<lparr>ticks := ticks g\<rparr> = (g :: ('m, 'r, 'c, 'p) world)"
  by simp

lemma api_unsplit:
  "unsplit P api_root" "unsplit P api_healthz" "unsplit P (api_metrics ex)" "unsplit P api_users"
  "unsplit P api_echo" "unsplit P (api_heavy ex)" "unsplit P api_slow" "unsplit P api_profile"
  "unsplit P api_boom"
  by (rule unsplit_writes; simp add: api_root_def api_healthz_def api_metrics_def Metrics_Handler_def time_Now_def
      api_users_def api_echo_def api_heavy_def api_slow_def api_profile_def api_boom_def field_ok_def clean_Get
      Let_def split_beta; metis ticks_same)+

lemma one_line_Join: "\<forall>p \<in> set ps. one_line p \<Longrightarrow> one_line sep \<Longrightarrow> one_line (Join ps sep)"
  by (induction ps sep rule: Join.induct) auto

lemma Serve_unsplit:
  assumes "\<forall>rt \<in> set (routes r). unsplit P (rt_handler rt) \<and> one_line (rt_method rt)" "unsplit P (NotFound r)"
  shows "unsplit P (Serve r)"
proof (rule unsplitI)
  fix req w g ou q w' g'
  assume s: "safe_state P req w g" and r: "Serve r req w g = (ou, q, w', g')"
  show "safe_state P q w' g'"
  proof (cases "find_route (routes r) req (path_parts (Path req)) []")
    case (Inl x)
    then obtain rt ps where x: "x = (rt, ps)" by fastforce
    with Inl have "rt \<in> set (routes r)" using find_route_Inl by fastforce
    with assms(1) have "unsplit P (rt_handler rt)" by blast
    moreover have "rt_handler rt (req\<lparr>PathParams := ps\<rparr>) w g = (ou, q, w', g')" using r Inl x by (simp add: Serve_def)
    moreover have "safe_state P (req\<lparr>PathParams := ps\<rparr>) w g" using s by simp
    ultimately show ?thesis by (metis unsplitD)
  next
    case (Inr al)
    show ?thesis
    proof (cases "al = []")
      case True
      then have "NotFound r req w g = (ou, q, w', g')" using r Inr by (simp add: Serve_def)
      with assms(2) s show ?thesis by (rule unsplitD)
    next
      case False
      have "set al \<subseteq> rt_method ` set (routes r)" using find_route_Inr [OF Inr] by auto
      then have "one_line (Join (sort al) '', '')" using assms(1) by (intro one_line_Join) auto
      then have "field_ok (''Allow'', Join (sort al) '', '')" by (simp add: field_ok_def)
      from safe_state_writer(5) [OF safe_state_writer(1) [OF s this]] r Inr False show ?thesis
        by (auto simp: Serve_def)
    qed
  qed
qed

lemma buildAPI_unsplit: "unsplit P (buildAPI ex)"
  unfolding buildAPI_def
proof (rule Serve_unsplit)
  show "\<forall>rt \<in> set (routes (api_routes ex)). unsplit P (rt_handler rt) \<and> one_line (rt_method rt)"
    by (simp add: api_routes_table api_unsplit)
  have "NotFound (api_routes ex) = NotFound New" by (simp add: api_routes_def GET_def POST_def Handle_def Let_def)
  then show "unsplit P (NotFound (api_routes ex))"
    by (simp add: New_def) (rule unsplitI, auto intro: safe_state_writer(5))
qed

section \<open>The proxy\<close>

lemma ReadString_LF: "ReadString r = Inr (line, r') \<Longrightarrow> \<exists>l. line = l @ [LF] \<and> one_line l"
proof -
  assume "ReadString r = Inr (line, r')"
  then have "LF \<in> set (rd_data r)" "line = take (length (takeWhile (\<lambda>c. c \<noteq> LF) (rd_data r)) + 1) (rd_data r)"
    by (auto simp: ReadString_def Let_def split: if_splits)
  moreover obtain a b where "rd_data r = a @ LF # b" "LF \<notin> set a" using split_list_first calculation(1) by metis
  moreover have "takeWhile (\<lambda>c. c \<noteq> LF) (a @ LF # b) = a" using calculation(4) by (subst takeWhile_append2) auto
  ultimately show ?thesis by (simp add: one_line_def)
qed

lemma one_line_TrimRight: "one_line l \<Longrightarrow> one_line (TrimRight (l @ [LF]) CRLF)"
  using TrimRight_snoc [of LF CRLF l] set_TrimRight [of l CRLF] by (simp add: one_line_subset)

lemma relay_headers_fields:
  "relay_headers br cl acc = Inr (n, kvs, br') \<Longrightarrow> \<forall>kv \<in> set acc. field_ok kv \<Longrightarrow> \<forall>kv \<in> set kvs. field_ok kv"
proof (induction br cl acc rule: relay_headers.induct)
  case (1 br cl acc)
  show ?case
  proof (cases "ReadString br")
    case (Inl e)
    then show ?thesis using "1.prems"(1) by (simp add: relay_headers.simps [of br])
  next
    case (Inr x)
    obtain line br1 where x: "x = (line, br1)" by fastforce
    obtain name v ok where c: "Cut (CHR '':'') (TrimRight line CRLF) = (name, v, ok)" by (rule prod_cases3)
    have l: "one_line (TrimRight line CRLF)" using ReadString_LF [of br line br1] Inr x one_line_TrimRight by auto
    have f: "field_ok (name, TrimSpace v)" if ok
      using l c that set_TrimSpace [of v] one_line_subset
      by (fastforce simp: Cut_cases field_ok_def split: if_splits)
    note rd = Inr [unfolded x] and unf = relay_headers.simps [of br cl acc]
    note IH = "1.IH" [OF rd refl refl _ c [symmetric] refl]
    show ?thesis
    proof (cases "TrimRight line CRLF = []")
      case True
      then show ?thesis using "1.prems" rd by (simp add: unf)
    next
      case False
      then show ?thesis using "1.prems" rd c f IH [OF False] by (simp add: unf split: if_splits)
    qed
  qed
qed

lemma Sets_unbroken:
  "unbroken w \<Longrightarrow> \<forall>kv \<in> set kvs. field_ok kv \<Longrightarrow> unbroken (foldl (\<lambda>w (k, v). w_SetHeader w k v) w kvs)"
  by (induction kvs arbitrary: w) auto

lemma relay_response_unbroken:
  assumes "relay_response cfg br w = (r, w')" "unbroken w"
  shows "unbroken w'"
proof (cases "\<exists>k. r = RelayOk k")
  case True
  then obtain s br1 cl hs br2 b where "relay_headers br1 (- 1) [] = Inr (cl, hs, br2)"
      "w' = w_SetBody (foldl (\<lambda>w (k, v). w_SetHeader w k v) (w_WriteHeader w s) hs) b"
    using assms(1) by (auto simp: relay_response_def split: sum.splits prod.splits relay_outcome.splits)
  then show ?thesis using assms(2) relay_headers_fields Sets_unbroken by auto
next
  case False
  with relay_response_fail [OF assms(1)] assms(2) show ?thesis by simp
qed

lemma relay_unbroken:
  assumes "pool_inv p X" "u < length (ups p)" "relay p u req w = (r, w', q)" "unbroken w"
  shows "unbroken w'"
  using relay_facts [OF assms(1-3)] relay_response_unbroken assms(4)
  by (cases "\<exists>k. r = RelayOk k") (auto simp: relayed_def)

text \<open>The pool's bookkeeping is sound and the configured addresses are single lines.\<close>

definition line_pool :: "Pool \<Rightarrow> bool" where
  "line_pool p \<longleftrightarrow> pool_inv p {#} \<and> list_all one_line (map Addr (ups p))"

lemma line_pool_step: "line_pool p \<Longrightarrow> pool_inv q {#} \<Longrightarrow> same_shape p q \<Longrightarrow> line_pool q"
  by (simp add: line_pool_def same_shape_def)

lemma line_pool_Addr: "line_pool p \<Longrightarrow> u < length (ups p) \<Longrightarrow> field_ok (''X-Upstream'', Addr (ups p ! u))"
  by (simp add: line_pool_def field_ok_def list_all_length)

lemma try_upstreams_unbroken:
  assumes "line_pool p" "\<forall>u \<in> set us. u < length (ups p)" "try_upstreams p us e req w = (r, w', q)" "unbroken w"
  shows "unbroken w'"
  using assms
proof (induction us arbitrary: p e w)
  case (Cons u us)
  let ?p = "upd_up u (\<lambda>x. x\<lparr>active := active x + 1\<rparr>) p"
  have p: "line_pool ?p" using Cons.prems(1) line_pool_step [of p ?p]
    by (simp add: upd_up_inv upd_up_shape line_pool_def)
  obtain r1 w1 p1 where rl: "relay ?p u req w = (r1, w1, p1)" by (rule prod_cases3)
  have u: "u < length (ups ?p)" using Cons.prems(2) by (simp add: upd_up_def)
  have pi: "pool_inv ?p {#}" using p by (simp add: line_pool_def)
  have w1: "unbroken w1" using relay_unbroken [OF pi u rl Cons.prems(4)] .
  have p1: "line_pool p1" "same_shape ?p p1" using relay_inv [OF pi u rl] line_pool_step [OF p] by blast+
  let ?p2 = "upd_up u (\<lambda>x. x\<lparr>active := active x - 1\<rparr>) p1"
  let ?p3 = "upd_up u (\<lambda>x. x\<lparr>healthy := False\<rparr>) ?p2"
  have p2: "line_pool ?p2" using line_pool_step [OF p1(1)] p1(1) by (simp add: upd_up_inv upd_up_shape line_pool_def)
  have p3: "line_pool ?p3" using line_pool_step [OF p2] p2 by (simp add: upd_up_inv upd_up_shape line_pool_def)
  have len: "length (ups ?p2) = length (ups p)" "length (ups ?p3) = length (ups p)"
    using same_shape_length [OF p1(2)] by (simp_all add: upd_up_def)
  show ?case
  proof (cases r1)
    case (RelayOk b)
    then have "w' = w_SetHeader w1 ''X-Upstream'' (Addr (ups ?p2 ! u))" using Cons.prems(3) rl by (auto simp: Let_def)
    moreover have "u < length (ups ?p2)" using Cons.prems(2) len by simp
    ultimately show ?thesis using line_pool_Addr [OF p2] w1 by simp
  next
    case (RelayErr x)
    then have "try_upstreams ?p3 us (Some x) req w1 = (r, w', q)" using Cons.prems(3) rl by (simp add: Let_def)
    moreover have "\<forall>v \<in> set us. v < length (ups ?p3)" using Cons.prems(2) len by simp
    ultimately show ?thesis using Cons.IH [OF p3 _ _ w1] by blast
  next
    case RelayPanic
    then show ?thesis using Cons.prems(3) rl w1 by (simp add: Let_def)
  qed
qed simp

lemma exchange_unbroken:
  assumes "line_pool p" "proxy_exchange ft p req w = (ou, w', q)" "unbroken w"
  shows "unbroken w' \<and> line_pool q"
proof
  have "pool_inv p {#}" using assms(1) by (simp add: line_pool_def)
  from proxy_exchange_inv [OF this assms(2)] assms(1) show "line_pool q" using line_pool_step by blast
  obtain cs p1 where pk: "pick p = (cs, p1)" by fastforce
  have p1: "line_pool p1" using pick_pool [OF pk] assms(1) line_pool_step \<open>pool_inv p {#}\<close> by blast
  show "unbroken w'"
  proof (cases "cs = None \<or> cs = Some []")
    case True
    then show ?thesis using assms(2,3) pk by (auto simp: proxy_exchange_def field_ok_def)
  next
    case False
    then obtain c cs' where cs: "cs = Some (c # cs')" by (metis list.exhaust option.exhaust)
    let ?us = "take (nat (min (MaxAttempts (px_cfg p1)) (int (length (c # cs'))))) (c # cs')"
    obtain e w1 p2 where tr: "try_upstreams p1 ?us None req w = (e, w1, p2)" by (rule prod_cases3)
    have "length (ups p1) = length (ups p)" using pick_pool [OF pk] same_shape_length by blast
    then have "\<forall>u \<in> set ?us. u < length (ups p1)"
      using pick_range [OF pk [unfolded cs]] by (metis in_set_takeD)
    from try_upstreams_unbroken [OF p1 this tr assms(3)] assms(2) pk tr show ?thesis
      unfolding proxy_exchange_def cs by (cases e) (auto simp: Let_def)
  qed
qed

lemma Proxy_Handler_unsplit: "unsplit line_pool (Proxy_Handler ft)"
proof (rule unsplitI)
  fix req w g ou q w' g'
  assume s: "safe_state line_pool req w g" and r: "Proxy_Handler ft req w g = (ou, q, w', g')"
  obtain o1 w1 p1 where e: "proxy_exchange ft (pool g) req w = (o1, w1, p1)" by (rule prod_cases3)
  from s have "line_pool (pool g)" "unbroken w" by (simp_all add: safe_state_def)
  from exchange_unbroken [OF this(1) e this(2)] s r e show "safe_state line_pool q w' g'"
    by (auto simp: Proxy_Handler_def safe_state_def)
qed

section \<open>The assembled handler, and the connection\<close>

lemma main_unsplit: "unsplit line_pool (main_handler ex fl)"
  unfolding main_handler_def
  by (rule Chain_unsplit)
     (auto simp: middlewares_def buildAPI_unsplit Proxy_Handler_unsplit unsplit_metrics.unsplit_wrapper_axioms
        unsplit_logging.unsplit_wrapper_axioms unsplit_request_id.unsplit_wrapper_axioms
        unsplit_recover.unsplit_wrapper_axioms unsplit_rate_limit.unsplit_wrapper_axioms
        unsplit_auth.unsplit_wrapper_axioms unsplit_cache.unsplit_wrapper_axioms)

lemma error_unbroken: "unbroken (error_writer s)"
  using unbroken_ops(1,5) unbroken_New by (simp add: error_writer_def Let_def field_ok_def)

lemma parsed_clean:
  assumes "ParseRequest uc br lm a = Inr (req, br')"
  shows "hdr_clean (ReqHeaders req)"
proof -
  obtain br1 br2 where "parse_headers br1 lm NewHeaders 0 = Inr (ReqHeaders req, br2)"
    using assms unfolding ParseRequest_ok by blast
  from parse_headers_inv [OF this] show ?thesis by (simp add: hdr_clean_new hdr_bytes_sum Headers_Len_def)
qed

text \<open>A response that is the serialisation of some header table, whose fields are its lines.\<close>

definition line_per_field :: "bytes \<Rightarrow> bool" where
  "line_per_field b \<longleftrightarrow> (\<exists>now w ka. b = fst (serialize now w ''HTTP/1.1'' ka)
     \<and> unbroken_message b (Headers_Range (final_headers now w ka)) (wire_body w))"

lemma line_per_fieldI: "unbroken w \<Longrightarrow> line_per_field (fst (serialize now w ''HTTP/1.1'' ka))"
  unfolding line_per_field_def using serialize_unbroken by blast

definition safe_world :: "('p \<Rightarrow> bool) \<Rightarrow> ('m, 'r, Cache, 'p) world \<Rightarrow> bool" where
  "safe_world P g \<longleftrightarrow> cache_unbroken (store g) \<and> P (pool g)"

lemma send_safe:
  assumes "send cf ok w ka g = (ev, g')" "unbroken w"
  shows "\<forall>b \<in> set (flushed ev). line_per_field b" "safe_world P g' \<longleftrightarrow> safe_world P g"
proof -
  show "\<forall>b \<in> set (flushed ev). line_per_field b"
    using send_events [OF assms(1)] line_per_fieldI [OF assms(2)] by (auto split: if_splits)
  show "safe_world P g' \<longleftrightarrow> safe_world P g"
    using assms(1) by (auto simp: send_def time_Now_def safe_world_def split: if_splits)
qed

lemma safeHandle_safe:
  assumes "unsplit P h" "safe_state P req w g" "safeHandle h req w g = (q, w', g')"
  shows "unbroken w' \<and> safe_world P g'"
proof -
  obtain ou q1 w1 g1 where r: "h req w g = (ou, q1, w1, g1)" by (rule prod_cases4)
  have "safe_state P q1 w1 g1" using unsplitD [OF assms(1,2) r] .
  then have "unbroken w1" "unbroken (w1\<lparr>hijacked := False\<rparr>)" "safe_world P g1"
    by (simp_all add: safe_state_def safe_world_def unbroken_def)
  then show ?thesis using assms(3) r by (cases ou) (auto simp: safeHandle_def)
qed

lemma answer_safe:
  assumes "unsplit P h" "safe_world P g" "hdr_clean (ReqHeaders req)" "answer cf h a req buffered served g = (ev, t)"
  shows "(\<forall>b \<in> set (flushed ev). line_per_field b)
    \<and> (case t of Stop e g' \<Rightarrow> safe_world P g' | Again b s g' \<Rightarrow> safe_world P g')"
proof -
  let ?w = "NewResponseWriter\<lparr>isHead := (Method req = ''HEAD'')\<rparr>"
  have "unbroken ?w" using unbroken_New by (simp add: unbroken_def)
  then have s: "safe_state P req ?w g" using assms(2,3) by (simp add: safe_state_def safe_world_def)
  obtain q w1 g1 where hd: "safeHandle h req ?w g = (q, w1, g1)" by (rule prod_cases3)
  note hs = safeHandle_safe [OF assms(1) s hd]
  obtain ev1 g2 where e: "send cf (ar_flush_ok a) w1 (keep_alive cf q (ar_draining_after a) (served + 1)) g1 = (ev1, g2)"
    by fastforce
  then have "ev = ev1" "t = Stop Closed g2 \<or> t = Again buffered (served + 1) g2"
    using assms(4) hd by (auto simp: answer_def Let_def)
  with send_safe [OF e] hs show ?thesis by auto
qed

text \<open>A turn writes nothing, or the error answer to a request that failed to parse, or what \<open>answer\<close> writes.\<close>

lemma serve_turn_shape:
  assumes "serve_turn uc cf h remote a buffered served g = (ev, t)"
  obtains (quiet) e n where "flushed ev = []" "t = Stop e (g\<lparr>ticks := n\<rparr>)"
  | (rejected) pe ev1 g1 n where "flushed ev = flushed ev1" "t = Stop Closed g1"
      "send cf (ar_flush_ok a) (error_writer (error_status pe)) False (g\<lparr>ticks := n\<rparr>) = (ev1, g1)"
  | (answered) req br ev1 n where "flushed ev = flushed ev1"
      "ParseRequest uc (receive a buffered) (cf_Limits cf) remote = Inr (req, br)"
      "answer cf h a req (rd_data br) served (g\<lparr>ticks := n\<rparr>) = (ev1, t)"
proof (cases "(ar_draining_top a \<and> served > 0) \<or> \<not> peek_ok a buffered")
  case True
  with assms have "flushed ev = [] \<and> (t = Stop Closed (g\<lparr>ticks := ticks g\<rparr>) \<or> t = Stop Closed (g\<lparr>ticks := Suc (ticks g)\<rparr>))"
    by (auto simp: serve_turn_def time_Now_def split: if_splits)
  then show thesis using quiet by blast
next
  case False
  let ?g = "g\<lparr>ticks := Suc (Suc (ticks g))\<rparr>"
  show thesis
  proof (cases "ParseRequest uc (receive a buffered) (cf_Limits cf) remote")
    case (Inl f)
    show thesis
    proof (cases f)
      case (Failed pe)
      obtain ev1 g1 where e: "send cf (ar_flush_ok a) (error_writer (error_status pe)) False ?g = (ev1, g1)" by fastforce
      with assms False Inl Failed have "flushed ev = flushed ev1" "t = Stop Closed g1"
        by (auto simp: serve_turn_def time_Now_def writeError_def)
      with e show thesis by (rule rejected [rotated 2])
    next
      case CleanClose
      with assms False Inl have "flushed ev = []" "t = Stop Closed ?g" by (auto simp: serve_turn_def time_Now_def)
      then show thesis by (rule quiet)
    next
      case ParsePanic
      with assms False Inl have "flushed ev = []" "t = Stop Crashed ?g" by (auto simp: serve_turn_def time_Now_def)
      then show thesis by (rule quiet)
    qed
  next
    case (Inr x)
    obtain req br where x: "x = (req, br)" by fastforce
    obtain ev1 t1 where an: "answer cf h a req (rd_data br) served ?g = (ev1, t1)" by fastforce
    with assms False Inr x have "flushed ev = flushed ev1" "t = t1"
      by (auto simp: serve_turn_def time_Now_def)
    with an Inr x show thesis by (intro answered [of ev1 req br "Suc (Suc (ticks g))"]) simp_all
  qed
qed

lemma serve_turn_safe:
  assumes "unsplit P h" "safe_world P g" "serve_turn uc cf h remote a buffered served g = (ev, t)"
  shows "(\<forall>b \<in> set (flushed ev). line_per_field b)
    \<and> (case t of Stop e g' \<Rightarrow> safe_world P g' | Again b s g' \<Rightarrow> safe_world P g')"
proof -
  have g: "safe_world P (g\<lparr>ticks := n\<rparr>)" for n using assms(2) by (simp add: safe_world_def)
  from assms(3) show ?thesis
  proof (cases rule: serve_turn_shape)
    case quiet
    then show ?thesis using g by simp
  next
    case rejected
    then show ?thesis using send_safe(1) [OF rejected(3) error_unbroken] send_safe(2) [OF rejected(3) error_unbroken] g by simp
  next
    case answered
    then show ?thesis using answer_safe [OF assms(1) g parsed_clean [OF answered(2)] answered(3)] by simp
  qed
qed

lemma conn_loop_safe:
  "unsplit P h \<Longrightarrow> safe_world P g \<Longrightarrow> conn_loop uc cf h remote script buffered served g = (ev, e, g') \<Longrightarrow>
   (\<forall>b \<in> set (flushed ev). line_per_field b) \<and> safe_world P g'"
proof (induction script arbitrary: buffered served g ev)
  case (Cons a script)
  obtain ev1 t where s: "serve_turn uc cf h remote a buffered served g = (ev1, t)" by fastforce
  note st = serve_turn_safe [OF Cons.prems(1,2) s]
  show ?case
  proof (cases t)
    case (Stop e1 g1)
    with Cons.prems s st show ?thesis by auto
  next
    case (Again b sv g1)
    with Cons.prems s obtain ev2 where r: "conn_loop uc cf h remote script b sv g1 = (ev2, e, g')"
      and fl: "flushed ev = flushed ev1 @ flushed ev2" by (auto dest!: emits_flushed)
    from Cons.IH [OF Cons.prems(1) _ r] st Again fl show ?thesis by auto
  qed
qed simp


text \<open>Witness: the program as a proxy, with an upstream that hides a field behind a lone carriage return.\<close>

definition hostile :: "nat \<Rightarrow> reply" where
  "hostile n = \<lparr>rp_write_ok = True,
     rp_data = ''HTTP/1.1 200 OK'' @ CRLF @ ''X-A: 1'' @ [CR] @ ''Set-Cookie: 2'' @ CRLF @ CRLF, rp_end = EOF\<rparr>"

lemma served_once:
  "length (flushed (fst (serve_requests sample_config h [sample_arrival b] [req] 0 g))) = 1"
  by (auto simp: answer_def send_def time_Now_def emits_def Let_def sample_arrival_def split: prod.splits)


end
