(* ===== verification/Proxy_Forward.thy ===== *)
theory Proxy_Forward
  imports Proxy_Wire
begin

text \<open>
  The request side of the proxy against the parser of the next server: a request that
  \<open>ParseRequest\<close> (\<open>httpcore/request.go\<close>) returned, written by \<open>relayConn\<close> (\<open>proxy/proxy.go\<close>), is
  parsed into the same request again, up to the fields that belong to one connection.
\<close>

section \<open>The fields that are forwarded\<close>

definition forward_field :: "Request \<Rightarrow> bytes \<times> bytes \<Rightarrow> bytes \<times> bytes" where
  "forward_field req kv =
     (if ToLower_is (fst kv) ''x-forwarded-for'' then (fst kv, snd kv @ '', '' @ remote_host req) else kv)"

definition forwarded :: "Request \<Rightarrow> (bytes \<times> bytes) list" where
  "forwarded req =
     map (forward_field req) (filter (\<lambda>kv. \<not> hop_by_hop (fst kv)) (Headers_Range (ReqHeaders req)))
     @ (if wroteXFF req then [] else [(''X-Forwarded-For'', remote_host req)])
     @ [(''Content-Length'', Itoa (int (length (ReqBody req)))), (''Connection'', ''keep-alive'')]"

lemma relay_request_lines:
  "relay_request req = (Method req @ '' '' @ RawTarget req @ '' HTTP/1.1'') @ CRLF
     @ concat (map (\<lambda>(k, v). header_line k v) (forwarded req)) @ CRLF @ ReqBody req"
proof -
  have "concat (map (relay_header req) kvs) =
      concat (map (\<lambda>(k, v). header_line k v) (map (forward_field req) (filter (\<lambda>kv. \<not> hop_by_hop (fst kv)) kvs)))"
    for kvs by (induction kvs) (auto simp: relay_header_def forward_field_def)
  from this [of "Headers_Range (ReqHeaders req)"] show ?thesis
    by (simp add: relay_request_def forwarded_def header_line_def)
qed

section \<open>Parsing written header lines\<close>

definition add_fields :: "Headers \<Rightarrow> (bytes \<times> bytes) list \<Rightarrow> Headers" where
  "add_fields h kvs = foldl (\<lambda>h (k, v). Headers_Add h k (TrimSpace v)) h kvs"

lemma Values_Add:
  "Headers_Values (Headers_Add h k v) k' =
     (if canonical k = canonical k' then Headers_Values h k' @ [v] else Headers_Values h k')"
  by (auto simp: Headers_Values_def hdr_ops map_slice_def)

lemma add_fields_wf: "hdr_wf h \<Longrightarrow> hdr_wf (add_fields h kvs)"
  unfolding add_fields_def by (induction kvs arbitrary: h) (auto intro!: hdr_inv)

lemma Values_add_fields:
  "Headers_Values (add_fields h kvs) K = Headers_Values h K
     @ map (\<lambda>kv. TrimSpace (snd kv)) (filter (\<lambda>kv. canonical (fst kv) = canonical K) kvs)"
  unfolding add_fields_def by (induction kvs arbitrary: h) (auto simp: Values_Add)

lemma Values_New: "Headers_Values NewHeaders K = []"
  by (simp add: Headers_Values_def map_slice_def)

lemma Get_Values: "Headers_Get h k = (case Headers_Values h k of [] \<Rightarrow> [] | v # _ \<Rightarrow> v)"
  by (simp add: Headers_Get_def Headers_Values_def)

lemma Has_Values: "hdr_wf h \<Longrightarrow> Headers_Has h K \<longleftrightarrow> Headers_Values h K \<noteq> []"
  by (auto simp: Headers_Has_def Headers_Values_def hdr_wf_def map_slice_def split: option.splits)

lemma parse_headers_written:
  assumes "rd_data r = concat (map (\<lambda>(k, v). header_line k v) kvs) @ CRLF @ rest"
    and "\<forall>(k, v) \<in> set kvs. clean_name k \<and> LF \<notin> set v \<and> int (length k + length v + 4) \<le> MaxHeaderLine lm"
    and "2 \<le> MaxHeaderLine lm"
    and "t + int (\<Sum>(k, v)\<leftarrow>kvs. length k + length v + 2) \<le> MaxHeaderBytes lm"
    and "Headers_Len h + int (length kvs) \<le> MaxHeaderCount lm"
  shows "parse_headers r lm h t = Inr (add_fields h kvs, r\<lparr>rd_data := rest\<rparr>)"
  using assms
proof (induction kvs arbitrary: r h t)
  case Nil
  have "readBoundedLine r (MaxHeaderLine lm) = Inr ([], r\<lparr>rd_data := rest\<rparr>)"
    using Nil by (intro readBoundedLine_written) simp_all
  then show ?case by (simp add: parse_headers.simps [of r] add_fields_def)
next
  case (Cons kv kvs)
  obtain k v where kv: "kv = (k, v)" by fastforce
  let ?l = "k @ '': '' @ v"
  let ?r = "r\<lparr>rd_data := concat (map (\<lambda>(k, v). header_line k v) kvs) @ CRLF @ rest\<rparr>"
  have c: "clean_name k" "LF \<notin> set v" "int (length k + length v + 4) \<le> MaxHeaderLine lm"
    using Cons.prems(2) kv by auto
  then have k: "CHR '':'' \<notin> set k" "LF \<notin> set k" "k \<noteq> []" "\<not> ContainsAny k [CHR '' '', HT]"
    by (auto simp: clean_name_def ContainsAny_def list_ex_iff)
  have rd: "readBoundedLine r (MaxHeaderLine lm) = Inr (?l, ?r)"
    using c k Cons.prems(1) kv by (intro readBoundedLine_written) (simp_all add: header_line_def)
  have cut: "Cut (CHR '':'') ?l = (k, CHR '' '' # v, True)"
    using Cut_found [OF k(1), of "CHR '' '' # v"] by simp
  have tr: "TrimSpace (CHR '' '' # v) = TrimSpace v" by (simp add: TrimSpace_space ascii_space_def)
  have nonneg: "0 \<le> int (\<Sum>(k, v)\<leftarrow>kvs. length k + length v + 2)" by simp
  have len: "Headers_Len (Headers_Add h k (TrimSpace v)) \<le> Headers_Len h + 1" by (rule Headers_Len_Add)
  have IH: "parse_headers ?r lm (Headers_Add h k (TrimSpace v)) (t + int (length ?l)) =
      Inr (add_fields (Headers_Add h k (TrimSpace v)) kvs, ?r\<lparr>rd_data := rest\<rparr>)"
    using Cons.prems len kv by (intro Cons.IH) auto
  have bytes: "\<not> t + int (length ?l) > MaxHeaderBytes lm" using Cons.prems(4) kv nonneg by simp
  have count: "\<not> Headers_Len (Headers_Add h k (TrimSpace v)) > MaxHeaderCount lm"
    using Cons.prems(5) len by simp
  have "parse_headers r lm h t = parse_headers ?r lm (Headers_Add h k (TrimSpace v)) (t + int (length ?l))"
    unfolding parse_headers.simps [of r] rd sum.case prod.case cut tr Let_def
    using k bytes count by simp
  with IH kv show ?case by (simp add: add_fields_def)
qed

text \<open>The parser trims every value it stores.\<close>

lemma parse_headers_stripped:
  assumes "parse_headers br lm h t = Inr (h', br')" "\<forall>k. \<forall>v \<in> set (Headers_Values h k). stripped v"
  shows "\<forall>k. \<forall>v \<in> set (Headers_Values h' k). stripped v"
  using assms
proof (induction br lm h t rule: parse_headers.induct)
  case (1 br lm h t)
  from "1.prems"(1) show ?case
  proof (cases rule: parse_headers_ok)
    case blank
    with "1.prems"(2) show ?thesis by simp
  next
    case (field l br1 name v)
    have "\<forall>k. \<forall>v' \<in> set (Headers_Values (Headers_Add h name (TrimSpace v)) k). stripped v'"
      using "1.prems"(2) by (auto simp: Values_Add)
    from "1.IH" [OF field(1) refl field(2,3) field(4) [symmetric] refl field(5) refl field(6,7) this]
    show ?thesis .
  qed
qed

section \<open>The request comes through\<close>

lemma canonical_xff [simp]: "canonical ''X-Forwarded-For'' = ''X-Forwarded-For''"
  by code_simp

lemma canonical_te:
  "canonical ''Transfer-Encoding'' = ''Transfer-Encoding''" "canonical ''Host'' = ''Host''"
  by code_simp+

lemma xff_key: "canonical k = k \<Longrightarrow> ToLower_is k ''x-forwarded-for'' \<longleftrightarrow> k = ''X-Forwarded-For''"
  by (rule plain_key) (simp_all, code_simp+)

lemma hop_names:
  "\<not> hop_by_hop ''X-Forwarded-For''" "hop_by_hop ''Content-Length''" "hop_by_hop ''Connection''"
  "hop_by_hop ''Transfer-Encoding''" "\<not> hop_by_hop ''Host''"
  by code_simp+

lemma forwarded_values:
  assumes "hdr_wf (ReqHeaders req)" "canonical K = K"
  shows "map snd (filter (\<lambda>kv. canonical (fst kv) = K) (forwarded req)) =
    (if K = ''Content-Length'' then [Itoa (int (length (ReqBody req)))]
     else if K = ''Connection'' then [''keep-alive'']
     else if K = ''X-Forwarded-For'' then
       (case Headers_Values (ReqHeaders req) K of [] \<Rightarrow> [remote_host req]
        | vs \<Rightarrow> map (\<lambda>v. v @ '', '' @ remote_host req) vs)
     else if hop_by_hop K then [] else Headers_Values (ReqHeaders req) K)"
proof -
  let ?h = "ReqHeaders req"
  let ?R = "Headers_Range ?h"
  let ?F = "map (forward_field req) (filter (\<lambda>kv. \<not> hop_by_hop (fst kv)) ?R)"
  have key: "canonical (fst kv) = fst kv" if "kv \<in> set ?R" for kv
    using Headers_Range_keys [OF assms(1), of "fst kv" "snd kv"] that assms(1) by (simp add: hdr_wf_def)
  have first: "filter (\<lambda>kv. canonical (fst kv) = K) ?F =
      (if hop_by_hop K then [] else map (forward_field req) (map (Pair K) (Headers_Values ?h K)))"
  proof -
    have "filter (\<lambda>kv. canonical (fst kv) = K) ?F =
        map (forward_field req) (filter (\<lambda>kv. \<not> hop_by_hop (fst kv) \<and> fst kv = K) ?R)"
      using key by (auto simp: filter_map comp_def forward_field_def intro!: arg_cong [of _ _ "map _"] filter_cong)
    also have "filter (\<lambda>kv. \<not> hop_by_hop (fst kv) \<and> fst kv = K) ?R =
        (if hop_by_hop K then [] else filter (\<lambda>kv. fst kv = K) ?R)"
      by (auto intro!: filter_cong simp: filter_empty_conv)
    finally show ?thesis using filter_Range [OF assms] by simp
  qed
  have wrote: "wroteXFF req \<longleftrightarrow> Headers_Values ?h ''X-Forwarded-For'' \<noteq> []"
  proof -
    have "wroteXFF req \<longleftrightarrow> (\<exists>kv \<in> set ?R. fst kv = ''X-Forwarded-For'')"
      unfolding wroteXFF_def list_ex_iff using key xff_key hop_names(1) by (metis (no_types, lifting) case_prod_beta)
    also have "\<dots> \<longleftrightarrow> filter (\<lambda>kv. fst kv = ''X-Forwarded-For'') ?R \<noteq> []" by (auto simp: filter_empty_conv)
    finally show ?thesis using filter_Range [OF assms(1), of "''X-Forwarded-For''"] by simp
  qed
  have ff: "map snd (map (forward_field req) (map (Pair K) vs)) =
      (if K = ''X-Forwarded-For'' then map (\<lambda>v. v @ '', '' @ remote_host req) vs else vs)" for vs
    using xff_key [OF assms(2)] by (simp add: forward_field_def comp_def)
  show ?thesis
  proof (cases "K \<in> {''Content-Length'', ''Connection'', ''X-Forwarded-For''}")
    case True
    then show ?thesis
      unfolding forwarded_def filter_append map_append first
      using hop_names(1-3) wrote ff [of "Headers_Values ?h ''X-Forwarded-For''"]
      by (elim insertE emptyE) (simp_all split: list.splits)
  next
    case False
    then show ?thesis
      unfolding forwarded_def filter_append map_append first using ff by auto
  qed
qed

text \<open>The next server's limits leave room for the forwarded request.\<close>

definition within_limits :: "Limits \<Rightarrow> Request \<Rightarrow> bool" where
  "within_limits lm req \<longleftrightarrow>
     int (length (Method req) + length (RawTarget req) + 12) \<le> MaxRequestLine lm
     \<and> 2 \<le> MaxHeaderLine lm
     \<and> (\<forall>(k, v) \<in> set (forwarded req). int (length k + length v + 4) \<le> MaxHeaderLine lm)
     \<and> int (\<Sum>(k, v)\<leftarrow>forwarded req. length k + length v + 2) \<le> MaxHeaderBytes lm
     \<and> int (length (forwarded req)) \<le> MaxHeaderCount lm
     \<and> int (length (ReqBody req)) \<le> MaxBodyBytes lm \<and> MaxBodyBytes lm \<le> maxAlloc"

lemma forwarded_clean:
  assumes "hdr_clean (ReqHeaders req)" "LF \<notin> set (remote_host req)"
  shows "\<forall>(k, v) \<in> set (forwarded req). clean_name k \<and> LF \<notin> set v"
proof -
  have "clean_name k \<and> LF \<notin> set v" if "(k, v) \<in> set (Headers_Range (ReqHeaders req))" for k v
    using assms(1) that
    by (auto simp: hdr_clean_def Headers_Range_def map_slice_def split: option.splits) (metis (no_types))
  moreover have "clean_name ''X-Forwarded-For''" "clean_name ''Content-Length''" "clean_name ''Connection''"
    by (simp_all add: clean_name_def)
  moreover have "LF \<notin> set (Itoa n)" for n using Itoa_clean [of LF n] by auto
  ultimately show ?thesis
    using assms(2) by (auto simp: forwarded_def forward_field_def)
qed

text \<open>The header table the next server reads, and what it has of the request's.\<close>

definition forwarded_headers :: "Request \<Rightarrow> Headers" where
  "forwarded_headers req = add_fields NewHeaders (forwarded req)"

lemma forwarded_headers_wf: "hdr_wf (forwarded_headers req)"
  unfolding forwarded_headers_def by (intro add_fields_wf hdr_inv)

lemma forwarded_table:
  assumes "hdr_wf (ReqHeaders req)" "\<forall>k. \<forall>v \<in> set (Headers_Values (ReqHeaders req) k). stripped v"
  shows "\<not> hop_by_hop (canonical k) \<Longrightarrow> canonical k \<noteq> ''X-Forwarded-For'' \<Longrightarrow>
      Headers_Values (forwarded_headers req) k = Headers_Values (ReqHeaders req) k"
    "Headers_Values (forwarded_headers req) ''X-Forwarded-For'' =
      (case Headers_Values (ReqHeaders req) ''X-Forwarded-For'' of [] \<Rightarrow> [TrimSpace (remote_host req)]
       | vs \<Rightarrow> map (\<lambda>v. TrimSpace (v @ '', '' @ remote_host req)) vs)"
    "Headers_Values (forwarded_headers req) ''Transfer-Encoding'' = []"
    "Headers_Values (forwarded_headers req) ''Content-Length'' = [Itoa (int (length (ReqBody req)))]"
proof -
  have vals: "Headers_Values (forwarded_headers req) K
      = map TrimSpace (map snd (filter (\<lambda>kv. canonical (fst kv) = canonical K) (forwarded req)))" for K
    by (simp add: forwarded_headers_def Values_add_fields Values_New comp_def)
  note fv = forwarded_values [OF assms(1)]
  show "Headers_Values (forwarded_headers req) k = Headers_Values (ReqHeaders req) k"
    if "\<not> hop_by_hop (canonical k)" "canonical k \<noteq> ''X-Forwarded-For''"
  proof -
    have "map TrimSpace (Headers_Values (ReqHeaders req) k) = Headers_Values (ReqHeaders req) k"
      using assms(2) TrimSpace_stripped by (intro map_idI) blast
    then show ?thesis
      using that fv [of "canonical k"] hop_names by (auto simp: vals) (auto simp: Headers_Values_def)
  qed
  show "Headers_Values (forwarded_headers req) ''X-Forwarded-For'' =
      (case Headers_Values (ReqHeaders req) ''X-Forwarded-For'' of [] \<Rightarrow> [TrimSpace (remote_host req)]
       | vs \<Rightarrow> map (\<lambda>v. TrimSpace (v @ '', '' @ remote_host req)) vs)"
    using fv [of "''X-Forwarded-For''"] by (simp add: vals comp_def split: list.splits)
  show "Headers_Values (forwarded_headers req) ''Transfer-Encoding'' = []"
    using fv [of "''Transfer-Encoding''"] hop_names by (simp add: vals canonical_te)
  show "Headers_Values (forwarded_headers req) ''Content-Length'' = [Itoa (int (length (ReqBody req)))]"
    using fv [of "''Content-Length''"] TrimSpace_trimmed [OF Itoa_trimmed] by (simp add: vals)
qed

lemma counted_body:
  assumes "hdr_wf h" "Headers_Values h ''Transfer-Encoding'' = []"
    and "Headers_Values h ''Content-Length'' = [Itoa (int (length b))]"
    and "int (length b) \<le> MaxBodyBytes lm" "MaxBodyBytes lm \<le> maxAlloc" "rd_data br = b @ rest"
  shows "parse_body br lm h = Inr (b, br\<lparr>rd_data := rest\<rparr>)"
proof -
  have "\<not> Headers_ContainsToken h ''Transfer-Encoding'' ''chunked''"
    using assms(2) by (simp add: Headers_ContainsToken_def Headers_Values_def)
  moreover have "\<not> Headers_Has h ''Transfer-Encoding''" "Headers_Has h ''Content-Length''"
    using assms(2,3) Has_Values [OF assms(1)] by simp_all
  moreover have "ParseInt 10 (Itoa (int (length b))) = (int (length b), None)"
    using Atoi_Itoa [of "int (length b)"] assms(4,5) by (simp add: Atoi_def MinInt64_def MaxInt64_def maxAlloc_def)
  moreover have "\<not> make_panics (int (length b))" using assms(4,5) by (simp add: make_panics_def)
  ultimately show ?thesis
    using assms(3,4,6) by (simp add: parse_body_def Get_Values ReadFull_def consume_def)
qed

lemma forwarded_line:
  assumes "parse_request_line uc br lm = Inr ((m, t, p), br1)" "rd_data br2 = (m @ '' '' @ t @ '' HTTP/1.1'') @ CRLF @ rest"
    and "int (length m + length t + 12) \<le> MaxRequestLine lm2"
  shows "parse_request_line uc2 br2 lm2 = Inr ((m, t, ''HTTP/1.1''), br2\<lparr>rd_data := rest\<rparr>)"
proof -
  let ?line = "m @ '' '' @ t @ '' HTTP/1.1''"
  obtain line where line: "readBoundedLine br (MaxRequestLine lm) = Inr (line, br1)"
      "Split (CHR '' '') line = [m, t, p]" "m \<in> set knownMethods" "HasPrefix t ''/''"
    using assms(1) unfolding request_line_ok by blast
  have parts: "CHR '' '' \<notin> set m" "CHR '' '' \<notin> set t"
    using Split_no_sep [of _ "CHR '' ''" line] line(2) by auto
  have "LF \<notin> set line" using line(1) by (rule readBoundedLine_noLF)
  moreover have "line = m @ '' '' @ t @ '' '' @ p"
    using Join_Split [of "CHR '' ''" line] line(2) by simp
  ultimately have "LF \<notin> set ?line" by auto
  then have "readBoundedLine br2 (MaxRequestLine lm2) = Inr (?line, br2\<lparr>rd_data := rest\<rparr>)"
    using assms(2,3) by (intro readBoundedLine_written) simp_all
  moreover have "Split (CHR '' '') ?line = [m, t, ''HTTP/1.1'']"
    using Split_append [OF parts(1)] Split_append [OF parts(2)] by (simp add: Split_fresh)
  ultimately show ?thesis using line(3,4) unfolding request_line_ok by blast
qed

text \<open>What a request keeps on its way through the proxy.\<close>

definition forwards :: "Request \<Rightarrow> Request \<Rightarrow> bool" where
  "forwards req req2 \<longleftrightarrow>
     Method req2 = Method req \<and> RawTarget req2 = RawTarget req \<and> Path req2 = Path req
     \<and> Query req2 = Query req \<and> ReqBody req2 = ReqBody req \<and> Proto req2 = ''HTTP/1.1''
     \<and> (\<forall>k. \<not> hop_by_hop (canonical k) \<and> canonical k \<noteq> ''X-Forwarded-For'' \<longrightarrow>
           Headers_Values (ReqHeaders req2) k = Headers_Values (ReqHeaders req) k)
     \<and> Headers_Values (ReqHeaders req2) ''X-Forwarded-For'' =
         (case Headers_Values (ReqHeaders req) ''X-Forwarded-For'' of [] \<Rightarrow> [TrimSpace (remote_host req)]
          | vs \<Rightarrow> map (\<lambda>v. TrimSpace (v @ '', '' @ remote_host req)) vs)"

definition forwarded_request :: "bytes \<Rightarrow> Request \<Rightarrow> Request" where
  "forwarded_request a req = \<lparr>Method = Method req, RawTarget = RawTarget req, Path = Path req,
     Proto = ''HTTP/1.1'', Query = Query req, ReqHeaders = forwarded_headers req, ReqBody = ReqBody req,
     RemoteAddr = a, PathParams = Map.empty, Meta = Map.empty\<rparr>"

lemma relay_request_parses:
  assumes "ParseRequest uc br lm a = Inr (req, br')" "Headers_Has (ReqHeaders req) ''Host''"
    and "within_limits lm2 req" "LF \<notin> set (remote_host req)" "rd_data br2 = relay_request req @ rest"
  shows "ParseRequest uc2 br2 lm2 a2 = Inr (forwarded_request a2 req, br2\<lparr>rd_data := rest\<rparr>)"
    and "forwards req (forwarded_request a2 req)"
proof -
  from assms(1) obtain br1 br1' where
    line: "parse_request_line uc br lm = Inr ((Method req, RawTarget req, Proto req), br1)"
    and hd: "parse_headers br1 lm NewHeaders 0 = Inr (ReqHeaders req, br1')"
    and path: "PathUnescape (fst (Cut (CHR ''?'') (RawTarget req))) = Some (Path req)"
    and query: "ParseQuery (fst (snd (Cut (CHR ''?'') (RawTarget req)))) = Some (Query req)"
    unfolding ParseRequest_ok by blast
  have clean: "hdr_clean (ReqHeaders req)"
    using parse_headers_inv [OF hd] by (simp add: hdr_clean_new hdr_bytes_sum Headers_Len_def)
  then have wf: "hdr_wf (ReqHeaders req)" by (simp add: hdr_clean_def)
  have strip: "\<forall>k. \<forall>v \<in> set (Headers_Values (ReqHeaders req) k). stripped v"
    using parse_headers_stripped [OF hd] by (simp add: Headers_Values_def map_slice_def)
  note tab = forwarded_table [OF wf strip]
  let ?h = "forwarded_headers req"
  let ?hs = "concat (map (\<lambda>(k, v). header_line k v) (forwarded req)) @ CRLF @ ReqBody req @ rest"
  have rl: "parse_request_line uc2 br2 lm2 = Inr ((Method req, RawTarget req, ''HTTP/1.1''), br2\<lparr>rd_data := ?hs\<rparr>)"
    using assms(3,5) by (intro forwarded_line [OF line]) (simp_all add: relay_request_lines within_limits_def)
  have ph: "parse_headers (br2\<lparr>rd_data := ?hs\<rparr>) lm2 NewHeaders 0 = Inr (?h, br2\<lparr>rd_data := ReqBody req @ rest\<rparr>)"
    using parse_headers_written [of "br2\<lparr>rd_data := ?hs\<rparr>" "forwarded req" "ReqBody req @ rest" lm2 0 NewHeaders]
      forwarded_clean [OF clean assms(4)] assms(3)
    by (fastforce simp: within_limits_def Headers_Len_def forwarded_headers_def)
  have host: "Headers_Has ?h ''Host''"
    using tab(1) [where k = "''Host''"] hop_names assms(2) Has_Values [OF wf] Has_Values [OF forwarded_headers_wf]
    by (simp add: canonical_te)
  have "parse_body (br2\<lparr>rd_data := ReqBody req @ rest\<rparr>) lm2 ?h = Inr (ReqBody req, br2\<lparr>rd_data := rest\<rparr>)"
    using counted_body [OF forwarded_headers_wf tab(3,4), of lm2 "br2\<lparr>rd_data := ReqBody req @ rest\<rparr>"] assms(3)
    by (simp add: within_limits_def)
  then show "ParseRequest uc2 br2 lm2 a2 = Inr (forwarded_request a2 req, br2\<lparr>rd_data := rest\<rparr>)"
    unfolding ParseRequest_ok using rl ph host path query by (auto simp: forwarded_request_def)
  show "forwards req (forwarded_request a2 req)" using tab(1,2) by (simp add: forwards_def forwarded_request_def)
qed


lemma sample_get_forwards:
  "case ParseRequest id (sample_reader sample_get) DefaultLimits ''1.2.3.4:5'' of
     Inl _ \<Rightarrow> False
   | Inr (req, br') \<Rightarrow> Headers_Has (ReqHeaders req) ''Host'' \<and> remote_host req = ''1.2.3.4''
       \<and> forwarded req = [(''Host'', ''h''), (''X-Forwarded-For'', ''1.2.3.4''), (''Content-Length'', ''0''),
           (''Connection'', ''keep-alive'')]
       \<and> Method req = ''GET'' \<and> RawTarget req = ''/a?x=1'' \<and> ReqBody req = []"
  by (simp add: go_eval forwarded_def forward_field_def fmt_nat.simps)


end
