(* ===== verification/Wire_Format.thy ===== *)
theory Wire_Format
  imports Go_Bufio
begin

text \<open>
  The interface between a writer and a reader of messages on a stream: a message that was written is
  read back, whatever follows it on the connection. The client's view is a connection that carries one
  message after the other.
\<close>

fun read_all :: "(Reader \<Rightarrow> 'e + 'v \<times> Reader) \<Rightarrow> nat \<Rightarrow> Reader \<Rightarrow> 'e + 'v list \<times> Reader" where
  "read_all rd 0 br = Inr ([], br)"
| "read_all rd (Suc n) br =
     (case rd br of
        Inl e \<Rightarrow> Inl e
      | Inr (v, br) \<Rightarrow> (case read_all rd n br of Inl e \<Rightarrow> Inl e | Inr (vs, br) \<Rightarrow> Inr (v # vs, br)))"

locale wire_format =
  fixes rd :: "Reader \<Rightarrow> 'e + 'v \<times> Reader" and wr :: "'m \<Rightarrow> bytes" and ok :: "'m \<Rightarrow> bool" and meaning :: "'m \<Rightarrow> 'v"
  assumes reads_back: "ok m \<Longrightarrow> rd_data br = wr m @ rest \<Longrightarrow> rd br = Inr (meaning m, br\<lparr>rd_data := rest\<rparr>)"
begin

lemma reads_one: "ok m \<Longrightarrow> rd (br\<lparr>rd_data := wr m\<rparr>) = Inr (meaning m, br\<lparr>rd_data := []\<rparr>)"
  using reads_back [of m "br\<lparr>rd_data := wr m\<rparr>" "[]"] by simp

lemma reads_stream:
  assumes "\<forall>m \<in> set ms. ok m" "rd_data br = concat (map wr ms) @ rest"
  shows "read_all rd (length ms) br = Inr (map meaning ms, br\<lparr>rd_data := rest\<rparr>)"
  using assms
proof (induction ms arbitrary: br)
  case (Cons m ms)
  let ?r = "concat (map wr ms) @ rest"
  have "rd br = Inr (meaning m, br\<lparr>rd_data := ?r\<rparr>)" using Cons.prems by (intro reads_back) simp_all
  moreover have "read_all rd (length ms) (br\<lparr>rd_data := ?r\<rparr>) = Inr (map meaning ms, br\<lparr>rd_data := ?r, rd_data := rest\<rparr>)"
    using Cons.prems by (intro Cons.IH) simp_all
  ultimately show ?case by simp
qed simp

text \<open>Two streams that differ in a message are told apart, if their messages mean different things.\<close>

lemma unambiguous:
  assumes "ok m" "ok m'" "wr m @ rest = wr m' @ rest'"
  shows "meaning m = meaning m' \<and> rest = rest'"
proof -
  let ?br = "\<lparr>rd_data = wr m @ rest, rd_err = EOF, rd_size = 0\<rparr>"
  have "rd ?br = Inr (meaning m, ?br\<lparr>rd_data := rest\<rparr>)" using assms(1) by (intro reads_back) simp_all
  moreover have "rd ?br = Inr (meaning m', ?br\<lparr>rd_data := rest'\<rparr>)" using assms(2,3) by (intro reads_back) simp_all
  ultimately show ?thesis by simp
qed

end

end
