(* ===== verification/Pulse_Bench.thy ===== *)
theory Pulse_Bench
  imports Proxy_Forward Rate_Limit Wire_Format
begin

text \<open>
  \<open>cmd/pulsebench/main.go\<close>, the load generator: the request it sends, its response reader, the
  workers of \<open>runLoad\<close> with their shared ticket counter, and the figures of \<open>report\<close>. It shares no code
  with the server, so its reader and its request are checked against the server's \<open>serialize\<close> and
  \<open>ParseRequest\<close>.

  The workers are interleaved by a schedule (which worker takes the next turn of its loop); the
  network is a script of what each exchange meets. Flags, and the printing of the report with its
  floating-point throughput and milliseconds, are left out.
\<close>

section \<open>The request\<close>

definition bench_target :: "bytes \<Rightarrow> bytes \<times> bytes" where
  "bench_target url = (case Cut (CHR ''/'') url of (hostport, path, _) \<Rightarrow> (hostport, CHR ''/'' # path))"

definition extra_lines :: "bytes \<Rightarrow> bytes list" where
  "extra_lines extra = filter (\<lambda>h. h \<noteq> []) (map TrimSpace (Split (CHR '';'') extra))"

definition buildRequest :: "bytes \<Rightarrow> bytes \<Rightarrow> bytes \<Rightarrow> bytes" where
  "buildRequest hostport path extra =
     ''GET '' @ path @ '' HTTP/1.1'' @ CRLF
     @ ''Host: '' @ hostport @ CRLF
     @ ''User-Agent: pulsebench/1.0'' @ CRLF
     @ concat (map (\<lambda>h. h @ CRLF) (extra_lines extra))
     @ CRLF"

section \<open>The response reader\<close>

datatype bench_error = BenchRead go_error | BadStatus

function bench_headers :: "Reader \<Rightarrow> int \<Rightarrow> bench_error + int \<times> Reader" where
  "bench_headers br contentLength =
     (case ReadString br of
        Inl e \<Rightarrow> Inl (BenchRead e)
      | Inr (line, br') \<Rightarrow>
          let line = TrimRight line CRLF
          in if line = [] then Inr (contentLength, br')
             else (case Cut (CHR '':'') line of
                 (name, val, ok) \<Rightarrow>
                   if ok \<and> EqualFold name ''Content-Length''
                   then bench_headers br' (fst (Atoi (TrimSpace val)))
                   else bench_headers br' contentLength))"
  by pat_completeness auto
termination
  by (relation "measure (\<lambda>(br, cl). length (rd_data br))") (auto dest: ReadString_shrinks)

declare bench_headers.simps [simp del]

text \<open>\<open>io.CopyN(io.Discard, br, n)\<close>\<close>

definition CopyN_discard :: "Reader \<Rightarrow> nat \<Rightarrow> go_error + Reader" where
  "CopyN_discard br n = (if n \<le> length (rd_data br) then Inr (consume n br) else Inl (rd_err br))"

definition readResponse :: "Reader \<Rightarrow> bench_error + int \<times> Reader" where
  "readResponse br =
     (case ReadString br of
        Inl e \<Rightarrow> Inl (BenchRead e)
      | Inr (statusLine, br) \<Rightarrow>
          (case SplitN 3 (CHR '' '') statusLine of
             p0 # p1 # _ \<Rightarrow>
               (case Atoi p1 of (s, err) \<Rightarrow>
                  if err \<noteq> None then Inl BadStatus
                  else (case bench_headers br 0 of
                          Inl e \<Rightarrow> Inl e
                        | Inr (contentLength, br) \<Rightarrow>
                            if contentLength > 0
                            then (case CopyN_discard br (nat contentLength) of
                                    Inl e \<Rightarrow> Inl (BenchRead e)
                                  | Inr br \<Rightarrow> Inr (s, br))
                            else Inr (s, br)))
           | _ \<Rightarrow> Inl BadStatus))"

section \<open>The workers\<close>

record bench_result =
  latencies :: "duration list"
  statuses :: "int \<rightharpoonup> int"
  errors :: int

record exchange_script =
  bt_dial :: bool
  bt_write :: bool
  bt_bytes :: bytes
  bt_err :: go_error
  bt_elapsed :: duration

record worker =
  wk_conn :: "bytes option" \<comment> \<open>an open connection: what its reader has not yet consumed\<close>
  wk_res :: bench_result
  wk_running :: bool

record load =
  remaining :: int
  workers :: "worker list"
  turns :: nat

definition bench_failed :: "worker \<Rightarrow> worker" where
  "bench_failed k = k\<lparr>wk_conn := None, wk_res := (wk_res k)\<lparr>errors := errors (wk_res k) + 1\<rparr>\<rparr>"

definition bench_recorded :: "duration \<Rightarrow> int \<Rightarrow> bench_result \<Rightarrow> bench_result" where
  "bench_recorded d s r =
     r\<lparr>latencies := latencies r @ [d],
       statuses := (statuses r)(s \<mapsto> (case statuses r s of None \<Rightarrow> 0 | Some n \<Rightarrow> n) + 1)\<rparr>"

text \<open>The body of the loop: dial if there is no connection, write, read, record.\<close>

definition attempt :: "bool \<Rightarrow> exchange_script \<Rightarrow> worker \<Rightarrow> worker" where
  "attempt keepAlive sc k =
     (case (case wk_conn k of Some b \<Rightarrow> Some b | None \<Rightarrow> if bt_dial sc then Some [] else None) of
        None \<Rightarrow> bench_failed k
      | Some b \<Rightarrow>
          if \<not> bt_write sc then bench_failed k
          else (case readResponse \<lparr>rd_data = b @ bt_bytes sc, rd_err = bt_err sc, rd_size = 32768\<rparr> of
                  Inl e \<Rightarrow> bench_failed k
                | Inr (s, br) \<Rightarrow>
                    k\<lparr>wk_res := bench_recorded (bt_elapsed sc) s (wk_res k),
                      wk_conn := (if keepAlive then Some (rd_data br) else None)\<rparr>))"

text \<open>One turn of worker \<open>i\<close>: take a ticket from the shared counter, or stop.\<close>

definition worker_turn :: "bool \<Rightarrow> (nat \<Rightarrow> exchange_script) \<Rightarrow> load \<Rightarrow> nat \<Rightarrow> load" where
  "worker_turn keepAlive net ld i =
     (if i < length (workers ld) \<and> wk_running (workers ld ! i) then
        let k = workers ld ! i;
            r = remaining ld - 1
        in if r \<ge> 0
           then ld\<lparr>remaining := r, turns := Suc (turns ld),
                   workers := (workers ld)[i := attempt keepAlive (net (turns ld)) k]\<rparr>
           else ld\<lparr>remaining := r, workers := (workers ld)[i := k\<lparr>wk_running := False\<rparr>]\<rparr>
      else ld)"

definition start_load :: "nat \<Rightarrow> int \<Rightarrow> load" where
  "start_load conc n =
     \<lparr>remaining = n,
      workers = replicate conc
        \<lparr>wk_conn = None, wk_res = \<lparr>latencies = [], statuses = Map.empty, errors = 0\<rparr>, wk_running = True\<rparr>,
      turns = 0\<rparr>"

definition runLoad :: "bool \<Rightarrow> (nat \<Rightarrow> exchange_script) \<Rightarrow> nat \<Rightarrow> int \<Rightarrow> nat list \<Rightarrow> load" where
  "runLoad keepAlive net conc n schedule = foldl (worker_turn keepAlive net) (start_load conc n) schedule"

section \<open>The report\<close>

definition all_latencies :: "bench_result list \<Rightarrow> duration list" where
  "all_latencies rs = sort (concat (map latencies rs))"

definition merge_statuses :: "bench_result list \<Rightarrow> int \<Rightarrow> int" where
  "merge_statuses rs s = sum_list (map (\<lambda>r. case statuses r s of None \<Rightarrow> 0 | Some n \<Rightarrow> n) rs)"

definition pct :: "(real \<Rightarrow> real) \<Rightarrow> duration list \<Rightarrow> real \<Rightarrow> duration" where
  "pct rnd xs p =
     (if xs = [] then 0
      else let idx = go_trunc (rnd (p * rnd (of_nat (length xs)))) - 1;
               idx = (if idx < 0 then 0 else idx);
               idx = (if idx \<ge> int (length xs) then int (length xs) - 1 else idx)
           in xs ! nat idx)"

definition avg :: "duration \<Rightarrow> int \<Rightarrow> duration" where
  "avg tot n = (if n = 0 then 0 else go_div tot n)"

record bench_report =
  br_completed :: int
  br_errors :: int
  br_statuses :: "int \<Rightarrow> int"
  br_avg :: duration
  br_p50 :: duration
  br_p90 :: duration
  br_p99 :: duration
  br_p999 :: duration
  br_max :: duration

definition report :: "(real \<Rightarrow> real) \<Rightarrow> bench_result list \<Rightarrow> bench_report" where
  "report rnd rs =
     (let xs = all_latencies rs;
          tot = foldl (\<lambda>s d. wrap64 (s + d)) 0 xs
      in \<lparr>br_completed = int (length xs), br_errors = sum_list (map errors rs),
          br_statuses = merge_statuses rs, br_avg = avg tot (int (length xs)),
          br_p50 = pct rnd xs (rnd (1 / 2)), br_p90 = pct rnd xs (rnd (9 / 10)),
          br_p99 = pct rnd xs (rnd (99 / 100)), br_p999 = pct rnd xs (rnd (999 / 1000)),
          br_max = pct rnd xs 1\<rparr>)"

lemmas bench_defs [go_eval] =
  bench_target_def extra_lines_def buildRequest_def CopyN_discard_def readResponse_def bench_failed_def
  bench_recorded_def attempt_def worker_turn_def start_load_def runLoad_def all_latencies_def
  merge_statuses_def pct_def avg_def report_def

section \<open>The reader reads what the server writes\<close>

lemma EqualFold_plain:
  "EqualFold s t \<Longrightarrow> \<forall>c \<in> set t. ascii_lower c \<noteq> CHR ''k'' \<and> ascii_lower c \<noteq> CHR ''s'' \<Longrightarrow>
     list_all is_ascii s \<and> map ascii_lower s = map ascii_lower t"
  by (induction s t rule: EqualFold.induct) (auto split: if_splits)

lemma bench_length_key:
  assumes "canonical k = k"
  shows "EqualFold k ''Content-Length'' \<longleftrightarrow> k = ''Content-Length''"
proof
  have plain: "\<forall>c \<in> set ''Content-Length''. ascii_lower c \<noteq> CHR ''k'' \<and> ascii_lower c \<noteq> CHR ''s''"
    by code_simp
  assume "EqualFold k ''Content-Length''"
  from EqualFold_plain [OF this plain] have "list_all is_ascii k" "map ascii_lower k = map ascii_lower ''Content-Length''"
    by simp_all
  moreover have "map ascii_lower ''Content-Length'' = ''content-length''" by code_simp
  ultimately have "ToLower_is k ''content-length''" using ToLower_is_ascii by metis
  then show "k = ''Content-Length''" using length_key [OF assms] by simp
next
  show "k = ''Content-Length'' \<Longrightarrow> EqualFold k ''Content-Length''" by (simp, code_simp)
qed

lemma bench_headers_lines:
  assumes "rd_data br = concat (map (\<lambda>(k, v). header_line k v) kvs) @ CRLF @ rest"
    and "\<forall>kv \<in> set kvs. sendable kv \<and> canonical (fst kv) = fst kv"
  shows "bench_headers br cl = Inr (declared cl kvs, br\<lparr>rd_data := rest\<rparr>)"
  using assms
proof (induction kvs arbitrary: br cl)
  case Nil
  have "ReadString br = Inr (CRLF, br\<lparr>rd_data := rest\<rparr>)"
    using ReadString_line [of "[]" br rest] Nil by simp
  then show ?case
    using TrimRight_line [of "[]"] by (simp add: bench_headers.simps [of br] declared_def)
next
  case (Cons kv kvs)
  obtain k v where kv: "kv = (k, v)" by fastforce
  have s: "sendable (k, v)" "canonical k = k" using Cons.prems kv by simp_all
  note h = header_line_parts [OF s(1)]
  let ?r = "concat (map (\<lambda>(k, v). header_line k v) kvs) @ CRLF @ rest"
  have rd: "ReadString br = Inr ((k @ '': '' @ v) @ CRLF, br\<lparr>rd_data := ?r\<rparr>)"
    using Cons.prems(1) kv h(1) by (intro ReadString_line [OF h(2)]) simp
  have IH: "bench_headers (br\<lparr>rd_data := ?r\<rparr>) cl' = Inr (declared cl' kvs, br\<lparr>rd_data := rest\<rparr>)" for cl'
    using Cons.IH [of "br\<lparr>rd_data := ?r\<rparr>"] Cons.prems(2) by simp
  have ne: "k @ '': '' @ v \<noteq> []" by simp
  show ?case
    unfolding bench_headers.simps [of br] rd sum.case prod.case Let_def h(3) h(4) h(5) IH if_not_P [OF ne]
    using kv bench_length_key [OF s(2)] length_key [OF s(2)] by (simp add: declared_def is_length_def Atoi_def)
qed

lemma readResponse_one:
  assumes "sendable_headers (w_headers w)" "MinInt64 \<le> w_status w" "w_status w \<le> MaxInt64"
    and "int (length (w_body w)) \<le> MaxInt64" "\<not> isHead w"
    and "rd_data br = fst (serialize now w ''HTTP/1.1'' ka) @ rest"
  shows "readResponse br = Inr (w_status w, br\<lparr>rd_data := rest\<rparr>)"
proof -
  let ?h = "final_headers now w ka"
  let ?hs = "concat (map (\<lambda>(k, v). header_line k v) (Headers_Range ?h)) @ CRLF @ wire_body w @ rest"
  let ?l = "''HTTP/1.1'' @ '' '' @ Itoa (w_status w) @ '' '' @ ReasonPhrase (w_status w)"
  have s: "sendable_headers ?h" using sendable_final [OF assms(1)] .
  have clean: "LF \<notin> set ?l" "CHR '' '' \<notin> set (Itoa (w_status w))"
    using Itoa_clean [of _ "w_status w"] ReasonPhrase_clean [of "w_status w"] by (auto simp: ascii_space_def)
  have rd: "ReadString br = Inr (?l @ CRLF, br\<lparr>rd_data := ?hs\<rparr>)"
    using assms(6) by (intro ReadString_line [OF clean(1)])
      (simp add: serialize_def Let_def Headers_WriteTo_def status_line_def)
  have "Cut (CHR '' '') (?l @ CRLF) = (''HTTP/1.1'', Itoa (w_status w) @ '' '' @ ReasonPhrase (w_status w) @ CRLF, True)"
    using Cut_found [where c = "CHR '' ''" and b = "''HTTP/1.1''"] by simp
  moreover have "Cut (CHR '' '') (Itoa (w_status w) @ '' '' @ ReasonPhrase (w_status w) @ CRLF)
      = (Itoa (w_status w), ReasonPhrase (w_status w) @ CRLF, True)"
    using Cut_found [OF clean(2), where a = "ReasonPhrase (w_status w) @ CRLF"] by simp
  ultimately have sp: "SplitN 3 (CHR '' '') (?l @ CRLF) = [''HTTP/1.1'', Itoa (w_status w), ReasonPhrase (w_status w) @ CRLF]"
    by (simp add: numeral_3_eq_3)
  have keys: "\<forall>kv \<in> set (Headers_Range ?h). sendable kv \<and> canonical (fst kv) = fst kv"
    using sendable_Range [OF s] Headers_Range_keys [of ?h] s by (fastforce simp: sendable_headers_def hdr_wf_def)
  have hd: "bench_headers (br\<lparr>rd_data := ?hs\<rparr>) 0 = Inr (declared 0 (Headers_Range ?h), br\<lparr>rd_data := wire_body w @ rest\<rparr>)"
    using bench_headers_lines [of "br\<lparr>rd_data := ?hs\<rparr>" "Headers_Range ?h" "wire_body w @ rest" 0] keys by simp
  have dl: "declared 0 (Headers_Range ?h) = int (length (wire_body w))"
    using s lengths_Range [of ?h] Values_final(1) [of now w ka]
      Atoi_Itoa [of "int (length (w_body w))"] assms(4,5)
    by (simp add: declared_last sendable_headers_def Atoi_def MinInt64_def wire_body_def)
  show ?thesis
    unfolding readResponse_def rd sum.case prod.case sp list.case Atoi_Itoa [OF assms(2,3)] hd dl
    by (simp add: CopyN_discard_def consume_def)
qed

definition answer_ok :: "ResponseWriter \<Rightarrow> bool" where
  "answer_ok w \<longleftrightarrow> sendable_headers (w_headers w) \<and> MinInt64 \<le> w_status w \<and> w_status w \<le> MaxInt64
     \<and> int (length (w_body w)) \<le> MaxInt64 \<and> \<not> isHead w"

text \<open>An answer as the server writes it: when, of which writer, and whether the connection stays.\<close>

definition written :: "instant \<times> ResponseWriter \<times> bool \<Rightarrow> bytes" where
  "written a = (case a of (now, w, ka) \<Rightarrow> fst (serialize now w ''HTTP/1.1'' ka))"

interpretation bench_wire: wire_format readResponse written "\<lambda>(_, w, _). answer_ok w" "\<lambda>(_, w, _). w_status w"
proof
  fix m rest and br :: Reader
  assume "case m of (_, w, _) \<Rightarrow> answer_ok w" "rd_data br = written m @ rest"
  then show "readResponse br = Inr (case m of (_, w, _) \<Rightarrow> w_status w, br\<lparr>rd_data := rest\<rparr>)"
    by (cases m) (auto simp: answer_ok_def written_def intro: readResponse_one)
qed

text \<open>
  The load generator reads what the server writes. From the responses of a connection, one
  after the other (none to a HEAD request), its reader takes exactly one response per call, with the
  status the server gave it, and leaves what follows untouched: no response is counted under another
  status and none is skipped, bodyless statuses included.
\<close>

theorem readResponses_serialized:
  assumes "\<forall>(now, w, ka) \<in> set answers. answer_ok w"
    and "rd_data br = concat (map written answers) @ rest"
  shows "read_all readResponse (length answers) br
    = Inr (map (\<lambda>(now, w, ka). w_status w) answers, br\<lparr>rd_data := rest\<rparr>)"
  using assms by (rule bench_wire.reads_stream)

lemma readResponses_serialized_witness:
  "read_all readResponse 2 (sample_reader
      (fst (serialize 0 (w_WriteString NewResponseWriter ''hello'') ''HTTP/1.1'' True)
       @ fst (serialize 0 (w_WriteHeader NewResponseWriter 304) ''HTTP/1.1'' False)))
    = Inr ([200, 304], sample_reader [])"
proof -
  let ?as = "[(0, w_WriteString NewResponseWriter ''hello'', True), (0, w_WriteHeader NewResponseWriter 304, False)]"
  have ok: "\<forall>(now, w, ka) \<in> set ?as. answer_ok w"
    by (simp add: answer_ok_def writer_defs sendable_headers_def hdr_inv map_slice_def MinInt64_def MaxInt64_def)
  from readResponses_serialized [OF ok, of "sample_reader (concat (map written ?as))" "[]"]
  show ?thesis by (simp add: sample_reader_def numeral_2_eq_2 written_def) (simp add: writer_defs)
qed

section \<open>Every ticket is accounted for\<close>

definition done_count :: "bench_result \<Rightarrow> int" where
  "done_count r = int (length (latencies r)) + errors r"

definition tallied :: "bench_result \<Rightarrow> bool" where
  "tallied r \<longleftrightarrow> finite (dom (statuses r)) \<and> 0 \<le> errors r
     \<and> (\<Sum>s \<in> dom (statuses r). the (statuses r s)) = int (length (latencies r))"

lemma recorded_tallied: "tallied r \<Longrightarrow> tallied (bench_recorded d s r)"
  using sum_bump [of "statuses r" s] by (auto simp: tallied_def bench_recorded_def)

lemma recorded_done: "done_count (bench_recorded d s r) = done_count r + 1"
  by (simp add: done_count_def bench_recorded_def)

lemma failed_done:
  "done_count (wk_res (bench_failed k)) = done_count (wk_res k) + 1"
  "tallied (wk_res k) \<Longrightarrow> tallied (wk_res (bench_failed k))"
  "wk_running (bench_failed k) = wk_running k"
  by (simp_all add: bench_failed_def done_count_def tallied_def)

lemma attempt_cases:
  "attempt ka sc k = bench_failed k
   \<or> (\<exists>s c. attempt ka sc k = k\<lparr>wk_res := bench_recorded (bt_elapsed sc) s (wk_res k), wk_conn := c\<rparr>)"
  unfolding attempt_def by (simp split: option.split sum.split prod.split) blast

lemma attempt_done:
  "done_count (wk_res (attempt ka sc k)) = done_count (wk_res k) + 1"
  "tallied (wk_res k) \<Longrightarrow> tallied (wk_res (attempt ka sc k))"
  "wk_running (attempt ka sc k) = wk_running k"
  using attempt_cases [of ka sc k] failed_done [of k]
  by (auto simp: recorded_done recorded_tallied)

text \<open>
  The books of a run with \<open>n\<close> tickets, after the turns of \<open>schedule\<close>: a ticket is out for each exchange,
  a worker stops only when there are none left, and each turn of a worker that still runs took one.
\<close>

definition load_ok :: "nat \<Rightarrow> int \<Rightarrow> nat list \<Rightarrow> load \<Rightarrow> bool" where
  "load_ok conc n schedule ld \<longleftrightarrow>
     length (workers ld) = conc
     \<and> int (turns ld) = max 0 n - max 0 (remaining ld)
     \<and> (\<Sum>k \<leftarrow> workers ld. done_count (wk_res k)) = int (turns ld)
     \<and> (\<forall>k \<in> set (workers ld). tallied (wk_res k) \<and> (\<not> wk_running k \<longrightarrow> remaining ld < 0))
     \<and> (\<forall>i < conc. wk_running (workers ld ! i) \<longrightarrow> count_list schedule i \<le> turns ld)"

lemma start_load_ok: "load_ok conc n [] (start_load conc n)"
  by (auto simp: load_ok_def start_load_def done_count_def tallied_def sum_list_replicate)

lemma worker_turn_ok:
  assumes "load_ok conc n schedule ld"
  shows "load_ok conc n (schedule @ [i]) (worker_turn ka net ld i)"
proof (cases "i < length (workers ld) \<and> wk_running (workers ld ! i)")
  case False
  then show ?thesis using assms by (auto simp: load_ok_def worker_turn_def)
next
  case True
  let ?k = "workers ld ! i"
  have k: "?k \<in> set (workers ld)" "i < conc" using True assms by (simp_all add: load_ok_def)
  show ?thesis
  proof (cases "remaining ld - 1 \<ge> 0")
    case ticket: True
    let ?k' = "attempt ka (net (turns ld)) ?k"
    have "worker_turn ka net ld i =
        ld\<lparr>remaining := remaining ld - 1, turns := Suc (turns ld), workers := (workers ld)[i := ?k']\<rparr>"
      using True ticket by (simp add: worker_turn_def Let_def)
    moreover have "wk_running k" if "k \<in> set (workers ld)" for k
      using assms that ticket by (fastforce simp: load_ok_def)
    moreover have "tallied (wk_res k) \<and> wk_running k" if "k \<in> set ((workers ld)[i := ?k'])" for k
      using that set_update_subset_insert [of "workers ld" i ?k'] assms k calculation(2)
      by (auto simp: load_ok_def attempt_done)
    ultimately show ?thesis
      using assms True ticket
      by (auto simp: load_ok_def sum_list_exchange attempt_done nth_list_update le_SucI)
  next
    case none: False
    let ?k' = "?k\<lparr>wk_running := False\<rparr>"
    have "worker_turn ka net ld i = ld\<lparr>remaining := remaining ld - 1, workers := (workers ld)[i := ?k']\<rparr>"
      using True none by (simp add: worker_turn_def Let_def)
    moreover have "tallied (wk_res k)" if "k \<in> set ((workers ld)[i := ?k'])" for k
      using that set_update_subset_insert [of "workers ld" i ?k'] assms k by (auto simp: load_ok_def)
    ultimately show ?thesis
      using assms True none
      by (auto simp: load_ok_def sum_list_exchange nth_list_update)
  qed
qed

lemma runLoad_ok: "load_ok conc n schedule (runLoad ka net conc n schedule)"
  unfolding runLoad_def
  by (induction schedule rule: rev_induct) (simp_all add: start_load_ok worker_turn_ok)

lemma merged_total:
  assumes "\<forall>r \<in> set rs. tallied r" "finite S" "\<forall>r \<in> set rs. dom (statuses r) \<subseteq> S"
  shows "(\<Sum>s \<in> S. merge_statuses rs s) = int (length (all_latencies rs))"
  using assms(1,3)
proof (induction rs)
  case (Cons r rs)
  have "(\<Sum>s \<in> S. case statuses r s of None \<Rightarrow> 0 | Some n \<Rightarrow> n) = (\<Sum>s \<in> dom (statuses r). the (statuses r s))"
    using Cons.prems assms(2) by (intro sum.mono_neutral_cong_right) (auto split: option.splits)
  with Cons show ?case by (simp add: merge_statuses_def all_latencies_def tallied_def sum.distrib)
qed (simp add: merge_statuses_def all_latencies_def)

lemma completed_errors:
  "br_completed (report rnd rs) + br_errors (report rnd rs) = (\<Sum>r \<leftarrow> rs. done_count r)"
proof -
  have "int (length (all_latencies rs)) + sum_list (map errors rs) = (\<Sum>r \<leftarrow> rs. done_count r)"
    by (induction rs) (simp_all add: all_latencies_def done_count_def)
  then show ?thesis by (simp add: report_def Let_def)
qed

definition run_accounted :: "nat \<Rightarrow> int \<Rightarrow> load \<Rightarrow> bench_report \<Rightarrow> bool" where
  "run_accounted conc n ld rep \<longleftrightarrow>
     length (workers ld) = conc \<and> (\<forall>k \<in> set (workers ld). \<not> wk_running k)
     \<and> br_completed rep + br_errors rep = max 0 n
     \<and> (\<Sum>s \<in> (\<Union>k \<in> set (workers ld). dom (statuses (wk_res k))). br_statuses rep s) = br_completed rep"

lemma runLoad_accounted:
  assumes "0 < conc" "\<forall>i < conc. nat n < count_list schedule i"
  shows "run_accounted conc n (runLoad keepAlive net conc n schedule)
    (report rnd (map wk_res (workers (runLoad keepAlive net conc n schedule))))"
proof -
  define ld where "ld = runLoad keepAlive net conc n schedule"
  let ?rs = "map wk_res (workers ld)"
  let ?codes = "\<Union>k \<in> set (workers ld). dom (statuses (wk_res k))"
  have ok: "load_ok conc n schedule ld" unfolding ld_def by (rule runLoad_ok)
  then have "int (turns ld) = max 0 n - max 0 (remaining ld)" by (simp add: load_ok_def)
  then have turns: "turns ld \<le> nat n" by (simp add: max_def split: if_splits)
  have stopped: "\<not> wk_running (workers ld ! i)" if "i < conc" for i
    using ok turns assms(2) that by (fastforce simp: load_ok_def)
  then have all: "\<forall>k \<in> set (workers ld). \<not> wk_running k"
    using ok by (auto simp: load_ok_def in_set_conv_nth)
  moreover have "workers ld ! 0 \<in> set (workers ld)" using ok assms(1) by (simp add: load_ok_def)
  ultimately have "remaining ld < 0" using ok by (auto simp: load_ok_def)
  then have "(\<Sum>r \<leftarrow> ?rs. done_count r) = max 0 n" using ok by (simp add: load_ok_def comp_def)
  moreover have "(\<Sum>s \<in> ?codes. merge_statuses ?rs s) = int (length (all_latencies ?rs))"
    using ok by (intro merged_total) (auto simp: load_ok_def tallied_def)
  ultimately show ?thesis
    using all ok completed_errors [of rnd ?rs] unfolding ld_def [symmetric] run_accounted_def
    by (simp add: load_ok_def) (simp add: report_def Let_def)
qed


text \<open>
  A run of three requests by two workers that alternate: the second exchange cannot be dialled, the
  others are answered with a 200 and a 404.
\<close>

definition sample_net :: "nat \<Rightarrow> exchange_script" where
  "sample_net t = \<lparr>bt_dial = (t \<noteq> 1), bt_write = True,
     bt_bytes = fst (serialize 0 (w_WriteHeader NewResponseWriter (if t = 0 then 200 else 404)) ''HTTP/1.1'' True),
     bt_err = EOF, bt_elapsed = 1000 * (int t + 1)\<rparr>"

lemma sample_net_fields [simp]:
  "bt_dial (sample_net t) \<longleftrightarrow> t \<noteq> 1" "bt_write (sample_net t)" "bt_err (sample_net t) = EOF"
  "bt_elapsed (sample_net t) = 1000 * (int t + 1)"
  by (simp_all add: sample_net_def)

lemma sample_response [simp]:
  "readResponse \<lparr>rd_data = bt_bytes (sample_net t), rd_err = EOF, rd_size = 32768\<rparr>
     = Inr (if t = 0 then 200 else 404, \<lparr>rd_data = [], rd_err = EOF, rd_size = 32768\<rparr>)"
proof -
  let ?w = "w_WriteHeader NewResponseWriter (if t = 0 then 200 else 404)"
  let ?r = "\<lparr>rd_data = bt_bytes (sample_net t), rd_err = EOF, rd_size = 32768\<rparr>"
  have "sendable_headers (w_headers ?w)" "int (length (w_body ?w)) \<le> MaxInt64" "\<not> isHead ?w"
    "MinInt64 \<le> w_status ?w" "w_status ?w \<le> MaxInt64" and st: "w_status ?w = (if t = 0 then 200 else 404)"
    by (simp_all add: writer_defs sendable_headers_def hdr_inv map_slice_def MinInt64_def MaxInt64_def)
  then have "readResponse ?r = Inr (w_status ?w, ?r\<lparr>rd_data := []\<rparr>)"
    by (intro readResponse_one [where now = 0 and ka = True]) (simp_all add: sample_net_def)
  then show ?thesis unfolding st by simp
qed

lemma sample_attempt:
  "wk_conn k = None \<Longrightarrow> attempt True (sample_net 1) k = bench_failed k"
  "wk_conn k = Some [] \<or> wk_conn k = None \<and> t \<noteq> 1 \<Longrightarrow> attempt True (sample_net t) k =
     k\<lparr>wk_res := bench_recorded (1000 * (int t + 1)) (if t = 0 then 200 else 404) (wk_res k), wk_conn := Some []\<rparr>"
  by (auto simp: attempt_def)

lemma sample_turn:
  "i < length ks \<Longrightarrow> wk_running (ks ! i) \<Longrightarrow> 0 < r \<Longrightarrow>
     worker_turn True sample_net \<lparr>remaining = r, workers = ks, turns = t\<rparr> i =
       \<lparr>remaining = r - 1, workers = ks[i := attempt True (sample_net t) (ks ! i)], turns = Suc t\<rparr>"
  "i < length ks \<Longrightarrow> wk_running (ks ! i) \<Longrightarrow> r \<le> 0 \<Longrightarrow>
     worker_turn True sample_net \<lparr>remaining = r, workers = ks, turns = t\<rparr> i =
       \<lparr>remaining = r - 1, workers = ks[i := (ks ! i)\<lparr>wk_running := False\<rparr>], turns = t\<rparr>"
  "i < length ks \<Longrightarrow> \<not> wk_running (ks ! i) \<Longrightarrow>
     worker_turn True sample_net \<lparr>remaining = r, workers = ks, turns = t\<rparr> i = \<lparr>remaining = r, workers = ks, turns = t\<rparr>"
  by (simp_all add: worker_turn_def Let_def)

lemma sample_run:
  "map wk_res (workers (runLoad True sample_net 2 3 [0, 1, 0, 1, 0, 1, 0, 1])) =
     [\<lparr>latencies = [1000, 3000], statuses = [200 \<mapsto> 1, 404 \<mapsto> 1], errors = 0\<rparr>,
      \<lparr>latencies = [], statuses = Map.empty, errors = 1\<rparr>]"
  by (simp add: runLoad_def start_load_def sample_turn sample_attempt sample_attempt(1) [unfolded One_nat_def]
      bench_failed_def bench_recorded_def numeral_2_eq_2)


section \<open>The percentiles\<close>

lemma go_trunc_mono:
  assumes "x \<le> y"
  shows "go_trunc x \<le> go_trunc y"
proof (cases "0 \<le> x")
  case True
  then show ?thesis using assms by (simp add: go_trunc_def floor_mono)
next
  case False
  then have "\<lceil>x\<rceil> \<le> 0" by simp
  then have "\<lceil>x\<rceil> \<le> \<lfloor>y\<rfloor>" if "0 \<le> y" by (rule order_trans) (use that in simp)
  then show ?thesis using assms False by (simp add: go_trunc_def ceiling_mono)
qed

lemma pct_index:
  assumes "xs \<noteq> []"
  shows "pct rnd xs p = xs ! nat (min (int (length xs) - 1) (max 0 (go_trunc (rnd (p * rnd (of_nat (length xs)))) - 1)))"
proof -
  have "(if i < 0 then 0 else i) = max 0 i" "(if i \<ge> n then n - 1 else i) = min (n - 1) i" for i n :: int
    by auto
  then show ?thesis unfolding pct_def Let_def using assms by simp
qed

lemma pct_in: "xs \<noteq> [] \<Longrightarrow> pct rnd xs p \<in> set xs"
  by (simp add: pct_index nat_less_iff)

lemma pct_mono:
  assumes "mono rnd" "\<forall>x \<ge> 0. 0 \<le> rnd x" "sorted xs" "xs \<noteq> []" "p \<le> q"
  shows "pct rnd xs p \<le> pct rnd xs q"
proof -
  have "p * rnd (of_nat (length xs)) \<le> q * rnd (of_nat (length xs))"
    using assms(2,5) by (intro mult_right_mono) simp_all
  then have "go_trunc (rnd (p * rnd (of_nat (length xs)))) \<le> go_trunc (rnd (q * rnd (of_nat (length xs))))"
    using assms(1) by (intro go_trunc_mono) (simp add: monoD)
  then show ?thesis
    unfolding pct_index [OF assms(4)] using assms(3,4)
    by (intro sorted_nth_mono nat_mono min.mono max.mono) (auto simp: nat_less_iff)
qed

text \<open>
  The latency figures are measured ones, and in order. For a run with at least one completed
  request, and any monotone rounding of the machine's floating point that keeps 0 and 1 and the number of
  samples, the percentiles of the report are latencies that were recorded, a higher percentile is
  never a smaller figure, and the maximum is the largest latency of all.
\<close>

theorem percentiles_ordered:
  assumes "mono rnd" "rnd 0 = 0" "rnd 1 = 1" "concat (map latencies rs) \<noteq> []"
    and "rnd (of_nat (length (all_latencies rs))) = of_nat (length (all_latencies rs))"
  shows "let r = report rnd rs; samples = set (concat (map latencies rs))
         in {br_p50 r, br_p90 r, br_p99 r, br_p999 r, br_max r} \<subseteq> samples
            \<and> br_p50 r \<le> br_p90 r \<and> br_p90 r \<le> br_p99 r \<and> br_p99 r \<le> br_p999 r \<and> br_p999 r \<le> br_max r
            \<and> (\<forall>d \<in> samples. d \<le> br_max r)"
proof -
  let ?xs = "all_latencies rs"
  have set: "set ?xs = set (concat (map latencies rs))" and sorted: "sorted ?xs"
    by (simp_all add: all_latencies_def)
  have ne: "?xs \<noteq> []" using assms(4) set by (metis set_empty)
  have pos: "\<forall>x \<ge> 0. 0 \<le> rnd x" using assms(1,2) by (metis monoD)
  note m = pct_mono [OF assms(1) pos sorted ne]
  have up: "rnd x \<le> rnd y" if "x \<le> y" for x y using assms(1) that by (rule monoD)
  have top: "pct rnd ?xs 1 = ?xs ! (length ?xs - 1)"
    using ne by (simp add: pct_index assms(5) go_trunc_def nat_diff_distrib' Suc_le_eq)
  have max: "d \<le> pct rnd ?xs 1" if "d \<in> set ?xs" for d
    using sorted that unfolding top in_set_conv_nth by (auto intro!: sorted_nth_mono)
  have "pct rnd ?xs (rnd (999 / 1000)) \<le> pct rnd ?xs 1"
    using max pct_in [OF ne] by blast
  then show ?thesis
    using pct_in [OF ne] max set unfolding Let_def report_def by (auto intro!: m up)
qed

lemma percentiles_ordered_witness:
  "let r = report id [\<lparr>latencies = [5, 1], statuses = [200 \<mapsto> 2], errors = 0\<rparr>,
                      \<lparr>latencies = [3], statuses = [200 \<mapsto> 1], errors = 1\<rparr>]
   in br_p50 r \<le> br_p90 r \<and> br_max r = 5"
proof -
  let ?rs = "[\<lparr>latencies = [5, 1], statuses = [200 \<mapsto> 2], errors = 0\<rparr>,
              \<lparr>latencies = [3], statuses = [200 \<mapsto> 1 :: int], errors = 1\<rparr>] :: bench_result list"
  have "br_max (report id ?rs) = 5"
    by (simp add: report_def all_latencies_def pct_index go_trunc_def Let_def)
  with percentiles_ordered [of id ?rs] show ?thesis by (simp add: mono_def Let_def)
qed

section \<open>The server reads what the load generator sends\<close>

definition bench_fields :: "bytes \<Rightarrow> (bytes \<times> bytes) list \<Rightarrow> (bytes \<times> bytes) list" where
  "bench_fields hostport kvs = (''Host'', hostport) # (''User-Agent'', ''pulsebench/1.0'') # kvs"

definition bench_fits :: "Limits \<Rightarrow> bytes \<Rightarrow> (bytes \<times> bytes) list \<Rightarrow> bool" where
  "bench_fits lm path fs \<longleftrightarrow>
     int (length path + 15) \<le> MaxRequestLine lm \<and> 2 \<le> MaxHeaderLine lm
     \<and> (\<forall>(k, v) \<in> set fs. int (length k + length v + 4) \<le> MaxHeaderLine lm)
     \<and> int (\<Sum>(k, v)\<leftarrow>fs. length k + length v + 2) \<le> MaxHeaderBytes lm
     \<and> int (length fs) \<le> MaxHeaderCount lm"

lemma buildRequest_lines:
  assumes "extra_lines extra = map (\<lambda>(k, v). k @ '': '' @ v) kvs"
  shows "buildRequest hostport path extra =
    (''GET '' @ path @ '' HTTP/1.1'') @ CRLF
      @ concat (map (\<lambda>(k, v). header_line k v) (bench_fields hostport kvs)) @ CRLF"
proof -
  have "concat (map (\<lambda>h. h @ CRLF) (map (\<lambda>(k, v). k @ '': '' @ v) kvs)) = concat (map (\<lambda>(k, v). header_line k v) kvs)"
    by (induction kvs) (auto simp: header_line_def)
  then show ?thesis
    unfolding buildRequest_def assms by (simp add: bench_fields_def header_line_def)
qed

lemma Cut_subset: "set (fst (Cut c s)) \<union> set (fst (snd (Cut c s))) \<subseteq> set s"
  by (induction c s rule: Cut.induct) (auto split: prod.splits)

lemma bench_target_clean:
  assumes "bench_target url = (hostport, path)"
  shows "c \<notin> set url \<Longrightarrow> c \<noteq> CHR ''/'' \<Longrightarrow> c \<notin> set hostport \<and> c \<notin> set path" "HasPrefix path ''/''"
  using assms Cut_subset [of "CHR ''/''" url]
  by (auto simp: bench_target_def HasPrefix_def split: prod.splits)

text \<open>
  The load generator speaks the server's language. For a target without blanks or line
  feeds whose path and query decode, and extra headers of the documented form \<open>k: v\<close> that do not
  announce a body, the request it builds is, within the server's limits, one well-formed request for
  the server's parser, whatever follows it on the connection: a GET of that path with no body,
  carrying under each name the host, the user agent and the extra headers it was given, and
  nothing else.
\<close>

theorem buildRequest_parses:
  assumes "bench_target url = (hostport, path)" "CHR '' '' \<notin> set url" "LF \<notin> set url"
    and "extra_lines extra = map (\<lambda>(k, v). k @ '': '' @ v) kvs"
    and "\<forall>(k, v) \<in> set kvs. clean_name k \<and> LF \<notin> set v
           \<and> canonical k \<noteq> ''Transfer-Encoding'' \<and> canonical k \<noteq> ''Content-Length''"
    and "PathUnescape (fst (Cut (CHR ''?'') path)) = Some p"
    and "ParseQuery (fst (snd (Cut (CHR ''?'') path))) = Some q"
    and "bench_fits lm path (bench_fields hostport kvs)"
    and "rd_data br = buildRequest hostport path extra @ rest"
  shows "\<exists>req. ParseRequest uc br lm a = Inr (req, br\<lparr>rd_data := rest\<rparr>)
    \<and> Method req = ''GET'' \<and> RawTarget req = path \<and> Path req = p \<and> Query req = q
    \<and> Proto req = ''HTTP/1.1'' \<and> ReqBody req = []
    \<and> (\<forall>k. Headers_Values (ReqHeaders req) k =
          map (\<lambda>kv. TrimSpace (snd kv))
            (filter (\<lambda>kv. canonical (fst kv) = canonical k) (bench_fields hostport kvs)))"
proof -
  let ?line = "''GET '' @ path @ '' HTTP/1.1''"
  let ?fs = "bench_fields hostport kvs"
  let ?h = "add_fields NewHeaders ?fs"
  let ?r = "br\<lparr>rd_data := concat (map (\<lambda>(k, v). header_line k v) ?fs) @ CRLF @ rest\<rparr>"
  have clean: "LF \<notin> set hostport" "LF \<notin> set path" "CHR '' '' \<notin> set path" "HasPrefix path ''/''"
    using bench_target_clean [OF assms(1)] assms(2,3) by auto
  have fits: "int (length path + 15) \<le> MaxRequestLine lm" "2 \<le> MaxHeaderLine lm"
    "\<forall>(k, v) \<in> set ?fs. int (length k + length v + 4) \<le> MaxHeaderLine lm"
    "0 + int (\<Sum>(k, v)\<leftarrow>?fs. length k + length v + 2) \<le> MaxHeaderBytes lm"
    "Headers_Len NewHeaders + int (length ?fs) \<le> MaxHeaderCount lm"
    using assms(8) by (simp_all add: bench_fits_def Headers_Len_def)
  have "readBoundedLine br (MaxRequestLine lm) = Inr (?line, ?r)"
    using clean fits(1) assms(9) by (intro readBoundedLine_written) (simp_all add: buildRequest_lines [OF assms(4)])
  moreover have "Split (CHR '' '') ?line = [''GET'', path, ''HTTP/1.1'']"
    using Split_append [of "CHR '' ''" "''GET''" "path @ '' HTTP/1.1''"] Split_append [OF clean(3), of "''HTTP/1.1''"]
    by (simp add: Split_fresh)
  ultimately have rl: "parse_request_line uc br lm = Inr ((''GET'', path, ''HTTP/1.1''), ?r)"
    using clean(4) unfolding request_line_ok by (simp add: knownMethods_def)
  have names: "clean_name ''Host''" "clean_name ''User-Agent''" by (simp_all add: clean_name_def)
  have cn: "canonical ''Host'' = ''Host''" "canonical ''User-Agent'' = ''User-Agent''"
    "canonical ''Content-Length'' = ''Content-Length''" "canonical ''Transfer-Encoding'' = ''Transfer-Encoding''"
    by code_simp+
  have ph: "parse_headers ?r lm NewHeaders 0 = Inr (?h, br\<lparr>rd_data := rest\<rparr>)"
    using parse_headers_written [of ?r ?fs rest lm 0 NewHeaders] fits(2-5) assms(5) clean(1) names
    by (fastforce simp: bench_fields_def)
  have vals: "Headers_Values ?h k = map (\<lambda>kv. TrimSpace (snd kv)) (filter (\<lambda>kv. canonical (fst kv) = canonical k) ?fs)" for k
    by (simp add: Values_add_fields Values_New)
  have hwf: "hdr_wf ?h" by (intro add_fields_wf hdr_inv)
  have "Headers_Has ?h ''Host''" using vals [of "''Host''"] Has_Values [OF hwf] by (simp add: bench_fields_def cn)
  moreover have none: "Headers_Values ?h ''Transfer-Encoding'' = []" "Headers_Values ?h ''Content-Length'' = []"
    unfolding vals using assms(5) by (auto simp: bench_fields_def cn filter_empty_conv)
  then have "parse_body (br\<lparr>rd_data := rest\<rparr>) lm ?h = Inr ([], br\<lparr>rd_data := rest\<rparr>)"
    using Has_Values [OF hwf] by (simp add: parse_body_def Headers_ContainsToken_def Headers_Values_def)
  ultimately have "ParseRequest uc br lm a =
      Inr (\<lparr>Method = ''GET'', RawTarget = path, Path = p, Proto = ''HTTP/1.1'', Query = q, ReqHeaders = ?h,
            ReqBody = [], RemoteAddr = a, PathParams = Map.empty, Meta = Map.empty\<rparr>, br\<lparr>rd_data := rest\<rparr>)"
    unfolding ParseRequest_ok using rl ph assms(6,7) by auto
  then show ?thesis using vals by (intro exI) (rule conjI, assumption, simp)
qed

lemma buildRequest_parses_witness:
  "\<exists>req. ParseRequest id (sample_reader (buildRequest ''h:80'' ''/a?x=1'' ''Accept: text/html; X-T: 1'' @ ''GET'')) DefaultLimits ''9:9''
      = Inr (req, sample_reader ''GET'')
    \<and> Path req = ''/a'' \<and> Headers_Values (ReqHeaders req) ''x-t'' = [''1'']"
proof -
  let ?kvs = "[(''Accept'', ''text/html''), (''X-T'', ''1'')]"
  have t: "bench_target ''h:80/a?x=1'' = (''h:80'', ''/a?x=1'')" by code_simp
  have e: "extra_lines ''Accept: text/html; X-T: 1'' = map (\<lambda>(k, v). k @ '': '' @ v) ?kvs" by code_simp
  have c: "canonical ''Accept'' = ''Accept''" "canonical ''X-T'' = ''X-T''" "canonical ''x-t'' = ''X-T''"
    "canonical ''Host'' = ''Host''" "canonical ''User-Agent'' = ''User-Agent''" "TrimSpace ''1'' = ''1''"
    by code_simp+
  have k: "\<forall>(k, v) \<in> set ?kvs. clean_name k \<and> LF \<notin> set v
      \<and> canonical k \<noteq> ''Transfer-Encoding'' \<and> canonical k \<noteq> ''Content-Length''"
    by (simp add: clean_name_def c)
  have p: "PathUnescape (fst (Cut (CHR ''?'') ''/a?x=1'')) = Some ''/a''" by code_simp
  have q: "ParseQuery (fst (snd (Cut (CHR ''?'') ''/a?x=1''))) = Some (the (ParseQuery ''x=1''))"
    by (simp add: go_eval)
  have f: "bench_fits DefaultLimits ''/a?x=1'' (bench_fields ''h:80'' ?kvs)"
    by (simp add: bench_fits_def bench_fields_def DefaultLimits_def)
  from buildRequest_parses [OF t _ _ e k p q f, of "sample_reader (buildRequest ''h:80'' ''/a?x=1'' ''Accept: text/html; X-T: 1'' @ ''GET'')" "''GET''" id "''9:9''"]
  show ?thesis by (auto simp: sample_reader_def bench_fields_def c)
qed

end
