(* ===== verification/End_To_End.thy ===== *)
theory End_To_End
  imports Pulse_Wire Pulse_Bench
begin

text \<open>
  The parts put together over the wire: the reverse proxy in front of a server of this repository, and
  the load generator against one. The bytes one side writes are the bytes the other side reads, so the
  answer of the handler behind the wire is what the proxy's client gets, and the status it set is what
  the load generator counts.
\<close>

section \<open>One request over a fresh connection\<close>

lemma serves_request:
  assumes "serveConn uc cf h remote [a] g = (ev, e, g')"
    and "ParseRequest uc (receive a []) (cf_Limits cf) remote = Inr (req, br)"
    and "ar_bytes a \<noteq> []" "ar_in_time a" "ar_flush_ok a" "Method req \<noteq> ''HEAD''"
  obtains n q w g1 now ka where "safeHandle h req NewResponseWriter (g\<lparr>ticks := n\<rparr>) = (q, w, g1)"
    "flushed ev = [fst (serialize now w ''HTTP/1.1'' ka)]"
proof -
  let ?g = "g\<lparr>ticks := Suc (Suc (ticks g))\<rparr>"
  have w0: "NewResponseWriter\<lparr>isHead := (Method req = ''HEAD'')\<rparr> = NewResponseWriter"
    using assms(6) by (simp add: NewResponseWriter_def)
  obtain q w g1 where hd: "safeHandle h req NewResponseWriter ?g = (q, w, g1)" by (rule prod_cases3)
  let ?ka = "keep_alive cf q (ar_draining_after a) 1"
  obtain ev1 g2 where s: "send cf True w ?ka g1 = (ev1, g2)" by fastforce
  have "flushed ev = flushed ev1"
    using assms(1-5) hd s w0
    by (auto simp: serveConn_def serve_turn_def peek_ok_def time_Now_def answer_def emits_def Let_def split: if_splits)
  with send_events [OF s] have "flushed ev = [fst (serialize (clock g1 (Suc (ticks g1))) w ''HTTP/1.1'' ?ka)]" by simp
  with hd show thesis by (rule that)
qed

section \<open>The proxy in front of a server\<close>

text \<open>An answer the proxy can take over whole: a body within its cap, and fields that survive the wire.\<close>

definition proxyable :: "int \<Rightarrow> ResponseWriter \<Rightarrow> bool" where
  "proxyable cap w \<longleftrightarrow> sendable_headers (w_headers w) \<and> MinInt64 \<le> w_status w \<and> w_status w \<le> MaxInt64
     \<and> \<not> isHead w \<and> \<not> bodyless (w_status w) \<and> int (length (w_body w)) \<le> cap"

lemma first_conn:
  assumes "idle (ups p ! u) \<noteq> [] \<or> net_dial p (dials p) (Addr (ups p ! u))"
  obtains c reused q where "getConn p u = (Some (c, reused), q)" "exchanges q = exchanges p"
    "net_reply q = net_reply p" "px_cfg q = px_cfg p"
proof (cases "idle (ups p ! u)")
  case Nil
  with assms have "getConn p u = (Some ((dials p, u), False),
      p\<lparr>dials := Suc (dials p), opened := opened p @ [(dials p, u)]\<rparr>)"
    by (simp add: getConn_def dial_def)
  then show thesis by (rule that) simp_all
next
  case (Cons c cs)
  then have "getConn p u = (Some (c, True), upd_up u (\<lambda>x. x\<lparr>idle := cs\<rparr>) p)" by (simp add: getConn_def)
  then show thesis by (rule that) (simp_all add: upd_up_def)
qed

lemma relay_answered:
  assumes "idle (ups p ! u) \<noteq> [] \<or> net_dial p (dials p) (Addr (ups p ! u))"
    and "rp_write_ok (net_reply p (exchanges p))"
    and "relay_response (px_cfg p) (reply_reader (net_reply p (exchanges p))) w0 = (RelayOk True, w1)"
  shows "\<exists>q. relay p u req w0 = (RelayOk True, w1, q)"
proof -
  obtain c reused p1 where g: "getConn p u = (Some (c, reused), p1)" and
    p1: "exchanges p1 = exchanges p" "net_reply p1 = net_reply p" "px_cfg p1 = px_cfg p"
    using assms(1) by (rule first_conn)
  have "\<exists>q. relayConn p1 c u req w0 = (RelayOk True, w1, q)"
    using assms(2,3) by (simp add: relayConn_def Let_def p1 reply_reader_def)
  then show ?thesis using g by (auto simp: relay_def)
qed

lemma exchange_answered:
  assumes "pick p = (Some (u # us), p1)" "u < length (ups p)" "0 < MaxAttempts (px_cfg p)"
    and "idle (ups p ! u) \<noteq> [] \<or> net_dial p (dials p) (Addr (ups p ! u))"
    and "rp_write_ok (net_reply p (exchanges p))"
    and "relay_response (px_cfg p) (reply_reader (net_reply p (exchanges p))) w0 = (RelayOk True, w1)"
  shows "\<exists>v q. proxy_exchange ft p req w0 = (Returned, w_SetHeader w1 ''X-Upstream'' v, q)"
proof -
  have p1: "p1 = p \<or> p1 = p\<lparr>next_pick := next_pick p + 1\<rparr>" using assms(1) by (rule pick_inv)
  let ?p = "upd_up u (\<lambda>x. x\<lparr>active := active x + 1\<rparr>) p1"
  have "ups p1 = ups p" "net_dial p1 = net_dial p" "dials p1 = dials p" "net_reply p1 = net_reply p"
    "exchanges p1 = exchanges p" "px_cfg p1 = px_cfg p"
    using p1 by auto
  then have "\<exists>q. relay ?p u req w0 = (RelayOk True, w1, q)"
    using assms(2,4-6) by (intro relay_answered) (simp_all add: upd_up_def)
  then obtain q where "relay ?p u req w0 = (RelayOk True, w1, q)" by blast
  moreover have "\<exists>us'. take (nat (min (MaxAttempts (px_cfg p1)) (int (length (u # us))))) (u # us) = u # us'"
    using assms(3) p1 by (cases "nat (min (MaxAttempts (px_cfg p1)) (int (length (u # us))))") auto
  ultimately show ?thesis
    using assms(1) by (auto simp: proxy_exchange_def Let_def)
qed


lemma hello_answer:
  "fst (snd (safeHandle hello req NewResponseWriter g)) = w_WriteString NewResponseWriter ''hello''"
  by (simp add: safeHandle_def hello_def)

lemma hello_ok:
  "5 \<le> cap \<Longrightarrow> proxyable cap (w_WriteString NewResponseWriter ''hello'')"
  "answer_ok (w_WriteString NewResponseWriter ''hello'')"
  "w_status (w_WriteString NewResponseWriter ''hello'') = 200" "w_body (w_WriteString NewResponseWriter ''hello'') = ''hello''"
  by (simp_all add: proxyable_def answer_ok_def writer_defs sendable_headers_def hdr_inv map_slice_def
      MinInt64_def MaxInt64_def)

lemma sample_forward:
  obtains req br' where "ParseRequest id (sample_reader sample_get) DefaultLimits ''1.2.3.4:5'' = Inr (req, br')"
    "Headers_Has (ReqHeaders req) ''Host''" "LF \<notin> set (remote_host req)" "Method req = ''GET''"
    "within_limits DefaultLimits req"
proof -
  obtain req br' where p: "ParseRequest id (sample_reader sample_get) DefaultLimits ''1.2.3.4:5'' = Inr (req, br')"
    and f: "Headers_Has (ReqHeaders req) ''Host''" "remote_host req = ''1.2.3.4''"
      "forwarded req = [(''Host'', ''h''), (''X-Forwarded-For'', ''1.2.3.4''), (''Content-Length'', ''0''),
         (''Connection'', ''keep-alive'')]"
      "Method req = ''GET''" "RawTarget req = ''/a?x=1''" "ReqBody req = []"
    using sample_get_forwards by (auto split: sum.splits)
  have m: "MaxBodyBytes DefaultLimits \<le> maxAlloc" by (simp add: DefaultLimits_def maxAlloc_def)
  have "within_limits DefaultLimits req" using f m by (simp add: within_limits_def) (simp add: DefaultLimits_def)
  with p f show thesis by (intro that) simp_all
qed


section \<open>A pooled connection\<close>

text \<open>A request some parser of this repository returned, which the next server has room for.\<close>

definition forwardable :: "Limits \<Rightarrow> Request \<Rightarrow> bool" where
  "forwardable lm req \<longleftrightarrow> (\<exists>uc br lm1 a br'. ParseRequest uc br lm1 a = Inr (req, br'))
     \<and> Headers_Has (ReqHeaders req) ''Host'' \<and> within_limits lm req \<and> LF \<notin> set (remote_host req)"

interpretation relay_wire: wire_format "\<lambda>br. ParseRequest uc br lm a" relay_request "forwardable lm" "forwarded_request a"
  for uc lm a
  by unfold_locales (auto simp: forwardable_def intro: relay_request_parses(1))

lemma forwarded_wire:
  assumes "forwardable lm req"
  shows "wire uc lm a (relay_request req) (forwarded_request a req)"
proof -
  have "ParseRequest uc (\<lparr>rd_data = [], rd_err = err, rd_size = 16384\<rparr>\<lparr>rd_data := relay_request req\<rparr>) lm a
      = Inr (forwarded_request a req, \<lparr>rd_data = [], rd_err = err, rd_size = 16384\<rparr>\<lparr>rd_data := []\<rparr>)" for err
    using assms by (rule relay_wire.reads_one)
  then show ?thesis by (simp add: wire_def)
qed



text \<open>
  What the relay does not look at: an answer that announces the end of its connection (the server's
  last one before its request limit, or while it drains) is relayed like any other, and its connection
  is parked for the next request, which then finds it closed.
\<close>

theorem closing_connection_parked:
  assumes "proxyable (px_MaxBodyBytes (px_cfg p)) w" "px_MaxBodyBytes (px_cfg p) \<le> maxAlloc" "\<not> hijacked w0"
    and "net_reply p (exchanges p) = \<lparr>rp_write_ok = True, rp_data = fst (serialize now w ''HTTP/1.1'' False), rp_end = EOF\<rparr>"
    and "u < length (ups p)" "int (length (idle (ups p ! u))) < PoolSize (px_cfg p)"
  shows "\<exists>w1 q. relayConn p c u req w0 = (RelayOk True, w1, q) \<and> c \<in> set (idle (ups q ! u))"
proof -
  let ?br = "reply_reader (net_reply p (exchanges p))"
  have "rd_data ?br = fst (serialize now w ''HTTP/1.1'' False) @ []" by (simp add: assms(4) reply_reader_def)
  from serialized_relayed [OF _ _ _ _ _ _ assms(2) this assms(3)] assms(1)
  obtain w1 where "relay_response (px_cfg p) ?br w0 = (RelayOk True, w1)" unfolding proxyable_def by blast
  then show ?thesis
    using assms(4-6) by (simp add: relayConn_def Let_def reply_reader_def putConn_def upd_up_def)
qed

section \<open>The load generator against a server\<close>

text \<open>
  C39. The load generator measures the server. An exchange of a worker on a connection with nothing left
  unread, with the request it builds delivered whole to a server of this repository, is recorded under
  exactly the status that server's handler answered with, whatever that is, and never as an error.
\<close>

theorem bench_records_status:
  assumes target: "bench_target url = (hostport, path)" "CHR '' '' \<notin> set url" "LF \<notin> set url"
      "extra_lines extra = map (\<lambda>(k, v). k @ '': '' @ v) kvs"
      "\<forall>(k, v) \<in> set kvs. clean_name k \<and> LF \<notin> set v
         \<and> canonical k \<noteq> ''Transfer-Encoding'' \<and> canonical k \<noteq> ''Content-Length''"
      "PathUnescape (fst (Cut (CHR ''?'') path)) = Some p" "ParseQuery (fst (snd (Cut (CHR ''?'') path))) = Some q"
    and server: "serveConn uc cf h remote [a] g = (ev, e, g')" "ar_bytes a = buildRequest hostport path extra"
      "ar_in_time a" "ar_flush_ok a" "bench_fits (cf_Limits cf) path (bench_fields hostport kvs)"
    and handler: "\<forall>req n. Method req = ''GET'' \<and> Path req = p \<longrightarrow>
      answer_ok (fst (snd (safeHandle h req NewResponseWriter (g\<lparr>ticks := n\<rparr>))))"
    and worker: "bt_dial sc" "bt_write sc" "bt_bytes sc = concat (flushed ev)" "wk_conn k \<in> {None, Some []}"
  shows "\<exists>req n q' w g1. Method req = ''GET'' \<and> Path req = p
    \<and> safeHandle h req NewResponseWriter (g\<lparr>ticks := n\<rparr>) = (q', w, g1)
    \<and> attempt ka sc k = k\<lparr>wk_res := bench_recorded (bt_elapsed sc) (w_status w) (wk_res k),
                           wk_conn := (if ka then Some [] else None)\<rparr>"
proof -
  have rd: "rd_data (receive a []) = buildRequest hostport path extra @ []" using server(2) by (simp add: receive_def)
  obtain req where rq: "ParseRequest uc (receive a []) (cf_Limits cf) remote = Inr (req, (receive a [])\<lparr>rd_data := []\<rparr>)"
    "Method req = ''GET''" "Path req = p"
    using buildRequest_parses [OF target server(5) rd] by blast
  have "Method req \<noteq> ''HEAD''" "ar_bytes a \<noteq> []" using rq(2) server(2) by (simp_all add: buildRequest_def)
  from serves_request [OF server(1) rq(1) this(2) server(3,4) this(1)]
  obtain n q' w g1 now ka' where h: "safeHandle h req NewResponseWriter (g\<lparr>ticks := n\<rparr>) = (q', w, g1)"
    and fl: "flushed ev = [fst (serialize now w ''HTTP/1.1'' ka')]" .
  have w: "answer_ok w" using handler rq(2,3) h by (metis fst_conv snd_conv)
  let ?br = "\<lparr>rd_data = fst (serialize now w ''HTTP/1.1'' ka') @ [], rd_err = bt_err sc, rd_size = 32768\<rparr>"
  have "readResponse ?br = Inr (w_status w, ?br\<lparr>rd_data := []\<rparr>)"
    using w bench_wire.reads_back [of "(now, w, ka')" ?br "[]"] by (simp add: written_def)
  then have "attempt ka sc k = k\<lparr>wk_res := bench_recorded (bt_elapsed sc) (w_status w) (wk_res k),
      wk_conn := (if ka then Some [] else None)\<rparr>"
    using worker fl by (auto simp: attempt_def)
  with rq(2,3) h show ?thesis by blast
qed

theorem bench_records_status_witness:
  "\<exists>ev e g'. serveConn id sample_config hello ''9:9'' [sample_arrival (buildRequest ''h:80'' ''/a'' [])]
        (sample_world () () () ()) = (ev, e, g')
    \<and> statuses (wk_res (attempt True
        \<lparr>bt_dial = True, bt_write = True, bt_bytes = concat (flushed ev), bt_err = NetTimeout, bt_elapsed = 7\<rparr>
        \<lparr>wk_conn = None, wk_res = \<lparr>latencies = [], statuses = Map.empty, errors = 0\<rparr>, wk_running = True\<rparr>))
      = [200 \<mapsto> 1]"
proof -
  let ?g = "sample_world () () () ()" and ?a = "sample_arrival (buildRequest ''h:80'' ''/a'' [])"
  let ?k = "\<lparr>wk_conn = None, wk_res = \<lparr>latencies = [], statuses = Map.empty, errors = 0\<rparr>, wk_running = True\<rparr>"
  obtain ev e g' where s: "serveConn id sample_config hello ''9:9'' [?a] ?g = (ev, e, g')" by (rule prod_cases3)
  let ?sc = "\<lparr>bt_dial = True, bt_write = True, bt_bytes = concat (flushed ev), bt_err = NetTimeout, bt_elapsed = 7\<rparr>"
  have t: "bench_target ''h:80/a'' = (''h:80'', ''/a'')" by code_simp
  have x: "extra_lines [] = map (\<lambda>(k, v). k @ '': '' @ v) []" by code_simp
  have p: "PathUnescape (fst (Cut (CHR ''?'') ''/a'')) = Some ''/a''"
    "ParseQuery (fst (snd (Cut (CHR ''?'') ''/a''))) = Some (the (ParseQuery []))"
    by (simp_all add: go_eval)
  have f: "bench_fits (cf_Limits sample_config) ''/a'' (bench_fields ''h:80'' [])"
    by (simp add: bench_fits_def bench_fields_def DefaultLimits_def)
  have h: "\<forall>req n. Method req = ''GET'' \<and> Path req = ''/a'' \<longrightarrow>
      answer_ok (fst (snd (safeHandle hello req NewResponseWriter (?g\<lparr>ticks := n\<rparr>))))"
    by (simp add: hello_answer hello_ok)
  from bench_records_status [OF t _ _ x _ p s _ _ _ f h, of ?sc ?k True]
  obtain req n q' w g1 where r: "safeHandle hello req NewResponseWriter (?g\<lparr>ticks := n\<rparr>) = (q', w, g1)"
    "attempt True ?sc ?k = ?k\<lparr>wk_res := bench_recorded 7 (w_status w) (wk_res ?k), wk_conn := Some []\<rparr>"
    by (auto simp: sample_arrival_def)
  have "w_status w = 200" using r(1) hello_answer [of req "?g\<lparr>ticks := n\<rparr>"] by (simp add: hello_ok)
  with r(2) s show ?thesis by (simp add: bench_recorded_def)
qed

end
