(* ===== verification/Bench_Main.thy ===== *)
theory Bench_Main
  imports Pulse_Bench
begin

text \<open>
  \<open>main\<close> and the printed report of \<open>cmd/pulsebench/main.go\<close>: a warm-up run whose results are dropped,
  the measured run, and the text made of it. The text of a floating-point number with a fixed number of
  decimals is a parameter; the JSON form of the same figures is left out.
\<close>

section \<open>The two runs\<close>

record bench_flags =
  bf_url :: bytes
  bf_conc :: int
  bf_total :: int
  bf_keepalive :: bool
  bf_warmup :: int
  bf_headers :: bytes
  bf_json :: bool

definition default_bench_flags :: bench_flags where
  "default_bench_flags =
     \<lparr>bf_url = ''127.0.0.1:8080/'', bf_conc = 50, bf_total = 100000, bf_keepalive = True, bf_warmup = 1000,
      bf_headers = [], bf_json = False\<rparr>"

text \<open>\<open>make([]result, conc)\<close> panics when the length is negative or the slice (of 40-byte elements) too large.\<close>

definition checked_load :: "bool \<Rightarrow> (nat \<Rightarrow> exchange_script) \<Rightarrow> int \<Rightarrow> int \<Rightarrow> nat list \<Rightarrow> load option" where
  "checked_load keepAlive net conc n schedule =
     (if conc < 0 \<or> conc * 40 > maxAlloc then None else Some (runLoad keepAlive net (nat conc) n schedule))"

text \<open>
  The request sent, the loads of the warm-up (when there is one) and of the measured run, and the
  report; \<open>None\<close> is the panic. Each run has its own network and schedule.
\<close>

record bench_run =
  rn_request :: bytes
  rn_warmup :: "load option"
  rn_load :: load
  rn_report :: bench_report

definition bench_main :: "(real \<Rightarrow> real) \<Rightarrow> bench_flags \<Rightarrow> (nat \<Rightarrow> exchange_script) \<times> nat list
    \<Rightarrow> (nat \<Rightarrow> exchange_script) \<times> nat list \<Rightarrow> bench_run option" where
  "bench_main rnd fl warm real_run =
     (let (hostport, path) = bench_target (bf_url fl);
          request = buildRequest hostport path (bf_headers fl);
          warmed = (if bf_warmup fl > 0
                    then map_option Some (checked_load (bf_keepalive fl) (fst warm) (min (bf_conc fl) 8) (bf_warmup fl) (snd warm))
                    else Some None)
      in (case warmed of
            None \<Rightarrow> None
          | Some w \<Rightarrow>
              (case checked_load (bf_keepalive fl) (fst real_run) (bf_conc fl) (bf_total fl) (snd real_run) of
                 None \<Rightarrow> None
               | Some ld \<Rightarrow> Some \<lparr>rn_request = request, rn_warmup = w, rn_load = ld,
                                 rn_report = report rnd (map wk_res (workers ld))\<rparr>)))"

section \<open>The printed report\<close>

text \<open>\<open>fixed n x\<close> is the text of \<open>x\<close> with \<open>n\<close> decimals; dividing by no time at all gives an infinity or NaN.\<close>

definition msf :: "(real \<Rightarrow> real) \<Rightarrow> duration \<Rightarrow> real" where
  "msf rnd d = rnd (rnd (of_int (go_div d 1000)) / 1000)"

definition ms :: "(real \<Rightarrow> real) \<Rightarrow> (nat \<Rightarrow> real \<Rightarrow> bytes) \<Rightarrow> duration \<Rightarrow> bytes" where
  "ms rnd fixed d = fixed 2 (msf rnd d) @ ''ms''"

definition rps_text :: "(real \<Rightarrow> real) \<Rightarrow> (nat \<Rightarrow> real \<Rightarrow> bytes) \<Rightarrow> int \<Rightarrow> duration \<Rightarrow> bytes" where
  "rps_text rnd fixed completed elapsed =
     (let s = Seconds rnd elapsed
      in if s = 0 then (if completed = 0 then ''NaN'' else ''+Inf'')
         else fixed 0 (rnd (rnd (of_int completed) / s)))"

definition status_counts :: "bench_result list \<Rightarrow> (int \<times> int) list" where
  "status_counts rs = map (\<lambda>s. (s, merge_statuses rs s)) (sorted_list_of_set (\<Union>r \<in> set rs. dom (statuses r)))"

definition report_text :: "(real \<Rightarrow> real) \<Rightarrow> (nat \<Rightarrow> real \<Rightarrow> bytes) \<Rightarrow> bench_result list \<Rightarrow> duration \<Rightarrow> int \<Rightarrow> bool
    \<Rightarrow> bytes" where
  "report_text rnd fixed rs elapsed conc keepAlive =
     (let rep = report rnd rs; m = ms rnd fixed
      in ''Requests     '' @ Itoa (br_completed rep) @ '' completed, '' @ Itoa (br_errors rep) @ '' errors in ''
           @ fixed 2 (Seconds rnd elapsed) @ ''s'' @ [LF]
         @ ''Throughput   '' @ rps_text rnd fixed (br_completed rep) elapsed @ '' req/s  ('' @ Itoa conc
           @ '' conns, keepalive='' @ (if keepAlive then ''true'' else ''false'') @ '')'' @ [LF]
         @ ''Latency      avg '' @ m (br_avg rep) @ '' | p50 '' @ m (br_p50 rep) @ '' | p90 '' @ m (br_p90 rep)
           @ '' | p99 '' @ m (br_p99 rep) @ '' | p99.9 '' @ m (br_p999 rep) @ '' | max '' @ m (br_max rep) @ [LF]
         @ ''Statuses     '' @ concat (map (\<lambda>(s, n). Itoa s @ '':'' @ Itoa n @ ''  '') (status_counts rs)) @ [LF])"

lemmas bench_main_defs [go_eval] =
  default_bench_flags_def checked_load_def bench_main_def msf_def ms_def rps_text_def status_counts_def
  report_text_def

section \<open>What a run reports\<close>

lemma status_counts_sum:
  assumes "\<forall>r \<in> set rs. tallied r"
  shows "(\<Sum>(s, n) \<leftarrow> status_counts rs. n) = int (length (all_latencies rs))"
    "sorted (map fst (status_counts rs))" "distinct (map fst (status_counts rs))"
proof -
  let ?S = "\<Union>r \<in> set rs. dom (statuses r)"
  have "finite ?S" using assms by (auto simp: tallied_def)
  then have "(\<Sum>(s, n) \<leftarrow> status_counts rs. n) = (\<Sum>s \<in> ?S. merge_statuses rs s)"
    by (simp add: status_counts_def comp_def sum_list_distinct_conv_sum_set)
  also have "\<dots> = int (length (all_latencies rs))"
    using assms \<open>finite ?S\<close> by (intro merged_total) auto
  finally show "(\<Sum>(s, n) \<leftarrow> status_counts rs. n) = int (length (all_latencies rs))" .
  show "sorted (map fst (status_counts rs))" "distinct (map fst (status_counts rs))"
    by (simp_all add: status_counts_def comp_def)
qed

text \<open>
  The books of the program balance. With a sensible number of connections \<open>main\<close> does not panic;
  once every worker of the measured run has had its turns, the report accounts for exactly the number
  of requests asked for, as completed or as errors, whatever the warm-up did; and the line of statuses
  lists every status once, in ascending order, with counts that add up to the completed requests.
\<close>

theorem bench_main_accounts:
  assumes "0 < bf_conc fl" "bf_conc fl * 40 \<le> maxAlloc"
    and "list_all (\<lambda>i. nat (bf_total fl) < count_list schedule i) [0..<nat (bf_conc fl)]"
  shows "\<exists>run. bench_main rnd fl warm (net, schedule) = Some run
    \<and> br_completed (rn_report run) + br_errors (rn_report run) = max 0 (bf_total fl)
    \<and> (let cs = status_counts (map wk_res (workers (rn_load run)))
       in sorted (map fst cs) \<and> distinct (map fst cs) \<and> (\<Sum>(s, n) \<leftarrow> cs. n) = br_completed (rn_report run))"
proof -
  let ?n = "bf_total fl" and ?c = "nat (bf_conc fl)"
  define ld where "ld = runLoad (bf_keepalive fl) net ?c ?n schedule"
  have turns: "\<forall>i < ?c. nat ?n < count_list schedule i" using assms(3) by (simp add: list_all_iff)
  have w: "min (bf_conc fl) 8 * 40 \<le> maxAlloc" "0 \<le> min (bf_conc fl) 8" using assms(1,2) by (simp_all add: maxAlloc_def)
  have c: "checked_load (bf_keepalive fl) net (bf_conc fl) ?n schedule = Some ld"
    using assms(1,2) by (simp add: checked_load_def ld_def)
  obtain wm where wm: "(if bf_warmup fl > 0 then map_option Some (checked_load (bf_keepalive fl) (fst warm)
      (min (bf_conc fl) 8) (bf_warmup fl) (snd warm)) else Some None) = Some wm"
    using w by (cases "bf_warmup fl > 0") (auto simp: checked_load_def)
  obtain hostport path where "bench_target (bf_url fl) = (hostport, path)" by fastforce
  then have "bench_main rnd fl warm (net, schedule) = Some \<lparr>rn_request = buildRequest hostport path (bf_headers fl),
      rn_warmup = wm, rn_load = ld, rn_report = report rnd (map wk_res (workers ld))\<rparr>"
    unfolding bench_main_def Let_def wm prod.case fst_conv snd_conv option.case c by simp
  then obtain run where run: "bench_main rnd fl warm (net, schedule) = Some run"
    and r: "rn_load run = ld" "rn_report run = report rnd (map wk_res (workers ld))"
    by simp
  have "br_completed (rn_report run) + br_errors (rn_report run) = max 0 ?n"
    using runLoad_accounted [of ?c ?n schedule "bf_keepalive fl" net rnd] turns assms(1)
    unfolding r run_accounted_def ld_def by simp
  moreover have "\<forall>res \<in> set (map wk_res (workers ld)). tallied res"
    using runLoad_ok [of ?c ?n schedule "bf_keepalive fl" net] by (auto simp: load_ok_def ld_def)
  moreover have "br_completed (rn_report run) = int (length (all_latencies (map wk_res (workers ld))))"
    by (simp add: r report_def Let_def)
  ultimately show ?thesis
    using run status_counts_sum by (auto simp: r Let_def)
qed

theorem bench_main_accounts_witness:
  "\<exists>run. bench_main id (default_bench_flags\<lparr>bf_conc := 2, bf_total := 3\<rparr>) (\<lambda>_. undefined, []) (sample_net, [0, 1, 0, 1, 0, 1, 0, 1]) = Some run
    \<and> br_completed (rn_report run) + br_errors (rn_report run) = 3"
proof -
  let ?fl = "default_bench_flags\<lparr>bf_conc := 2, bf_total := 3\<rparr>"
  have "list_all (\<lambda>i. nat (bf_total ?fl) < count_list [0, 1, 0, 1, 0, 1, 0, 1] i) [0..<nat (bf_conc ?fl)]"
    by (simp add: upt_rec)
  from bench_main_accounts [OF _ _ this, of id "(\<lambda>_. undefined, [])" sample_net] show ?thesis
    by (auto simp: maxAlloc_def)
qed

end
