(* ===== verification/Spec2Isabelle.thy ===== *)
theory Spec2Isabelle
  imports Http_Chunked Http_Server Http_Lifecycle Rate_Janitor Cache_Races Metrics_Races Proxy_Races
    Proxy_Health End_To_End Bench_Main
begin

text \<open>
  PulseHTTP, an HTTP/1.1 server built on raw TCP, with its router, its middlewares, its response
  cache, its metrics, its reverse proxy, the server program and the load generator.

  Parts and theories. A connection is served by \<open>serveConn\<close> (\<open>httpcore/server.go\<close>), which parses a
  request (\<open>httpcore/request.go\<close>), hands it to the handler, and writes the buffered response
  (\<open>httpcore/response.go\<close>). The handler of the program (\<open>cmd/pulsehttp/main.go\<close>) is a chain of
  middlewares around either the router with the demo routes or the reverse proxy.

  \<^item> \<^theory_text>\<open>Prelude\<close>: the types for Go's strings, times and \<open>int64\<close> arithmetic, the named collections of
    facts, and lemmas on lists and maps the components share.
  \<^item> \<^theory_text>\<open>Go_Strings\<close>, \<^theory_text>\<open>Go_Strconv\<close>, \<^theory_text>\<open>Go_Bufio\<close>, \<^theory_text>\<open>Go_Url\<close>, \<^theory_text>\<open>Go_Time\<close>, \<^theory_text>\<open>Go_Json\<close>: what the program uses
    of Go's standard library, with its round trips (\<open>Atoi\<close> of \<open>Itoa\<close>, \<open>Split\<close> and \<open>Join\<close>).
  \<^item> \<^theory_text>\<open>Wire_Format\<close>: the interface between a writer and a reader of messages on a stream (a locale), with
    the connection that carries one message after the other; its instances are the server's responses for
    the load generator's reader and the proxy's requests for the parser.
  \<^item> \<^theory_text>\<open>Http_Status\<close> (\<open>httpcore/status.go\<close>), \<^theory_text>\<open>Http_Headers\<close> (\<open>httpcore/headers.go\<close>): the header table,
    its record the Go struct, one definition per method, refining an association list.
  \<^item> \<^theory_text>\<open>Http_Lines\<close>, \<^theory_text>\<open>Http_Request\<close>, \<^theory_text>\<open>Http_Request_Props\<close>, \<^theory_text>\<open>Http_Chunked\<close> (\<open>httpcore/request.go\<close>): the
    bounded parser over a buffered reader; well-formedness and limits of what it returns, the status of
    each failure, framing that no later byte can change, and the chunked coding.
  \<^item> \<^theory_text>\<open>Http_Response\<close> (\<open>httpcore/response.go\<close>): the response writer and its serialisation.
  \<^item> \<^theory_text>\<open>Http_Middleware\<close> (\<open>middleware/middleware.go\<close>): the handler type, a function of the request, the
    writer and the world (clock, log, registry, limiter, cache, pool) that ends with a return or a
    panic; \<open>Chain\<close>, \<open>Recover\<close>, \<open>RequestID\<close>, \<open>Logging\<close>; the locale \<open>middleware\<close>, what a middleware
    promises about the handler it wraps.
  \<^item> \<^theory_text>\<open>Http_Server\<close> (\<open>httpcore/server.go\<close>, one connection): the loop at the level of bytes, and the
    refinement of a loop over parsed requests. \<^theory_text>\<open>Http_Lifecycle\<close> (the same file, the concurrent part):
    the listener, the connection table, the wait group, \<open>Shutdown\<close> and the end of \<open>main\<close> as an
    \<open>inductive\<close> step relation with invariants by rule induction.
  \<^item> \<^theory_text>\<open>Http_Router\<close> (\<open>router/router.go\<close>), \<^theory_text>\<open>Http_Auth\<close> (\<open>middleware/auth.go\<close>), \<^theory_text>\<open>Rate_Limit\<close>
    (\<open>middleware/ratelimit.go\<close>), \<^theory_text>\<open>Http_Cache\<close> (\<open>cache/cache.go\<close>), \<^theory_text>\<open>Http_Metrics\<close>
    (\<open>metrics/metrics.go\<close>): the state of each as a record, its operations, its middleware.
  \<^item> \<^theory_text>\<open>Proxy_Pool\<close> (\<open>proxy/proxy.go\<close>): selection, idle connections, the relay of an exchange, attempts,
    health checks, \<open>Stop\<close>. \<^theory_text>\<open>Proxy_Conns\<close>: no operation loses or duplicates a connection.
    \<^theory_text>\<open>Proxy_Failover\<close>: which upstreams are tried, and what is marked. \<^theory_text>\<open>Proxy_Wire\<close> and
    \<^theory_text>\<open>Proxy_Forward\<close>: between two ends of this server, responses and requests come through the proxy
    unchanged except for the fields the connection owns.
  \<^item> \<^theory_text>\<open>Pulse_App\<close> (\<open>cmd/pulsehttp/main.go\<close>): the routes, the access policy and the assembly of the
    handler from the flags; what holds of the whole chain.
  \<^item> \<^theory_text>\<open>Cache_Races\<close>: requests that interleave on the response cache, as an \<open>inductive\<close> step relation over
    tasks; what is served then, and the stale read that survives a write. \<^theory_text>\<open>Proxy_Races\<close>: the goroutines
    of the proxy (requests, health rounds, \<open>Stop\<close>) under every schedule of their turns.
    \<^theory_text>\<open>Metrics_Races\<close>: observations and snapshots cut into their atomic operations; the counters stay exact,
    and a snapshot between two of them can be torn.
  \<^item> \<^theory_text>\<open>Pulse_Wire\<close>: the whole program on the wire, from the bytes of a peer to the bytes of the responses,
    whose header fields are exactly their lines.
  \<^item> \<^theory_text>\<open>Pulse_Bench\<close> (\<open>cmd/pulsebench/main.go\<close>): the load generator's request, reader, workers and figures,
    against the server's parser and serialiser. \<^theory_text>\<open>Bench_Main\<close>: its \<open>main\<close> and the printed report.
  \<^item> \<^theory_text>\<open>Rate_Janitor\<close>, \<^theory_text>\<open>Proxy_Health\<close>: the background goroutines of the limiter and of the pool, as loops over
    what their \<open>select\<close> wakes up for.
  \<^item> \<^theory_text>\<open>End_To_End\<close>: two programs over the wire, the proxy in front of a server and the load generator
    against one: the answer of the handler behind is what the client gets, and what is counted; a pooled
    connection delivers exactly the requests that were relayed on it.

  Conventions. A string or byte slice is a list of characters; \<open>int\<close> and \<open>int64\<close> are integers, wrapped
  with \<open>wrap64\<close> where the code can overflow; unsigned counters are 64-bit words. Errors are values of a
  sum, a panic is a constructor of its own, so a crash is visible in the result. A \<open>float64\<close> is a real
  number with the machine's rounding as a parameter (\<open>rnd\<close>), where rounding can matter.

  The network. A connection's reader holds the bytes that arrive before its next read error and that
  error (end of file, deadline, or another). An arrival script says what each idle period of a
  connection brings; the proxy's world has, for each dial, whether it succeeds and what the connection
  answers. Theorems quantify over all of them.

  Bounds and termination. Every loop of the code is a total function here, and its termination is
  proved: reads shrink the reader, attempts are counted down, evictions shrink the list. The connection
  loop takes its turns from the arrival script, and a turn that finds no script left is a read error.
  No definition runs on fuel. The workers of \<open>runLoad\<close> are interleaved by a schedule, and the theorem
  about it says how many turns each worker needs to be done.

  Concurrency. Handlers run one at a time in the model of a connection. Where interleaving matters the
  code is cut into the steps between which another goroutine can run: the lifecycle of the server, the
  requests of \<^theory_text>\<open>Cache_Races\<close> and \<^theory_text>\<open>Proxy_Races\<close>, the counters of \<^theory_text>\<open>Metrics_Races\<close>, the calls of the rate limiter from many clients, the workers
  of the load generator. Operations that the code performs under one lock, or as one atomic operation, are
  one step. A task without interference is proved to be the sequential definition, and a proxied request
  over \<open>n\<close> upstreams is done within \<open>9n + 2\<close> turns of its own, whatever the others do.

  Not modelled: the TLS wrap of the transport and the loading of keys; parsing of the command line and
  delivery of signals; the passing of real time (sleeping is the clock moving); socket options; the
  text of operating-system errors, SHA-256 and the formatting of floating-point numbers, which are
  parameters; the JSON form of the load generator's report.
\<close>

end
